(* ===== verification/Prelude.thy ===== *)
theory Prelude
  imports Main "HOL-Library.Word" "HOL-Library.Monad_Syntax"
begin

text \<open>
  Shared vocabulary of the development: machine word types, the rounding macros of
  \<^verbatim>\<open>inc/types.h\<close>, linked lists threaded through a function of links, counting loops and
  the generic facts about the option monad, in which \<open>None\<close> is a kernel panic.
\<close>

unbundle bit_operations_syntax

type_synonym u8 = "8 word"
type_synonym u16 = "16 word"
type_synonym u32 = "32 word"

named_theorems c_defs "definitions of C macros and small helpers, unfolded on demand"

subsection \<open>Rounding macros (inc/types.h)\<close>

definition ROUNDDOWN :: "u32 \<Rightarrow> u32 \<Rightarrow> u32" where
  "ROUNDDOWN a n = a - a mod n"

definition ROUNDUP :: "u32 \<Rightarrow> u32 \<Rightarrow> u32" where
  "ROUNDUP a n = ROUNDDOWN (a + n - 1) n"

lemma unat_ROUNDDOWN: "unat (ROUNDDOWN a n) = unat a - unat a mod unat n"
  unfolding ROUNDDOWN_def
  by (subst unat_sub) (auto simp: unat_mod word_le_nat_alt)

lemma ROUNDDOWN_le: "ROUNDDOWN a n \<le> a"
  by (simp add: word_le_nat_alt unat_ROUNDDOWN)

lemma unat_ROUNDDOWN_mult: "unat (ROUNDDOWN a n) = unat n * (unat a div unat n)"
  by (simp add: unat_ROUNDDOWN minus_mod_eq_mult_div)

lemma ROUNDDOWN_dvd: "unat n dvd unat (ROUNDDOWN a n)"
  by (simp add: unat_ROUNDDOWN_mult)

lemma unat_ROUNDUP:
  assumes "unat a + unat n \<le> 2 ^ 32" and "0 < n"
  shows "unat (ROUNDUP a n) = unat n * ((unat a + unat n - 1) div unat n)"
proof -
  have n: "1 \<le> unat n" using assms(2) by (simp add: word_less_nat_alt)
  have eq: "a + n - 1 = of_nat (unat a + unat n - 1)"
    using n by (simp add: of_nat_diff)
  have "unat (a + n - 1) = unat a + unat n - 1"
    unfolding eq using assms(1) n by (subst unat_of_nat) simp
  then show ?thesis by (simp add: ROUNDUP_def unat_ROUNDDOWN_mult)
qed

subsection \<open>Linked lists threaded through a link function\<close>

text \<open>
  \<open>linked nx p xs\<close>: following the links \<open>nx\<close> from \<open>p\<close> visits exactly \<open>xs\<close> and then
  stops at the null pointer. Both free lists of the kernel are read this way.
\<close>

fun linked :: "('a \<Rightarrow> 'a option) \<Rightarrow> 'a option \<Rightarrow> 'a list \<Rightarrow> bool" where
  "linked nx p [] \<longleftrightarrow> p = None"
| "linked nx p (x # xs) \<longleftrightarrow> p = Some x \<and> linked nx (nx x) xs"

lemma linked_None [simp]: "linked nx None xs \<longleftrightarrow> xs = []"
  by (cases xs) auto

lemma linked_Some: "linked nx (Some p) xs \<longleftrightarrow> (\<exists>ys. xs = p # ys \<and> linked nx (nx p) ys)"
  by (cases xs) auto

lemma linked_unique: "linked nx p xs \<Longrightarrow> linked nx p ys \<Longrightarrow> xs = ys"
proof (induction xs arbitrary: p ys)
  case Nil
  then show ?case by simp
next
  case (Cons x xs)
  then obtain zs where "ys = x # zs" "linked nx (nx x) zs" by (auto simp: linked_Some)
  with Cons show ?case by auto
qed

lemma linked_suffix: "linked nx p (xs @ y # ys) \<Longrightarrow> linked nx (Some y) (y # ys)"
  by (induction xs arbitrary: p) auto

lemma linked_distinct: "linked nx p xs \<Longrightarrow> distinct xs"
proof (induction xs arbitrary: p)
  case Nil
  then show ?case by simp
next
  case (Cons x xs)
  have "x \<notin> set xs"
  proof
    assume "x \<in> set xs"
    then obtain us vs where xs: "xs = us @ x # vs" by (meson split_list)
    with Cons.prems have "linked nx (Some x) (x # vs)" by (auto dest: linked_suffix)
    moreover have "linked nx (Some x) (x # xs)" using Cons.prems by simp
    ultimately have "x # vs = x # xs" by (rule linked_unique)
    with xs show False by simp
  qed
  with Cons show ?case by auto
qed

lemma linked_cong:
  "(\<And>x. x \<in> set xs \<Longrightarrow> nx x = nx' x) \<Longrightarrow> linked nx p xs = linked nx' p xs"
  by (induction xs arbitrary: p) auto

lemma linked_upd [simp]: "x \<notin> set xs \<Longrightarrow> linked (nx(x := v)) p xs = linked nx p xs"
  by (rule linked_cong) auto

lemma linked_field_upd [simp]:
  "x \<notin> set xs \<Longrightarrow>
     linked (\<lambda>q. f (if q = x then v else g q)) p xs = linked (\<lambda>q. f (g q)) p xs"
  by (rule linked_cong) auto

lemma linked_last_link: "linked nx p xs \<Longrightarrow> x \<in> set xs \<Longrightarrow> nx x = None \<longleftrightarrow> x = last xs"
proof (induction xs arbitrary: p)
  case Nil
  then show ?case by simp
next
  case (Cons y ys)
  then have l: "linked nx (nx y) ys" by simp
  show ?case
  proof (cases "x = y")
    case True
    have "ys \<noteq> [] \<Longrightarrow> last ys \<noteq> y"
      using linked_distinct [OF Cons.prems(1)] last_in_set [of ys] by auto
    with True l show ?thesis by (cases ys) auto
  next
    case False
    with Cons.prems(2) have "x \<in> set ys" by simp
    then have "ys \<noteq> []" by auto
    with Cons.IH [OF l \<open>x \<in> set ys\<close>] show ?thesis by simp
  qed
qed

lemma linked_upt:
  "linked (\<lambda>i. if Suc i < n then Some (Suc i) else None) (if a < n then Some a else None) [a..<n]"
proof (induction "n - a" arbitrary: a)
  case 0
  then show ?case by simp
next
  case (Suc k)
  then have "k = n - Suc a" "a < n" by auto
  with Suc.hyps(1) [of "Suc a"] show ?case by (simp add: upt_conv_Cons)
qed

subsection \<open>Conditional conclusions\<close>

lemma if_holdsD: "(if P then A else B) \<Longrightarrow> P \<Longrightarrow> A" by simp
lemma if_notD: "(if P then A else B) \<Longrightarrow> \<not> P \<Longrightarrow> B" by simp

subsection \<open>Counting loops over a list\<close>

fun each :: "('a \<Rightarrow> 's \<Rightarrow> (unit \<times> 's) option) \<Rightarrow> 'a list \<Rightarrow> 's \<Rightarrow> (unit \<times> 's) option" where
  "each f [] s = Some ((), s)"
| "each f (x # xs) s = do { (_, s) \<leftarrow> f x s; each f xs s }"

lemma each_append: "each f (xs @ ys) s = do { (_, s) \<leftarrow> each f xs s; each f ys s }"
  by (induction xs arbitrary: s) (auto split: Option.bind_splits)

text \<open>A loop invariant indexed by the number of iterations done.\<close>

lemma each_upt_inv:
  assumes "P 0 s" "\<And>i s. i < n \<Longrightarrow> P i s \<Longrightarrow> \<exists>s'. f i s = Some ((), s') \<and> P (Suc i) s'"
  shows "\<exists>s'. each f [0..<n] s = Some ((), s') \<and> P n s'"
  using assms(2)
proof (induction n)
  case 0
  with assms(1) show ?case by simp
next
  case (Suc n)
  then obtain s1 where s1: "each f [0..<n] s = Some ((), s1)" "P n s1" by auto
  then obtain s2 where "f n s1 = Some ((), s2)" "P (Suc n) s2" using Suc.prems [of n] by auto
  with s1 show ?case by (auto simp: each_append)
qed

end
