(* ===== verification/Mmu.thy ===== *)
theory Mmu
  imports Prelude
begin

text \<open>
  The paging macros of \<^verbatim>\<open>inc/mmu.h\<close> and the address-space layout of
  \<^verbatim>\<open>inc/memlayout.h\<close>, on 32-bit words, with their arithmetic reading on natural
  numbers. Indices into page directories and page tables are natural numbers.
\<close>

subsection \<open>Page and layout constants\<close>

definition PGSIZE :: u32 where "PGSIZE = 4096"
definition NPDENTRIES :: nat where "NPDENTRIES = 1024"
definition NPTENTRIES :: nat where "NPTENTRIES = 1024"
definition PTSIZE :: u32 where "PTSIZE = PGSIZE * 1024"
definition PTE_P :: u32 where "PTE_P = 0x001"
definition PTE_W :: u32 where "PTE_W = 0x002"
definition PTE_U :: u32 where "PTE_U = 0x004"
definition PTE_PWT :: u32 where "PTE_PWT = 0x008"
definition PTE_PCD :: u32 where "PTE_PCD = 0x010"
definition PTE_D :: u32 where "PTE_D = 0x040"
definition PTE_PS :: u32 where "PTE_PS = 0x080"
definition PTE_AVAIL :: u32 where "PTE_AVAIL = 0xE00"
definition PTE_SYSCALL :: u32 where "PTE_SYSCALL = PTE_AVAIL OR PTE_P OR PTE_W OR PTE_U"
definition FL_IF :: u32 where "FL_IF = 0x00000200"
definition FL_IOPL_MASK :: u32 where "FL_IOPL_MASK = 0x00003000"
definition FL_IOPL_3 :: u32 where "FL_IOPL_3 = 0x00003000"

definition KERNBASE :: u32 where "KERNBASE = 0xF0000000"
definition IOPHYSMEM :: u32 where "IOPHYSMEM = 0x0A0000"
definition EXTPHYSMEM :: u32 where "EXTPHYSMEM = 0x100000"
definition KSTACKTOP :: u32 where "KSTACKTOP = KERNBASE"
definition KSTKSIZE :: u32 where "KSTKSIZE = 8 * PGSIZE"
definition KSTKGAP :: u32 where "KSTKGAP = 8 * PGSIZE"
definition MMIOLIM :: u32 where "MMIOLIM = KSTACKTOP - PTSIZE"
definition MMIOBASE :: u32 where "MMIOBASE = MMIOLIM - PTSIZE"
definition ULIM :: u32 where "ULIM = MMIOBASE"
definition UVPT :: u32 where "UVPT = ULIM - PTSIZE"
definition UPAGES :: u32 where "UPAGES = UVPT - PTSIZE"
definition UENVS :: u32 where "UENVS = UPAGES - PTSIZE"
definition UTOP :: u32 where "UTOP = UENVS"
definition UXSTACKTOP :: u32 where "UXSTACKTOP = UTOP"
definition USTACKTOP :: u32 where "USTACKTOP = UTOP - 2 * PGSIZE"
definition UTEXT :: u32 where "UTEXT = 2 * PTSIZE"
definition UTEMP :: u32 where "UTEMP = PTSIZE"
definition PFTEMP :: u32 where "PFTEMP = UTEMP + PTSIZE - PGSIZE"
definition MPENTRY_PADDR :: u32 where "MPENTRY_PADDR = 0x7000"

lemmas pte_bits = PTE_P_def PTE_W_def PTE_U_def PTE_PWT_def PTE_PCD_def PTE_D_def PTE_PS_def
  PTE_AVAIL_def PTE_SYSCALL_def

lemmas layout_defs = PGSIZE_def PTSIZE_def KERNBASE_def IOPHYSMEM_def EXTPHYSMEM_def
  KSTACKTOP_def KSTKSIZE_def KSTKGAP_def MMIOLIM_def MMIOBASE_def ULIM_def UVPT_def UPAGES_def
  UENVS_def UTOP_def UXSTACKTOP_def USTACKTOP_def UTEXT_def UTEMP_def PFTEMP_def
  MPENTRY_PADDR_def

subsection \<open>Splitting linear addresses (inc/mmu.h)\<close>

definition PGNUM :: "u32 \<Rightarrow> nat" where
  "PGNUM la = unat (drop_bit 12 la)"

definition PDX :: "u32 \<Rightarrow> nat" where
  "PDX la = unat (drop_bit 22 la AND 0x3FF)"

definition PTX :: "u32 \<Rightarrow> nat" where
  "PTX la = unat (drop_bit 12 la AND 0x3FF)"

definition PGOFF :: "u32 \<Rightarrow> u32" where
  "PGOFF la = la AND 0xFFF"

definition PGADDR :: "nat \<Rightarrow> nat \<Rightarrow> u32 \<Rightarrow> u32" where
  "PGADDR d t off = (push_bit 22 (of_nat d)) OR (push_bit 12 (of_nat t)) OR off"

definition PTE_ADDR :: "u32 \<Rightarrow> u32" where
  "PTE_ADDR pte = pte AND NOT 0xFFF"

definition PTE_VALID :: "u32 \<Rightarrow> bool" where
  "PTE_VALID pte \<longleftrightarrow> (pte OR PTE_P) = pte"

lemma mask10: "(0x3FF :: u32) = mask 10" by (simp add: mask_eq_exp_minus_1)
lemma mask12: "(0xFFF :: u32) = mask 12" by (simp add: mask_eq_exp_minus_1)

lemma PGNUM_nat: "PGNUM la = unat la div 4096"
  by (simp add: PGNUM_def unat_drop_bit_eq) (simp add: drop_bit_eq_div unat_div)

lemma PDX_nat: "PDX la = unat la div 4194304 mod 1024"
  by (simp add: PDX_def mask10 unsigned_take_bit_eq flip: take_bit_eq_mask)
    (simp add: drop_bit_eq_div take_bit_eq_mod unat_div)

lemma PTX_nat: "PTX la = unat la div 4096 mod 1024"
  by (simp add: PTX_def mask10 unsigned_take_bit_eq flip: take_bit_eq_mask)
    (simp add: drop_bit_eq_div take_bit_eq_mod unat_div)

lemma PDX_small: "PDX la = unat la div 4194304"
proof -
  have "unat la < 2 ^ LENGTH(32)" by (rule unsigned_less)
  then show ?thesis by (simp add: PDX_nat)
qed

lemma PDX_less [simp]: "PDX la < 1024" by (simp add: PDX_nat)
lemma PTX_less [simp]: "PTX la < 1024" by (simp add: PTX_nat)

lemma PGNUM_PDX_PTX: "PGNUM la = 1024 * PDX la + PTX la"
  by (simp add: PGNUM_nat PDX_small PTX_nat div_mult2_eq [of _ 4096 1024, simplified])

lemma PGOFF_nat: "unat (PGOFF la) = unat la mod 4096"
  by (simp add: PGOFF_def mask12 unsigned_take_bit_eq flip: take_bit_eq_mask)
    (simp add: take_bit_eq_mod unat_mod)

lemma PGOFF_less: "unat (PGOFF la) < 4096" by (simp add: PGOFF_nat)

text \<open>Two page-aligned addresses are equal when they select the same table entries.\<close>

lemma va_eqI:
  assumes "PDX a = PDX b" "PTX a = PTX b" "unat a mod 4096 = unat b mod 4096"
  shows "a = b"
proof -
  have "PGNUM a = PGNUM b" using assms by (simp add: PGNUM_PDX_PTX)
  then have "unat a div 4096 = unat b div 4096" by (simp add: PGNUM_nat)
  then have "unat a = unat b" using assms(3) by (metis div_mult_mod_eq)
  then show ?thesis by (simp add: word_unat_eq_iff)
qed

lemma PTE_VALID_bit: "PTE_VALID pte \<longleftrightarrow> bit pte 0"
proof
  assume "PTE_VALID pte"
  then have "bit (pte OR 1) 0 = bit pte 0" by (simp add: PTE_VALID_def PTE_P_def)
  then show "bit pte 0" by (simp add: bit_or_iff)
next
  assume b: "bit pte 0"
  have "pte OR 1 = pte"
    by (rule bit_word_eqI) (use b in \<open>auto simp: bit_or_iff bit_1_iff\<close>)
  then show "PTE_VALID pte" by (simp add: PTE_VALID_def PTE_P_def)
qed

lemma PTE_VALID_and: "PTE_VALID pte \<longleftrightarrow> pte AND PTE_P \<noteq> 0"
  by (auto simp: PTE_VALID_bit PTE_P_def and_one_eq odd_iff_mod_2_eq_one bit_0)

lemma PTE_VALID_0 [simp]: "\<not> PTE_VALID 0" by (simp add: PTE_VALID_bit)

lemma PTE_VALID_or: "PTE_VALID (a OR b) \<longleftrightarrow> PTE_VALID a \<or> PTE_VALID b"
  by (simp add: PTE_VALID_bit bit_or_iff)

lemma PTE_VALID_P [simp]: "PTE_VALID (a OR PTE_P)"
  by (simp add: PTE_VALID_bit PTE_P_def bit_or_iff)

subsection \<open>Physical pages and addresses (kern/pmap.h)\<close>

text \<open>A \<^verbatim>\<open>struct PageInfo *\<close> is its index in \<^verbatim>\<open>pages\<close>: the page number.\<close>

definition page2pa :: "nat \<Rightarrow> u32" where
  "page2pa pp = push_bit 12 (of_nat pp)"

lemma unat_page2pa: "pp < 1048576 \<Longrightarrow> unat (page2pa pp) = 4096 * pp"
  by (simp add: page2pa_def push_bit_eq_mult unat_word_ariths unat_of_nat)

lemma PGNUM_page2pa: "pp < 1048576 \<Longrightarrow> PGNUM (page2pa pp) = pp"
  by (simp add: PGNUM_nat unat_page2pa)

lemma page2pa_inj: "a < 1048576 \<Longrightarrow> b < 1048576 \<Longrightarrow> page2pa a = page2pa b \<longleftrightarrow> a = b"
  by (metis PGNUM_page2pa)

lemma low_bits_page2pa: "n < 12 \<Longrightarrow> \<not> bit (page2pa pp) n"
  by (simp add: page2pa_def bit_push_bit_iff)

lemma bit_0xFFF: "bit (0xFFF :: u32) n \<longleftrightarrow> n < 12"
  by (simp add: mask12 bit_mask_iff) linarith

lemma PTE_ADDR_page2pa_or:
  assumes "perm AND NOT 0xFFF = 0"
  shows "PTE_ADDR (page2pa pp OR perm) = page2pa pp"
proof (rule bit_word_eqI)
  fix n assume n: "n < LENGTH(32)"
  have "\<not> bit (perm AND NOT 0xFFF) n" by (simp only: assms bit_0_eq) simp
  then have "bit perm n \<Longrightarrow> n < 12"
    using n by (auto simp only: bit_and_iff bit_not_iff bit_0xFFF possible_bit_word)
  then show "bit (PTE_ADDR (page2pa pp OR perm)) n = bit (page2pa pp) n"
    using n low_bits_page2pa [of n pp]
    by (auto simp only: PTE_ADDR_def bit_and_iff bit_or_iff bit_not_iff bit_0xFFF possible_bit_word)
qed

end
