(* ===== verification/Contracts.thy ===== *)
theory Contracts
  imports Prelude
begin

text \<open>
  The interfaces several components share: a bounded first-in first-out buffer (the console input
  buffer, pipes) and a pool of objects handed out and taken back (pages, environments). Clients
  rely on the laws only; the theory of each provider interprets the locale on its own operations.
\<close>

subsection \<open>Bounded buffers\<close>

locale fifo =
  fixes ok :: "'s \<Rightarrow> bool"
    and content :: "'s \<Rightarrow> 'a list"
    and cap :: nat
    and put :: "'a \<Rightarrow> 's \<Rightarrow> 's"
    and get :: "'s \<Rightarrow> ('a \<times> 's) option"
  assumes put_ok: "ok s \<Longrightarrow> length (content s) < cap \<Longrightarrow> ok (put x s) \<and> content (put x s) = content s @ [x]"
    and get_empty: "ok s \<Longrightarrow> content s = [] \<Longrightarrow> get s = None"
    and get_cons: "ok s \<Longrightarrow> content s = x # xs \<Longrightarrow> \<exists>s'. get s = Some (x, s') \<and> ok s' \<and> content s' = xs"
begin

lemma puts_ok:
  "ok s \<Longrightarrow> length (content s) + length xs \<le> cap \<Longrightarrow>
     ok (fold put xs s) \<and> content (fold put xs s) = content s @ xs"
proof (induction xs arbitrary: s)
  case Nil
  then show ?case by simp
next
  case (Cons x xs)
  then have "ok (put x s)" "content (put x s) = content s @ [x]" using put_ok [of s x] by auto
  with Cons show ?case by simp
qed

text \<open>Take \<open>n\<close> elements, stopping early when there are none.\<close>

fun gets :: "nat \<Rightarrow> 's \<Rightarrow> 'a list \<times> 's" where
  "gets 0 s = ([], s)"
| "gets (Suc n) s = (case get s of None \<Rightarrow> ([], s)
     | Some (x, s') \<Rightarrow> let (xs, s'') = gets n s' in (x # xs, s''))"

lemma gets_ok:
  "ok s \<Longrightarrow> \<exists>s'. gets n s = (take n (content s), s') \<and> ok s' \<and> content s' = drop n (content s)"
proof (induction n arbitrary: s)
  case 0
  then show ?case by simp
next
  case (Suc n)
  show ?case
  proof (cases "content s")
    case Nil
    with Suc.prems get_empty show ?thesis by simp
  next
    case (Cons x xs)
    then obtain s' where s': "get s = Some (x, s')" "ok s'" "content s' = xs"
      using get_cons [OF Suc.prems] by blast
    with Suc.IH [of s'] Cons show ?thesis by auto
  qed
qed

text \<open>What goes in comes out, in order, whatever was waiting before.\<close>

lemma put_get_roundtrip:
  assumes "ok s" "content s = []" "length xs \<le> cap"
  shows "fst (gets (length xs) (fold put xs s)) = xs"
proof -
  have "ok (fold put xs s)" "content (fold put xs s) = xs"
    using puts_ok [OF assms(1), of xs] assms(2,3) by auto
  then show ?thesis using gets_ok [of "fold put xs s" "length xs"] by auto
qed

end

subsection \<open>Pools\<close>

locale pool =
  fixes free :: "'s \<Rightarrow> 'a list \<Rightarrow> bool"
    and live :: "'s \<Rightarrow> 'a \<Rightarrow> bool"
    and acquire :: "'s \<Rightarrow> ('a option \<times> 's) option"
    and release :: "'a \<Rightarrow> 's \<Rightarrow> (unit \<times> 's) option"
  assumes acquire_none: "free s [] \<Longrightarrow> acquire s = Some (None, s)"
    and acquire_some: "free s (x # xs) \<Longrightarrow> \<exists>s'. acquire s = Some (Some x, s') \<and> free s' xs \<and> live s' x"
    and release_ok: "free s xs \<Longrightarrow> live s x \<Longrightarrow> \<exists>s'. release x s = Some ((), s') \<and> free s' (x # xs)"
begin

text \<open>Acquiring \<open>n\<close> objects hands out the first \<open>n\<close> of the pool, in order, and never one twice.\<close>

fun acquires :: "nat \<Rightarrow> 's \<Rightarrow> ('a list \<times> 's) option" where
  "acquires 0 s = Some ([], s)"
| "acquires (Suc n) s = do {
     (r, s) \<leftarrow> acquire s;
     case r of None \<Rightarrow> Some ([], s)
     | Some x \<Rightarrow> do { (xs, s) \<leftarrow> acquires n s; Some (x # xs, s) }
   }"

lemma acquires_ok:
  "free s xs \<Longrightarrow> \<exists>s'. acquires n s = Some (take n xs, s') \<and> free s' (drop n xs)"
proof (induction n arbitrary: s xs)
  case 0
  then show ?case by simp
next
  case (Suc n)
  show ?case
  proof (cases xs)
    case Nil
    with Suc.prems acquire_none show ?thesis by auto
  next
    case (Cons x ys)
    then obtain s' where "acquire s = Some (Some x, s')" "free s' ys"
      using acquire_some [of s x ys] Suc.prems by blast
    with Suc.IH [of s' ys] Cons show ?thesis by auto
  qed
qed

text \<open>The last object released is the next one acquired.\<close>

lemma release_acquire:
  assumes "free s xs" "live s x"
  shows "\<exists>s' s''. release x s = Some ((), s') \<and> acquire s' = Some (Some x, s'') \<and> free s'' xs"
  using release_ok [OF assms] acquire_some by blast

end

end
