(* ===== verification/Console.thy ===== *)
theory Console
  imports Contracts
begin

text \<open>
  The console of \<^verbatim>\<open>kern/console.c\<close>: serial port, parallel port, text screen and keyboard, and
  the circular input buffer. Bytes waiting at the devices are lists (for the keyboard controller,
  pairs of a status and a data byte), bytes sent to the ports are logs, newest last.
\<close>

subsection \<open>State\<close>

definition CONSBUFSIZE :: u32 where "CONSBUFSIZE = 512"
definition CRT_COLS :: u16 where "CRT_COLS = 80"
definition CRT_SIZE :: u16 where "CRT_SIZE = 2000"

record console =
  com_in :: "u8 list"
  kbd_in :: "(u8 \<times> u8) list"
  serial_exists :: bool
  com_out :: "u8 list"
  lpt_out :: "u8 list"
  crt_buf :: "nat \<Rightarrow> u16"
  crt_pos :: u16
  kbd_shift :: u32
  cons_buf :: "nat \<Rightarrow> u8"
  rpos :: u32
  wpos :: u32
  rebooted :: bool

subsection \<open>Output\<close>

text \<open>The ports are taken to be ready before the bounded wait for them runs out.\<close>

definition serial_putc :: "u32 \<Rightarrow> console \<Rightarrow> console" where
  "serial_putc c s = s\<lparr>com_out := com_out s @ [ucast c]\<rparr>"

definition lpt_putc :: "u32 \<Rightarrow> console \<Rightarrow> console" where
  "lpt_putc c s = s\<lparr>lpt_out := lpt_out s @ [ucast c]\<rparr>"

text \<open>\<^verbatim>\<open>memmove\<close> of all lines but the first to the top, and blanks in the last line.\<close>

definition crt_scroll :: "console \<Rightarrow> console" where
  "crt_scroll s =
     (if crt_pos s \<ge> CRT_SIZE
      then s\<lparr>crt_buf := (\<lambda>i. if i < 1920 then crt_buf s (i + 80) else if i < 2000 then 0x0720 else crt_buf s i),
             crt_pos := crt_pos s - CRT_COLS\<rparr>
      else s)"

definition crt_attr :: "u32 \<Rightarrow> u32" where
  "crt_attr c = (if c AND NOT 0xFF = 0 then c OR 0x0700 else c)"

text \<open>The cases of the switch other than the tab, which goes through \<open>cons_putc\<close>.\<close>

definition cga_char :: "u32 \<Rightarrow> console \<Rightarrow> console" where
  "cga_char c s =
     (let ch = c AND 0xFF in
      if ch = 8 then
        (if crt_pos s > 0
         then s\<lparr>crt_pos := crt_pos s - 1,
                crt_buf := (crt_buf s)(unat (crt_pos s - 1) := ucast ((c AND NOT 0xFF) OR 0x20))\<rparr>
         else s)
      else if ch = 10 then
        (let p = crt_pos s + CRT_COLS in s\<lparr>crt_pos := p - p mod CRT_COLS\<rparr>)
      else if ch = 13 then s\<lparr>crt_pos := crt_pos s - crt_pos s mod CRT_COLS\<rparr>
      else s\<lparr>crt_buf := (crt_buf s)(unat (crt_pos s) := ucast c), crt_pos := crt_pos s + 1\<rparr>)"

function cga_putc :: "u32 \<Rightarrow> console \<Rightarrow> console" and cons_putc :: "u32 \<Rightarrow> console \<Rightarrow> console" where
  "cga_putc c0 s =
     (let c = crt_attr c0 in
      crt_scroll
        (if c AND 0xFF = 9
         then cons_putc 32 (cons_putc 32 (cons_putc 32 (cons_putc 32 (cons_putc 32 s))))
         else cga_char c s))"
| "cons_putc c s = cga_putc c (lpt_putc c (serial_putc c s))"
  by pat_completeness auto
termination
  by (relation "measure (\<lambda>x. case x of Inl (c, _) \<Rightarrow> 2 * (if crt_attr c AND 0xFF = 9 then 1 else 0)
       | Inr (c, _) \<Rightarrow> 2 * (if crt_attr c AND 0xFF = 9 then 1 else 0) + 1)")
    (auto simp: crt_attr_def)

text \<open>A message without directives, as \<^verbatim>\<open>cprintf\<close> prints it.\<close>

definition cons_puts :: "string \<Rightarrow> console \<Rightarrow> console" where
  "cons_puts msg s = fold (\<lambda>ch. cons_putc (of_char ch)) msg s"

text \<open>\<open>crt\<close> is where the screen memory is found, \<open>pos\<close> the cursor the hardware reports.\<close>

definition cga_init :: "(nat \<Rightarrow> u16) \<Rightarrow> u8 \<Rightarrow> u8 \<Rightarrow> console \<Rightarrow> console" where
  "cga_init crt hi lo s = s\<lparr>crt_buf := crt, crt_pos := push_bit 8 (ucast hi) OR ucast lo\<rparr>"

subsection \<open>The input buffer\<close>

text \<open>One character into the buffer, the body of the loop of \<^verbatim>\<open>cons_intr\<close>.\<close>

definition cons_put :: "u8 \<Rightarrow> console \<Rightarrow> console" where
  "cons_put c s =
     (let s = s\<lparr>cons_buf := (cons_buf s)(unat (wpos s) := c), wpos := wpos s + 1\<rparr> in
      if wpos s = CONSBUFSIZE then s\<lparr>wpos := 0\<rparr> else s)"

text \<open>A device returns -1 when it has no data.\<close>

partial_function (option) cons_intr :: "(console \<Rightarrow> int \<times> console) \<Rightarrow> console \<Rightarrow> console option" where
  [code]: "cons_intr proc s =
     (let (c, s) = proc s in
      if c = -1 then Some s
      else if c = 0 then cons_intr proc s
      else cons_intr proc (cons_put (word_of_int c) s))"

definition cons_take :: "console \<Rightarrow> (u8 \<times> console) option" where
  "cons_take s =
     (if rpos s \<noteq> wpos s then
        let c = cons_buf s (unat (rpos s)); s = s\<lparr>rpos := rpos s + 1\<rparr> in
        Some (c, if rpos s = CONSBUFSIZE then s\<lparr>rpos := 0\<rparr> else s)
      else None)"

subsection \<open>Serial input\<close>

definition serial_proc_data :: "console \<Rightarrow> int \<times> console" where
  "serial_proc_data s = (case com_in s of
     [] \<Rightarrow> (-1, s) | c # cs \<Rightarrow> (uint c, s\<lparr>com_in := cs\<rparr>))"

definition serial_intr :: "console \<Rightarrow> console option" where
  "serial_intr s = (if serial_exists s then cons_intr serial_proc_data s else Some s)"

subsection \<open>Keyboard\<close>

definition SHIFT :: u32 where "SHIFT = 1"
definition CTL :: u32 where "CTL = 2"
definition ALT :: u32 where "ALT = 4"
definition CAPSLOCK :: u32 where "CAPSLOCK = 8"
definition NUMLOCK :: u32 where "NUMLOCK = 16"
definition SCROLLLOCK :: u32 where "SCROLLLOCK = 32"
definition E0ESC :: u32 where "E0ESC = 64"

lemmas kbd_flags = SHIFT_def CTL_def ALT_def CAPSLOCK_def NUMLOCK_def SCROLLLOCK_def E0ESC_def

text \<open>A C table of 256 codes: the codes listed from 0 on, then the designated ones, 0 elsewhere.\<close>

definition code_table :: "u8 list \<Rightarrow> (u8 \<times> u8) list \<Rightarrow> u8 \<Rightarrow> u8" where
  "code_table l des k = (case map_of des k of Some v \<Rightarrow> v
     | None \<Rightarrow> if unat k < length l then l ! unat k else 0)"

definition shiftcode :: "u8 \<Rightarrow> u8" where
  "shiftcode = code_table [] [(0x1D, 2), (0x2A, 1), (0x36, 1), (0x38, 4), (0x9D, 2), (0xB8, 4)]"

definition togglecode :: "u8 \<Rightarrow> u8" where
  "togglecode = code_table [] [(0x3A, 8), (0x45, 16), (0x46, 32)]"

definition normalmap :: "u8 \<Rightarrow> u8" where
  "normalmap = code_table
    [0, 27, 49, 50, 51, 52, 53, 54, 55, 56, 57, 48, 45, 61, 8, 9,
     113, 119, 101, 114, 116, 121, 117, 105, 111, 112, 91, 93, 10, 0, 97, 115,
     100, 102, 103, 104, 106, 107, 108, 59, 39, 96, 0, 92, 122, 120, 99, 118,
     98, 110, 109, 44, 46, 47, 0, 42, 0, 32, 0, 0, 0, 0, 0, 0,
     0, 0, 0, 0, 0, 0, 0, 55, 56, 57, 45, 52, 53, 54, 43, 49,
     50, 51, 48, 46, 0, 0, 0, 0]
    [(0xC7, 224), (0x9C, 10), (0xB5, 47), (0xC8, 226), (0xC9, 230), (0xCB, 228), (0xCD, 229), (0xCF, 225), (0xD0, 227), (0xD1, 231), (0xD2, 232), (0xD3, 233)]"

definition shiftmap :: "u8 \<Rightarrow> u8" where
  "shiftmap = code_table
    [0, 27, 33, 64, 35, 36, 37, 94, 38, 42, 40, 41, 95, 43, 8, 9,
     81, 87, 69, 82, 84, 89, 85, 73, 79, 80, 123, 125, 10, 0, 65, 83,
     68, 70, 71, 72, 74, 75, 76, 58, 34, 126, 0, 124, 90, 88, 67, 86,
     66, 78, 77, 60, 62, 63, 0, 42, 0, 32, 0, 0, 0, 0, 0, 0,
     0, 0, 0, 0, 0, 0, 0, 55, 56, 57, 45, 52, 53, 54, 43, 49,
     50, 51, 48, 46, 0, 0, 0, 0]
    [(0xC7, 224), (0x9C, 10), (0xB5, 47), (0xC8, 226), (0xC9, 230), (0xCB, 228), (0xCD, 229), (0xCF, 225), (0xD0, 227), (0xD1, 231), (0xD2, 232), (0xD3, 233)]"

definition ctlmap :: "u8 \<Rightarrow> u8" where
  "ctlmap = code_table
    [0, 0, 0, 0, 0, 0, 0, 0, 0, 0, 0, 0, 0, 0, 0, 0,
     17, 23, 5, 18, 20, 25, 21, 9, 15, 16, 0, 0, 13, 0, 1, 19,
     4, 6, 7, 8, 10, 11, 12, 0, 0, 0, 0, 28, 26, 24, 3, 22,
     2, 14, 13, 0, 0, 239, 0, 0]
    [(0x97, 224), (0xB5, 239), (0xC8, 226), (0xC9, 230), (0xCB, 228), (0xCD, 229), (0xCF, 225), (0xD0, 227), (0xD1, 231), (0xD2, 232), (0xD3, 233)]"

definition charcode :: "u32 \<Rightarrow> u8 \<Rightarrow> u8" where
  "charcode sh = (if sh = 0 then normalmap else if sh = 1 then shiftmap else ctlmap)"

text \<open>A status of 0 means that the controller has no data.\<close>

definition kbd_proc_data :: "console \<Rightarrow> int \<times> console" where
  "kbd_proc_data s =
     (let stat = (case kbd_in s of [] \<Rightarrow> 0 | (st, _) # _ \<Rightarrow> st) in
      if stat AND 0x01 = 0 then (-1, s)
      else if stat AND 0x20 \<noteq> 0 then (-1, s)
      else
        let data = snd (hd (kbd_in s)); s = s\<lparr>kbd_in := tl (kbd_in s)\<rparr>; shift = kbd_shift s in
        if data = 0xE0 then (0, s\<lparr>kbd_shift := shift OR E0ESC\<rparr>)
        else if data AND 0x80 \<noteq> 0 then
          let data = (if shift AND E0ESC \<noteq> 0 then data else data AND 0x7F) in
          (0, s\<lparr>kbd_shift := shift AND NOT (ucast (shiftcode data) OR E0ESC)\<rparr>)
        else
          let (data, shift) = (if shift AND E0ESC \<noteq> 0 then (data OR 0x80, shift AND NOT E0ESC) else (data, shift));
              shift = shift OR ucast (shiftcode data);
              shift = shift XOR ucast (togglecode data);
              c = uint (charcode (shift AND (CTL OR SHIFT)) data);
              c = (if shift AND CAPSLOCK \<noteq> 0 then
                     if 97 \<le> c \<and> c \<le> 122 then c + (65 - 97)
                     else if 65 \<le> c \<and> c \<le> 90 then c + (97 - 65) else c
                   else c);
              s = s\<lparr>kbd_shift := shift\<rparr>;
              s = (if NOT shift AND (CTL OR ALT) = 0 \<and> c = 0xE9
                   then (cons_puts (''Rebooting!'' @ [CHR 0x0A]) s)\<lparr>rebooted := True\<rparr> else s)
          in (c, s))"

definition kbd_intr :: "console \<Rightarrow> console option" where
  "kbd_intr s = cons_intr kbd_proc_data s"

definition cons_getc :: "console \<Rightarrow> (u32 \<times> console) option" where
  "cons_getc s = do {
     s \<leftarrow> serial_intr s;
     s \<leftarrow> kbd_intr s;
     Some (case cons_take s of Some (c, s) \<Rightarrow> (ucast c, s) | None \<Rightarrow> (0, s))
   }"

text \<open>\<open>lsr\<close> is the line status byte; the last two reads discard what was pending.\<close>

definition serial_init :: "u8 \<Rightarrow> console \<Rightarrow> console" where
  "serial_init lsr s = s\<lparr>serial_exists := (lsr \<noteq> 0xFF), com_in := tl (com_in s)\<rparr>"

definition cons_init :: "(nat \<Rightarrow> u16) \<Rightarrow> u8 \<Rightarrow> u8 \<Rightarrow> u8 \<Rightarrow> console \<Rightarrow> console option" where
  "cons_init crt hi lo lsr s = do {
     let s = cga_init crt hi lo s;
     s \<leftarrow> kbd_intr s;
     let s = serial_init lsr s;
     Some (if \<not> serial_exists s then cons_puts (''Serial port does not exist!'' @ [CHR 0x0A]) s else s)
   }"

definition iscons :: "u32 \<Rightarrow> u32" where
  "iscons fdnum = 1"

text \<open>\<open>None\<close> is also the value of waiting forever for a key.\<close>

partial_function (option) getchar :: "console \<Rightarrow> (u32 \<times> console) option" where
  [code]: "getchar s = do {
     (c, s) \<leftarrow> cons_getc s;
     if c = 0 then getchar s else Some (c, s)
   }"


subsection \<open>The input buffer is a queue\<close>

definition ring_ok :: "console \<Rightarrow> bool" where
  "ring_ok s \<longleftrightarrow> rpos s < CONSBUFSIZE \<and> wpos s < CONSBUFSIZE"

definition waiting :: "console \<Rightarrow> nat" where
  "waiting s = (unat (wpos s) + 512 - unat (rpos s)) mod 512"

definition content :: "console \<Rightarrow> u8 list" where
  "content s = map (\<lambda>i. cons_buf s ((unat (rpos s) + i) mod 512)) [0..<waiting s]"

lemma length_content [simp]: "length (content s) = waiting s"
  by (simp add: content_def)

lemma ring_ok_nat: "ring_ok s \<longleftrightarrow> unat (rpos s) < 512 \<and> unat (wpos s) < 512"
  by (simp add: ring_ok_def CONSBUFSIZE_def word_less_nat_alt)

lemma unat_next:
  "unat (w :: u32) < 512 \<Longrightarrow> unat (if w + 1 = CONSBUFSIZE then 0 else w + 1) = (unat w + 1) mod 512"
proof -
  assume w: "unat w < 512"
  then have s: "unat (w + 1) = unat w + 1" by (simp add: unat_word_ariths)
  have "w + 1 = CONSBUFSIZE \<longleftrightarrow> unat w + 1 = 512"
    unfolding word_unat_eq_iff s by (simp add: CONSBUFSIZE_def)
  then show ?thesis using w s by auto
qed

lemma cons_put_sel:
  "cons_buf (cons_put c s) = (cons_buf s)(unat (wpos s) := c)" "rpos (cons_put c s) = rpos s"
  "wpos (cons_put c s) = (if wpos s + 1 = CONSBUFSIZE then 0 else wpos s + 1)"
  "com_in (cons_put c s) = com_in s" "kbd_in (cons_put c s) = kbd_in s"
  "kbd_shift (cons_put c s) = kbd_shift s" "serial_exists (cons_put c s) = serial_exists s"
  by (simp_all add: cons_put_def Let_def)

lemma waiting_alt: "ring_ok s \<Longrightarrow> waiting s =
    (if unat (rpos s) \<le> unat (wpos s) then unat (wpos s) - unat (rpos s) else unat (wpos s) + 512 - unat (rpos s))"
  by (auto simp: waiting_def ring_ok_nat mod_if)

lemma ring_put:
  assumes ok: "ring_ok s" and room: "waiting s < 511"
  shows "ring_ok (cons_put c s)" "content (cons_put c s) = content s @ [c]"
proof -
  let ?r = "unat (rpos s)" and ?w = "unat (wpos s)" and ?t = "cons_put c s"
  have rw: "?r < 512" "?w < 512" using ok by (auto simp: ring_ok_nat)
  have w': "unat (wpos ?t) = (?w + 1) mod 512" "rpos ?t = rpos s"
    by (simp_all only: cons_put_sel unat_next [OF rw(2)])
  show ok': "ring_ok ?t" using rw by (simp add: ring_ok_nat w')
  have n: "waiting ?t = Suc (waiting s)"
    using rw room unfolding waiting_alt [OF ok'] waiting_alt [OF ok] w' by (auto simp: mod_if split: if_splits)
  have last: "(?r + waiting s) mod 512 = ?w"
    using rw unfolding waiting_alt [OF ok] by (auto simp: mod_if)
  have other: "(?r + i) mod 512 \<noteq> ?w" if "i < waiting s" for i
    using that rw room unfolding waiting_alt [OF ok] by (auto simp: mod_if split: if_splits)
  show "content ?t = content s @ [c]"
    unfolding content_def n using last other by (simp add: cons_put_sel)
qed

lemma ring_take:
  assumes ok: "ring_ok s"
  shows "content s = [] \<Longrightarrow> cons_take s = None"
    and "content s = x # xs \<Longrightarrow> \<exists>s'. cons_take s = Some (x, s') \<and> ring_ok s' \<and> content s' = xs"
proof -
  let ?r = "unat (rpos s)" and ?w = "unat (wpos s)"
  have rw: "?r < 512" "?w < 512" using ok by (auto simp: ring_ok_nat)
  have e: "waiting s = 0 \<longleftrightarrow> rpos s = wpos s"
    using rw unfolding waiting_alt [OF ok] word_unat_eq_iff by auto
  show "cons_take s = None" if "content s = []"
    using that e by (simp add: content_def cons_take_def)
  show "\<exists>s'. cons_take s = Some (x, s') \<and> ring_ok s' \<and> content s' = xs" if x: "content s = x # xs"
  proof -
    have pos: "waiting s \<noteq> 0" using x by (metis length_content list.size(3) list.distinct(1) length_0_conv)
    define t where "t = (let s = s\<lparr>rpos := rpos s + 1\<rparr> in if rpos s = CONSBUFSIZE then s\<lparr>rpos := 0\<rparr> else s)"
    have take: "cons_take s = Some (cons_buf s ?r, t)"
      using pos e by (simp add: cons_take_def t_def Let_def)
    have sel: "rpos t = (if rpos s + 1 = CONSBUFSIZE then 0 else rpos s + 1)" "wpos t = wpos s" "cons_buf t = cons_buf s"
      by (simp_all add: t_def Let_def)
    have r': "unat (rpos t) = (?r + 1) mod 512" by (simp only: sel unat_next [OF rw(1)])
    have ok': "ring_ok t" unfolding ring_ok_nat r' sel(2) using rw by simp
    have n: "waiting s = Suc (waiting t)"
      using rw pos unfolding waiting_alt [OF ok'] waiting_alt [OF ok] r' sel(2) by (auto simp: mod_if split: if_splits)
    have "content s = cons_buf s (?r mod 512) # content t"
      unfolding content_def n by (simp add: upt_conv_Cons map_Suc_upt [symmetric] o_def r' sel(2,3) mod_simps del: upt_Suc)
    with x take ok' rw(1) show ?thesis by auto
  qed
qed

interpretation cons_q: fifo ring_ok content 511 cons_put cons_take
  by unfold_locales (use ring_put ring_take in auto)


subsection \<open>Interrupts feed the queue\<close>

lemma cons_intr_serial:
  "ring_ok s \<Longrightarrow> waiting s + length (filter (\<lambda>c. c \<noteq> 0) (com_in s)) \<le> 511 \<Longrightarrow>
     \<exists>s'. cons_intr serial_proc_data s = Some s' \<and> ring_ok s' \<and> com_in s' = [] \<and>
       content s' = content s @ filter (\<lambda>c. c \<noteq> 0) (com_in s) \<and> kbd_in s' = kbd_in s \<and>
       serial_exists s' = serial_exists s"
proof (induction "com_in s" arbitrary: s)
  case Nil
  then show ?case by (subst cons_intr.simps) (simp add: serial_proc_data_def)
next
  case (Cons c cs)
  let ?s = "s\<lparr>com_in := cs\<rparr>"
  have same: "ring_ok ?s = ring_ok s" "waiting ?s = waiting s" "content ?s = content s"
    by (simp_all add: ring_ok_def waiting_def content_def)
  have c: "com_in s = c # cs" using Cons.hyps(2) by simp
  have z: "uint c = 0 \<longleftrightarrow> c = 0" by (simp add: uint_0_iff)
  have p: "uint c \<noteq> -1" using uint_ge_0 [of c] by linarith
  show ?case
  proof (cases "c = 0")
    case True
    have "\<exists>s'. cons_intr serial_proc_data ?s = Some s' \<and> ring_ok s' \<and> com_in s' = [] \<and>
       content s' = content ?s @ filter (\<lambda>c. c \<noteq> 0) (com_in ?s) \<and> kbd_in s' = kbd_in ?s \<and>
       serial_exists s' = serial_exists ?s"
      by (rule Cons.hyps(1)) (use Cons.prems True c same in auto)
    then show ?thesis
      using True c same by (subst cons_intr.simps) (simp add: serial_proc_data_def)
  next
    case False
    let ?t = "cons_put c ?s"
    have room: "waiting ?s < 511" using Cons.prems(2) c False same by simp
    have t: "ring_ok ?t" "content ?t = content ?s @ [c]"
      using ring_put [of ?s c] Cons.prems(1) room same by auto
    then have len: "waiting ?t = Suc (waiting s)"
      using same by (metis length_content length_append_singleton)
    have "\<exists>s'. cons_intr serial_proc_data ?t = Some s' \<and> ring_ok s' \<and> com_in s' = [] \<and>
       content s' = content ?t @ filter (\<lambda>c. c \<noteq> 0) (com_in ?t) \<and> kbd_in s' = kbd_in ?t \<and>
       serial_exists s' = serial_exists ?t"
      by (rule Cons.hyps(1)) (use Cons.prems False c t len in \<open>auto simp: cons_put_sel\<close>)
    then show ?thesis
      using False c same t p z by (subst cons_intr.simps) (auto simp: serial_proc_data_def cons_put_sel)
  qed
qed

lemma kbd_intr_idle: "kbd_in s = [] \<Longrightarrow> kbd_intr s = Some s"
  unfolding kbd_intr_def by (subst cons_intr.simps) (simp add: kbd_proc_data_def)

text \<open>C27: With an idle keyboard and room in the buffer, \<open>cons_getc\<close> returns after draining the serial
  port: it gives the oldest character not yet read, or 0 when there is none, and what remains to
  be read is the rest of the old characters followed by the new ones in order of arrival (null
  bytes dropped).\<close>

theorem cons_getc_spec:
  assumes ok: "ring_ok s" and kb: "kbd_in s = []" and se: "serial_exists s"
    and room: "waiting s + length (filter (\<lambda>c. c \<noteq> 0) (com_in s)) \<le> 511"
  shows "\<exists>s'. ring_ok s' \<and> com_in s' = [] \<and>
    (case content s @ filter (\<lambda>c. c \<noteq> 0) (com_in s) of
       [] \<Rightarrow> cons_getc s = Some (0, s') \<and> content s' = []
     | x # xs \<Rightarrow> cons_getc s = Some (ucast x, s') \<and> content s' = xs)"
proof -
  obtain s1 where s1: "cons_intr serial_proc_data s = Some s1" "ring_ok s1" "com_in s1 = []"
    "content s1 = content s @ filter (\<lambda>c. c \<noteq> 0) (com_in s)" "kbd_in s1 = []"
    using cons_intr_serial [OF ok room] kb by auto
  have g: "cons_getc s = Some (case cons_take s1 of Some (c, s) \<Rightarrow> (ucast c, s) | None \<Rightarrow> (0, s1))"
    using s1 se by (simp add: cons_getc_def serial_intr_def kbd_intr_idle)
  show ?thesis
  proof (cases "content s1")
    case Nil
    then have ys: "content s @ filter (\<lambda>c. c \<noteq> 0) (com_in s) = []" using s1(4) by simp
    show ?thesis
      using g s1(2,3) Nil ring_take(1) [OF s1(2) Nil] unfolding ys by (intro exI [of _ s1]) simp
  next
    case (Cons x xs)
    then have ys: "content s @ filter (\<lambda>c. c \<noteq> 0) (com_in s) = x # xs" using s1(4) by simp
    from Cons obtain s2 where s2: "cons_take s1 = Some (x, s2)" "ring_ok s2" "content s2 = xs"
      using ring_take(2) [OF s1(2)] by blast
    moreover have "com_in s2 = com_in s1"
      using s2(1) by (auto simp: cons_take_def Let_def split: if_splits)
    ultimately show ?thesis using g s1(3) unfolding ys by (intro exI [of _ s2]) simp
  qed
qed

text \<open>C30: The buffer holds at most 511 characters: one more character, put while no one reads, makes
  the write position catch up with the read position, and all 512 characters are lost.\<close>

theorem cons_overflow:
  assumes "ring_ok s" "waiting s = 511"
  shows "content (cons_put c s) = [] \<and> ring_ok (cons_put c s)"
proof -
  have w: "unat (wpos s) < 512" using assms(1) by (simp add: ring_ok_nat)
  have sel: "unat (wpos (cons_put c s)) = (unat (wpos s) + 1) mod 512" "rpos (cons_put c s) = rpos s"
    by (simp_all only: cons_put_sel unat_next [OF w])
  then have ok: "ring_ok (cons_put c s)" using assms(1) by (simp add: ring_ok_nat)
  have "unat (rpos s) = (unat (wpos s) + 1) mod 512"
    using assms w unfolding waiting_alt [OF assms(1)] ring_ok_nat by (auto simp: mod_if split: if_splits)
  then have "waiting (cons_put c s) = 0" by (simp add: waiting_def sel)
  with ok show ?thesis by (simp add: content_def)
qed

text \<open>C14: Characters that fit in an empty buffer are read back in the order in which they were put.\<close>

theorem cons_buffer_fifo:
  assumes "ring_ok s" "content s = []" "length xs \<le> 511"
  shows "fst (cons_q.gets (length xs) (fold cons_put xs s)) = xs"
  using assms by (rule cons_q.put_get_roundtrip)

subsection \<open>The screen\<close>

lemma crt_scroll_bounds:
  "unat (crt_pos s) < 2080 \<Longrightarrow> unat (crt_pos (crt_scroll s)) < 2000 \<and>
     (\<forall>i \<ge> 2000. crt_buf (crt_scroll s) i = crt_buf s i)"
  by (auto simp: crt_scroll_def CRT_SIZE_def CRT_COLS_def word_le_nat_alt unat_sub)

lemma cga_char_bounds:
  assumes "unat (crt_pos s) < 2000"
  shows "unat (crt_pos (cga_char c s)) < 2080 \<and> (\<forall>i \<ge> 2000. crt_buf (cga_char c s) i = crt_buf s i)"
proof -
  have p: "unat (crt_pos s + 80) = unat (crt_pos s) + 80" "unat (crt_pos s + 1) = unat (crt_pos s) + 1"
    using assms by (simp_all add: unat_word_ariths)
  have m: "unat (x - x mod 80) \<le> unat x" for x :: u16
    by (subst unat_sub) (auto simp: unat_mod word_le_nat_alt)
  have "unat (crt_pos s - 1) < 2000" if "crt_pos s > 0"
    using that assms by (simp add: unat_minus_one word_gt_0)
  with p m [of "crt_pos s"] m [of "crt_pos s + 80"] assms show ?thesis
    by (auto simp: cga_char_def Let_def CRT_COLS_def)
qed

text \<open>Whatever is printed, tabs and escapes included, the cursor stays on the 80 by 25 screen and
  nothing is written outside the screen memory.\<close>

theorem cga_putc_bounds:
  assumes "unat (crt_pos s) < 2000"
  shows "unat (crt_pos (cons_putc c s)) < 2000 \<and> (\<forall>i \<ge> 2000. crt_buf (cons_putc c s) i = crt_buf s i)"
proof -
  let ?P = "\<lambda>s t. unat (crt_pos s) < 2000 \<longrightarrow> unat (crt_pos t) < 2000 \<and> (\<forall>i \<ge> 2000. crt_buf t i = crt_buf s i)"
  have plain: "?P s (cga_putc c s)" if "crt_attr c AND 0xFF \<noteq> 9" for c s
    using that cga_char_bounds [of s "crt_attr c"] crt_scroll_bounds [of "cga_char (crt_attr c) s"]
    by (auto simp: Let_def simp del: cga_putc.simps simp add: cga_putc.simps [of c])
  have put: "?P s (cons_putc c s)" if "\<And>s. ?P s (cga_putc c s)" for c s
    using that [of "lpt_putc c (serial_putc c s)"]
    by (simp add: cons_putc.simps lpt_putc_def serial_putc_def del: cga_putc.simps)
  have space: "?P s (cons_putc 32 s)" for s
    by (rule put, rule plain) (simp add: crt_attr_def)
  have all: "?P s (cga_putc c s)" for c s
  proof (cases "crt_attr c AND 0xFF = 9")
    case True
    let ?t = "cons_putc 32 (cons_putc 32 (cons_putc 32 (cons_putc 32 (cons_putc 32 s))))"
    have "?P s ?t"
      using space [of s] space [of "cons_putc 32 s"] space [of "cons_putc 32 (cons_putc 32 s)"]
        space [of "cons_putc 32 (cons_putc 32 (cons_putc 32 s))"]
        space [of "cons_putc 32 (cons_putc 32 (cons_putc 32 (cons_putc 32 s)))"]
      by (simp del: cons_putc.simps cga_putc.simps)
    moreover have "cga_putc c s = crt_scroll ?t"
      using True by (simp add: cga_putc.simps [of c s] Let_def del: cons_putc.simps cga_putc.simps)
    ultimately show ?thesis using crt_scroll_bounds [of ?t] by auto
  next
    case False
    then show ?thesis by (rule plain)
  qed
  from put [OF all, of s c] assms show ?thesis by blast
qed

text \<open>A console with two bytes at the serial port and one character in the buffer.\<close>

definition small_console :: console where
  "small_console = \<lparr>com_in = [0, 66], kbd_in = [], serial_exists = True, com_out = [], lpt_out = [],
     crt_buf = (\<lambda>_. 0), crt_pos = 1999, kbd_shift = 0, cons_buf = (\<lambda>_. 65), rpos = 511, wpos = 0, rebooted = False\<rparr>"

lemma small_console_ring: "ring_ok small_console" "waiting small_console = 1" "content small_console = [65]"
  by (simp_all add: small_console_def ring_ok_def waiting_def content_def CONSBUFSIZE_def)

theorem cons_getc_spec_witness:
  "\<exists>s'. cons_getc small_console = Some (65, s') \<and> content s' = [66]"
  using cons_getc_spec [OF small_console_ring(1)] small_console_ring(2,3)
  by (auto simp: small_console_def)

theorem cons_overflow_witness:
  "content (cons_put 66 (small_console\<lparr>rpos := 1\<rparr>)) = []"
  using cons_overflow [of "small_console\<lparr>rpos := 1\<rparr>" 66]
  by (simp add: small_console_def ring_ok_def waiting_def CONSBUFSIZE_def)

theorem cons_buffer_fifo_witness:
  "fst (cons_q.gets 2 (fold cons_put [1, 2] (small_console\<lparr>rpos := 0\<rparr>))) = [1, 2]"
proof -
  have "ring_ok (small_console\<lparr>rpos := 0\<rparr>)" "content (small_console\<lparr>rpos := 0\<rparr>) = []"
    by (simp_all add: small_console_def ring_ok_def content_def waiting_def CONSBUFSIZE_def)
  from cons_buffer_fifo [OF this, of "[1, 2]"] show ?thesis
    by (simp add: numeral_2_eq_2 del: cons_q.gets.simps)
qed

theorem cga_putc_bounds_witness:
  "unat (crt_pos (cons_putc 10 small_console)) < 2000"
  using cga_putc_bounds [of small_console 10] by (simp add: small_console_def)

end
