(* ===== verification/KState.thy ===== *)
theory KState
  imports Mmu Console
begin

text \<open>
  The global state of the kernel: the arrays and variables that \<^verbatim>\<open>kern/pmap.c\<close>,
  \<^verbatim>\<open>kern/env.c\<close>, \<^verbatim>\<open>kern/sched.c\<close> and \<^verbatim>\<open>kern/syscall.c\<close> share.
  Pointers into \<^verbatim>\<open>pages\<close> and \<^verbatim>\<open>envs\<close> are indices, a pointer to a page-aligned
  kernel address \<open>KERNBASE + 4096 * f\<close> is the frame number \<open>f\<close>, and a pointer to a page
  table entry is a frame and an index. \<open>phys s f i\<close> is the \<open>i\<close>-th 32-bit word of the
  physical frame \<open>f\<close>: page directories and page tables live there, as in the machine.
\<close>

subsection \<open>Error numbers (inc/error.h)\<close>

datatype err = E_UNSPECIFIED | E_BAD_ENV | E_INVAL | E_NO_MEM | E_NO_FREE_ENV | E_FAULT
  | E_IPC_NOT_RECV | E_EOF | E_NO_DISK | E_MAX_OPEN | E_NOT_FOUND | E_BAD_PATH
  | E_FILE_EXISTS | E_NOT_EXEC | E_NOT_SUPP

fun errno :: "err \<Rightarrow> u32" where
  "errno E_UNSPECIFIED = 1"
| "errno E_BAD_ENV = 2"
| "errno E_INVAL = 3"
| "errno E_NO_MEM = 4"
| "errno E_NO_FREE_ENV = 5"
| "errno E_FAULT = 6"
| "errno E_IPC_NOT_RECV = 7"
| "errno E_EOF = 8"
| "errno E_NO_DISK = 9"
| "errno E_MAX_OPEN = 10"
| "errno E_NOT_FOUND = 11"
| "errno E_BAD_PATH = 12"
| "errno E_FILE_EXISTS = 13"
| "errno E_NOT_EXEC = 14"
| "errno E_NOT_SUPP = 15"

subsection \<open>Saved registers (inc/trap.h)\<close>

record PushRegs =
  reg_edi :: u32
  reg_esi :: u32
  reg_ebp :: u32
  reg_oesp :: u32
  reg_ebx :: u32
  reg_edx :: u32
  reg_ecx :: u32
  reg_eax :: u32

record Trapframe =
  tf_regs :: PushRegs
  tf_es :: u16
  tf_ds :: u16
  tf_trapno :: u32
  tf_err :: u32
  tf_eip :: u32
  tf_cs :: u16
  tf_eflags :: u32
  tf_esp :: u32
  tf_ss :: u16

definition zero_regs :: PushRegs where
  "zero_regs = \<lparr>reg_edi = 0, reg_esi = 0, reg_ebp = 0, reg_oesp = 0, reg_ebx = 0,
     reg_edx = 0, reg_ecx = 0, reg_eax = 0\<rparr>"

definition zero_tf :: Trapframe where
  "zero_tf = \<lparr>tf_regs = zero_regs, tf_es = 0, tf_ds = 0, tf_trapno = 0, tf_err = 0,
     tf_eip = 0, tf_cs = 0, tf_eflags = 0, tf_esp = 0, tf_ss = 0\<rparr>"

subsection \<open>Environments (inc/env.h)\<close>

type_synonym envid_t = u32

definition NENV :: nat where "NENV = 1024"

definition ENVX :: "envid_t \<Rightarrow> nat" where
  "ENVX envid = unat (envid AND (of_nat NENV - 1))"

datatype env_status = ENV_FREE | ENV_DYING | ENV_RUNNABLE | ENV_RUNNING | ENV_NOT_RUNNABLE

datatype env_type = ENV_TYPE_USER | ENV_TYPE_FS

record Env =
  env_tf :: Trapframe
  env_link :: "nat option"
  env_id :: envid_t
  env_parent_id :: envid_t
  env_type :: env_type
  env_status :: env_status
  env_runs :: u32
  env_cpunum :: nat
  env_pgdir :: "nat option"
  env_pgfault_upcall :: u32
  env_ipc_recving :: bool
  env_ipc_dstva :: u32
  env_ipc_value :: u32
  env_ipc_from :: envid_t
  env_ipc_perm :: u32

subsection \<open>CPUs (kern/cpu.h) and pages (inc/memlayout.h)\<close>

definition NCPU :: nat where "NCPU = 8"

datatype cpu_status = CPU_UNUSED | CPU_STARTED | CPU_HALTED

record CpuInfo =
  cpu_status :: cpu_status
  cpu_env :: "nat option"
  cpu_cr3 :: u32

record PageInfo =
  pp_link :: "nat option"
  pp_ref :: u16

record kstate =
  npages :: nat
  npages_basemem :: nat
  pages :: "nat \<Rightarrow> PageInfo"
  page_free_list :: "nat option"
  phys :: "nat \<Rightarrow> nat \<Rightarrow> u32"
  nextfree :: u32
  kern_pgdir :: nat
  mmio_base :: u32
  user_mem_check_addr :: u32
  envs :: "nat \<Rightarrow> Env"
  env_free_list :: "nat option"
  cpus :: "nat \<Rightarrow> CpuInfo"
  invlpg_log :: "u32 list"
  klock :: "nat option"
  kcons :: console

text \<open>A kernel function returns \<open>None\<close> when the kernel panics (or faults).\<close>

type_synonym 'a kres = "('a \<times> kstate) option"

subsection \<open>Single-field updates\<close>

definition upd_page :: "nat \<Rightarrow> (PageInfo \<Rightarrow> PageInfo) \<Rightarrow> kstate \<Rightarrow> kstate" where
  "upd_page pp f s = s\<lparr>pages := (pages s)(pp := f (pages s pp))\<rparr>"

definition upd_env :: "nat \<Rightarrow> (Env \<Rightarrow> Env) \<Rightarrow> kstate \<Rightarrow> kstate" where
  "upd_env e f s = s\<lparr>envs := (envs s)(e := f (envs s e))\<rparr>"

definition upd_cpu :: "nat \<Rightarrow> (CpuInfo \<Rightarrow> CpuInfo) \<Rightarrow> kstate \<Rightarrow> kstate" where
  "upd_cpu c f s = s\<lparr>cpus := (cpus s)(c := f (cpus s c))\<rparr>"

definition set_word :: "nat \<Rightarrow> nat \<Rightarrow> u32 \<Rightarrow> kstate \<Rightarrow> kstate" where
  "set_word f i v s = s\<lparr>phys := (phys s)(f := (phys s f)(i := v))\<rparr>"

lemma upd_page_sel [simp]:
  "npages (upd_page p f s) = npages s"
  "npages_basemem (upd_page p f s) = npages_basemem s"
  "pages (upd_page p f s) = (pages s)(p := f (pages s p))"
  "page_free_list (upd_page p f s) = page_free_list s"
  "phys (upd_page p f s) = phys s"
  "nextfree (upd_page p f s) = nextfree s"
  "kern_pgdir (upd_page p f s) = kern_pgdir s"
  "mmio_base (upd_page p f s) = mmio_base s"
  "envs (upd_page p f s) = envs s"
  "env_free_list (upd_page p f s) = env_free_list s"
  "cpus (upd_page p f s) = cpus s"
  "invlpg_log (upd_page p f s) = invlpg_log s"
  "user_mem_check_addr (upd_page p f s) = user_mem_check_addr s"
  "klock (upd_page p f s) = klock s"
  "kcons (upd_page p f s) = kcons s"
  by (simp_all add: upd_page_def)

lemma upd_env_sel [simp]:
  "npages (upd_env p g s) = npages s"
  "npages_basemem (upd_env p g s) = npages_basemem s"
  "pages (upd_env p g s) = pages s"
  "page_free_list (upd_env p g s) = page_free_list s"
  "phys (upd_env p g s) = phys s"
  "nextfree (upd_env p g s) = nextfree s"
  "kern_pgdir (upd_env p g s) = kern_pgdir s"
  "mmio_base (upd_env p g s) = mmio_base s"
  "envs (upd_env p g s) = (envs s)(p := g (envs s p))"
  "env_free_list (upd_env p g s) = env_free_list s"
  "cpus (upd_env p g s) = cpus s"
  "invlpg_log (upd_env p g s) = invlpg_log s"
  "user_mem_check_addr (upd_env p g s) = user_mem_check_addr s"
  "klock (upd_env p g s) = klock s"
  "kcons (upd_env p g s) = kcons s"
  by (simp_all add: upd_env_def)

lemma upd_cpu_sel [simp]:
  "npages (upd_cpu c h s) = npages s"
  "npages_basemem (upd_cpu c h s) = npages_basemem s"
  "pages (upd_cpu c h s) = pages s"
  "page_free_list (upd_cpu c h s) = page_free_list s"
  "phys (upd_cpu c h s) = phys s"
  "nextfree (upd_cpu c h s) = nextfree s"
  "kern_pgdir (upd_cpu c h s) = kern_pgdir s"
  "mmio_base (upd_cpu c h s) = mmio_base s"
  "envs (upd_cpu c h s) = envs s"
  "env_free_list (upd_cpu c h s) = env_free_list s"
  "cpus (upd_cpu c h s) = (cpus s)(c := h (cpus s c))"
  "invlpg_log (upd_cpu c h s) = invlpg_log s"
  "user_mem_check_addr (upd_cpu c h s) = user_mem_check_addr s"
  "klock (upd_cpu c h s) = klock s"
  "kcons (upd_cpu c h s) = kcons s"
  by (simp_all add: upd_cpu_def)

lemma set_word_sel [simp]:
  "npages (set_word f i v s) = npages s"
  "npages_basemem (set_word f i v s) = npages_basemem s"
  "pages (set_word f i v s) = pages s"
  "page_free_list (set_word f i v s) = page_free_list s"
  "phys (set_word f i v s) = (phys s)(f := (phys s f)(i := v))"
  "nextfree (set_word f i v s) = nextfree s"
  "kern_pgdir (set_word f i v s) = kern_pgdir s"
  "mmio_base (set_word f i v s) = mmio_base s"
  "envs (set_word f i v s) = envs s"
  "env_free_list (set_word f i v s) = env_free_list s"
  "cpus (set_word f i v s) = cpus s"
  "invlpg_log (set_word f i v s) = invlpg_log s"
  "user_mem_check_addr (set_word f i v s) = user_mem_check_addr s"
  "klock (set_word f i v s) = klock s"
  "kcons (set_word f i v s) = kcons s"
  by (simp_all add: set_word_def)

subsection \<open>The boot state of the variables\<close>

definition zero_env :: Env where
  "zero_env = \<lparr>env_tf = zero_tf, env_link = None, env_id = 0, env_parent_id = 0,
     env_type = ENV_TYPE_USER, env_status = ENV_FREE, env_runs = 0, env_cpunum = 0,
     env_pgdir = None, env_pgfault_upcall = 0, env_ipc_recving = False, env_ipc_dstva = 0,
     env_ipc_value = 0, env_ipc_from = 0, env_ipc_perm = 0\<rparr>"

definition zero_page :: PageInfo where
  "zero_page = \<lparr>pp_link = None, pp_ref = 0\<rparr>"

definition zero_console :: console where
  "zero_console = \<lparr>com_in = [], kbd_in = [], serial_exists = False, com_out = [], lpt_out = [],
     crt_buf = (\<lambda>_. 0), crt_pos = 0, kbd_shift = 0, cons_buf = (\<lambda>_. 0), rpos = 0, wpos = 0, rebooted = False\<rparr>"

definition zero_state :: kstate where
  "zero_state = \<lparr>npages = 0, npages_basemem = 0, pages = (\<lambda>_. zero_page),
     page_free_list = None, phys = (\<lambda>_ _. 0), nextfree = 0, kern_pgdir = 0,
     mmio_base = MMIOBASE, user_mem_check_addr = 0, envs = (\<lambda>_. zero_env),
     env_free_list = None,
     cpus = (\<lambda>_. \<lparr>cpu_status = CPU_UNUSED, cpu_env = None, cpu_cr3 = 0\<rparr>), invlpg_log = [],
     klock = None, kcons = zero_console\<rparr>"

text \<open>The environment that CPU \<open>c\<close> runs, \<^verbatim>\<open>curenv\<close> of \<^verbatim>\<open>kern/env.h\<close>.\<close>

definition curenv :: "nat \<Rightarrow> kstate \<Rightarrow> nat option" where
  "curenv c s = cpu_env (cpus s c)"

end
