(* ===== verification/PageAlloc.thy ===== *)
theory PageAlloc
  imports KState
begin

text \<open>
  The physical page allocator of \<^verbatim>\<open>kern/pmap.c\<close>: the boot-time bump allocator
  \<open>boot_alloc\<close>, \<open>page_init\<close>, and the reference-counted free list with \<open>page_alloc\<close>,
  \<open>page_free\<close> and \<open>page_decref\<close>.
\<close>

subsection \<open>Kernel addresses (kern/pmap.h)\<close>

definition PADDR :: "u32 \<Rightarrow> u32 option" where
  "PADDR kva = (if kva < KERNBASE then None else Some (kva - KERNBASE))"

text \<open>On a page-aligned address; the kernel pointer it gives is the frame.\<close>

definition KADDR :: "u32 \<Rightarrow> kstate \<Rightarrow> nat option" where
  "KADDR pa s = (if npages s \<le> PGNUM pa then None else Some (PGNUM pa))"

definition pa2page :: "u32 \<Rightarrow> kstate \<Rightarrow> nat option" where
  "pa2page pa s = (if npages s \<le> PGNUM pa then None else Some (PGNUM pa))"

definition page2kva :: "nat \<Rightarrow> kstate \<Rightarrow> nat option" where
  "page2kva pp s = KADDR (page2pa pp) s"

subsection \<open>Detecting the memory\<close>

text \<open>\<open>rd r\<close> is the byte the real-time clock returns for register \<open>r\<close> (a device read).\<close>

definition NVRAM_BASELO :: u32 where "NVRAM_BASELO = 0xe + 7"
definition NVRAM_EXTLO :: u32 where "NVRAM_EXTLO = 0xe + 9"
definition NVRAM_EXT16LO :: u32 where "NVRAM_EXT16LO = 0xe + 38"

definition nvram_read :: "(u32 \<Rightarrow> u8) \<Rightarrow> u32 \<Rightarrow> u32" where
  "nvram_read rd r = ucast (rd r) OR push_bit 8 (ucast (rd (r + 1)))"

definition i386_detect_memory :: "(u32 \<Rightarrow> u8) \<Rightarrow> kstate \<Rightarrow> kstate" where
  "i386_detect_memory rd s =
     (let basemem = nvram_read rd NVRAM_BASELO;
          extmem = nvram_read rd NVRAM_EXTLO;
          ext16mem = nvram_read rd NVRAM_EXT16LO * 64;
          totalmem = (if ext16mem \<noteq> 0 then 16 * 1024 + ext16mem
                      else if extmem \<noteq> 0 then 1 * 1024 + extmem
                      else basemem)
      in s\<lparr>npages := unat (totalmem div (PGSIZE div 1024)),
           npages_basemem := unat (basemem div (PGSIZE div 1024))\<rparr>)"

subsection \<open>The boot allocator\<close>

text \<open>\<open>kend\<close> is the linker's symbol \<^verbatim>\<open>end\<close>, the end of the kernel image.\<close>

definition boot_alloc :: "u32 \<Rightarrow> u32 \<Rightarrow> kstate \<Rightarrow> u32 kres" where
  "boot_alloc kend n s =
     (let s = (if nextfree s = 0 then s\<lparr>nextfree := ROUNDUP kend PGSIZE\<rparr> else s) in
      if n = 0 then Some (nextfree s, s)
      else do {
        pa \<leftarrow> PADDR (nextfree s);
        if ROUNDUP n PGSIZE + pa > of_nat (npages s) * PGSIZE then None
        else Some (nextfree s, s\<lparr>nextfree := nextfree s + ROUNDUP n PGSIZE\<rparr>)
      })"

definition incluir_en_paginas_libres :: "u32 \<Rightarrow> nat \<Rightarrow> kstate \<Rightarrow> bool kres" where
  "incluir_en_paginas_libres kend page s =
     (let paddr = page2pa page in
      if paddr = 0 then Some (False, s)
      else if paddr \<ge> IOPHYSMEM then do {
        (kva, s) \<leftarrow> boot_alloc kend 0 s;
        lim \<leftarrow> PADDR kva;
        if paddr < lim then Some (False, s)
        else if paddr = MPENTRY_PADDR then Some (False, s)
        else Some (True, s)
      }
      else if paddr = MPENTRY_PADDR then Some (False, s)
      else Some (True, s))"

text \<open>The loop of \<open>page_init\<close>, over the page numbers that remain.\<close>

fun page_init_loop :: "u32 \<Rightarrow> nat list \<Rightarrow> kstate \<Rightarrow> unit kres" where
  "page_init_loop kend [] s = Some ((), s)"
| "page_init_loop kend (i # is) s = do {
     (free, s) \<leftarrow> incluir_en_paginas_libres kend i s;
     let s = (if free
              then (upd_page i (\<lambda>p. p\<lparr>pp_link := page_free_list s\<rparr>) s)\<lparr>page_free_list := Some i\<rparr>
              else s);
     page_init_loop kend is s
   }"

definition page_init :: "u32 \<Rightarrow> kstate \<Rightarrow> unit kres" where
  "page_init kend s = page_init_loop kend [1..<npages s] s"

subsection \<open>Allocating and freeing pages\<close>

definition ALLOC_ZERO :: u32 where "ALLOC_ZERO = 1"

text \<open>\<^verbatim>\<open>memset(kva, 0, PGSIZE)\<close> on the frame \<open>f\<close>.\<close>

definition zero_frame :: "nat \<Rightarrow> kstate \<Rightarrow> kstate" where
  "zero_frame f s = s\<lparr>phys := (phys s)(f := (\<lambda>_. 0))\<rparr>"

definition page_alloc :: "u32 \<Rightarrow> kstate \<Rightarrow> (nat option) kres" where
  "page_alloc alloc_flags s =
     (case page_free_list s of
        None \<Rightarrow> Some (None, s)
      | Some page \<Rightarrow>
          let s = s\<lparr>page_free_list := pp_link (pages s page)\<rparr>;
              s = upd_page page (\<lambda>p. p\<lparr>pp_link := None\<rparr>) s
          in if alloc_flags AND ALLOC_ZERO \<noteq> 0
             then do { kva \<leftarrow> page2kva page s; Some (Some page, zero_frame kva s) }
             else Some (Some page, s))"

definition page_free :: "nat \<Rightarrow> kstate \<Rightarrow> unit kres" where
  "page_free pp s =
     (if pp_ref (pages s pp) \<noteq> 0 then None
      else if pp_link (pages s pp) \<noteq> None then None
      else Some ((), (upd_page pp (\<lambda>p. p\<lparr>pp_link := page_free_list s\<rparr>) s)
                       \<lparr>page_free_list := Some pp\<rparr>))"

definition page_decref :: "nat \<Rightarrow> kstate \<Rightarrow> unit kres" where
  "page_decref pp s =
     (let s = upd_page pp (\<lambda>p. p\<lparr>pp_ref := pp_ref p - 1\<rparr>) s in
      if pp_ref (pages s pp) = 0 then page_free pp s else Some ((), s))"

subsection \<open>The free list as a list of pages\<close>

definition free_list :: "kstate \<Rightarrow> nat list \<Rightarrow> bool" where
  "free_list s xs \<longleftrightarrow> linked (\<lambda>p. pp_link (pages s p)) (page_free_list s) xs"

text \<open>
  The allocator's invariant: the free list is a proper list of unreferenced pages of the
  machine, and no page outside it has a link.
\<close>

definition alloc_inv :: "kstate \<Rightarrow> nat list \<Rightarrow> bool" where
  "alloc_inv s xs \<longleftrightarrow> npages s \<le> 1048576 \<and> free_list s xs \<and>
     (\<forall>p \<in> set xs. p < npages s \<and> pp_ref (pages s p) = 0) \<and>
     (\<forall>p. p \<notin> set xs \<longrightarrow> pp_link (pages s p) = None)"

lemma alloc_inv_distinct: "alloc_inv s xs \<Longrightarrow> distinct xs"
  by (auto simp: alloc_inv_def free_list_def dest: linked_distinct)

lemma KADDR_page2pa: "pp < npages s \<Longrightarrow> npages s \<le> 1048576 \<Longrightarrow> KADDR (page2pa pp) s = Some pp"
  by (simp add: KADDR_def PGNUM_page2pa)

lemma page2kva_Some: "pp < npages s \<Longrightarrow> npages s \<le> 1048576 \<Longrightarrow> page2kva pp s = Some pp"
  by (simp add: page2kva_def KADDR_page2pa)

lemma zero_frame_sel [simp]:
  "npages (zero_frame f s) = npages s"
  "pages (zero_frame f s) = pages s"
  "page_free_list (zero_frame f s) = page_free_list s"
  "phys (zero_frame f s) = (phys s)(f := (\<lambda>_. 0))"
  "kern_pgdir (zero_frame f s) = kern_pgdir s"
  "envs (zero_frame f s) = envs s"
  "klock (zero_frame f s) = klock s"
  "env_free_list (zero_frame f s) = env_free_list s"
  "cpus (zero_frame f s) = cpus s"
  "invlpg_log (zero_frame f s) = invlpg_log s"
  by (simp_all add: zero_frame_def)

lemma page_alloc_None: "page_free_list s = None \<Longrightarrow> page_alloc fl s = Some (None, s)"
  by (simp add: page_alloc_def)

lemma page_alloc_Nil: "alloc_inv s [] \<Longrightarrow> page_alloc fl s = Some (None, s)"
  by (simp add: page_alloc_None alloc_inv_def free_list_def)

text \<open>Allocation from a non-empty free list.\<close>

definition take_page :: "u32 \<Rightarrow> nat \<Rightarrow> kstate \<Rightarrow> kstate" where
  "take_page fl p s =
     (let s1 = upd_page p (\<lambda>q. q\<lparr>pp_link := None\<rparr>) (s\<lparr>page_free_list := pp_link (pages s p)\<rparr>)
      in if fl AND ALLOC_ZERO \<noteq> 0 then zero_frame p s1 else s1)"

lemma take_page_sel [simp]:
  "npages (take_page fl p s) = npages s"
  "pages (take_page fl p s) = (pages s)(p := (pages s p)\<lparr>pp_link := None\<rparr>)"
  "page_free_list (take_page fl p s) = pp_link (pages s p)"
  "phys (take_page fl p s)
     = (if fl AND ALLOC_ZERO \<noteq> 0 then (phys s)(p := (\<lambda>_. 0)) else phys s)"
  "kern_pgdir (take_page fl p s) = kern_pgdir s"
  "envs (take_page fl p s) = envs s"
  "env_free_list (take_page fl p s) = env_free_list s"
  "cpus (take_page fl p s) = cpus s"
  "invlpg_log (take_page fl p s) = invlpg_log s"
  "klock (take_page fl p s) = klock s"
  by (simp_all add: take_page_def Let_def)

lemma page_alloc_Cons:
  assumes "alloc_inv s (p # ps)"
  shows "page_alloc fl s = Some (Some p, take_page fl p s)"
proof -
  have "page_free_list s = Some p" "p < npages s" "npages s \<le> 1048576"
    using assms by (auto simp: alloc_inv_def free_list_def)
  then show ?thesis
    by (simp add: page_alloc_def take_page_def Let_def page2kva_Some)
qed

lemma take_page_inv:
  assumes "alloc_inv s (p # ps)"
  shows "alloc_inv (take_page fl p s) ps"
  using assms alloc_inv_distinct [OF assms]
  by (auto simp: alloc_inv_def free_list_def)

lemma page_free_inv:
  assumes "alloc_inv s xs" "p \<notin> set xs" "p < npages s" "pp_ref (pages s p) = 0"
  shows "\<exists>s'. page_free p s = Some ((), s') \<and> alloc_inv s' (p # xs) \<and> phys s' = phys s
    \<and> (\<forall>q. pp_ref (pages s' q) = pp_ref (pages s q))"
  using assms by (auto simp: page_free_def alloc_inv_def free_list_def)

subsection \<open>What each operation promises\<close>

lemma page_free_twice:
  assumes "alloc_inv s xs" "p \<in> set xs" "p \<noteq> last xs"
  shows "page_free p s = None"
  using assms linked_last_link [of "\<lambda>p. pp_link (pages s p)" "page_free_list s" xs p]
  by (auto simp: page_free_def alloc_inv_def free_list_def)

lemma linked_through:
  assumes "linked nx p (xs @ [y])" "\<And>x. x \<in> set xs \<Longrightarrow> nx' x = nx x" "linked nx' p zs"
  shows "\<exists>us. zs = xs @ y # us"
  using assms
proof (induction xs arbitrary: p zs)
  case Nil
  then show ?case by (auto simp: linked_Some)
next
  case (Cons x xs)
  from Cons.prems obtain vs where zs: "zs = x # vs" and l: "linked nx' (nx' x) vs"
    by (auto simp: linked_Some)
  have "linked nx' (nx x) vs" using l Cons.prems(2) [of x] by simp
  with Cons.IH [of "nx x" vs] Cons.prems obtain us where "vs = xs @ y # us" by auto
  with zs show ?case by simp
qed

text \<open>Freeing the last page of the free list again goes unnoticed and closes a cycle.\<close>

lemma page_free_last_cycle:
  assumes inv: "alloc_inv s xs" and ne: "xs \<noteq> []"
  shows "\<exists>s'. page_free (last xs) s = Some ((), s') \<and> (\<forall>ys. \<not> free_list s' ys)"
proof -
  let ?p = "last xs" and ?nx = "\<lambda>p. pp_link (pages s p)"
  have l: "linked ?nx (page_free_list s) xs" and p: "?p \<in> set xs"
    using inv ne by (auto simp: alloc_inv_def free_list_def)
  then have "?nx ?p = None" using linked_last_link [OF l p] by simp
  then obtain s' where s': "page_free ?p s = Some ((), s')"
    and nx': "(\<lambda>q. pp_link (pages s' q)) = ?nx(?p := page_free_list s)"
    and hd': "page_free_list s' = Some ?p"
    using inv p by (auto simp: page_free_def alloc_inv_def fun_eq_iff)
  have "\<not> free_list s' ys" for ys
  proof
    assume "free_list s' ys"
    then have ly: "linked (?nx(?p := page_free_list s)) (Some ?p) ys"
      by (simp add: free_list_def nx' hd')
    then obtain zs where ys: "ys = ?p # zs"
      and lz: "linked (?nx(?p := page_free_list s)) (page_free_list s) zs"
      by (auto simp: linked_Some)
    have xs: "xs = butlast xs @ [?p]" using ne by simp
    have "?p \<notin> set (butlast xs)"
      using linked_distinct [OF l] xs by (metis distinct_append distinct.simps(2) disjoint_iff list.set_intros(1))
    then have "\<exists>us. zs = butlast xs @ ?p # us"
      using l xs lz by (intro linked_through [of ?nx "page_free_list s" "butlast xs" ?p]) auto
    then have "\<not> distinct ys" using ys by auto
    with linked_distinct [OF ly] show False by simp
  qed
  with s' show ?thesis by blast
qed

subsection \<open>The pages that page_init puts on the free list\<close>

definition page_ok :: "kstate \<Rightarrow> nat \<Rightarrow> bool" where
  "page_ok s i \<longleftrightarrow> page2pa i \<noteq> 0 \<and> page2pa i \<noteq> MPENTRY_PADDR \<and>
     \<not> (IOPHYSMEM \<le> page2pa i \<and> page2pa i < nextfree s - KERNBASE)"

lemma boot_alloc_0: "nextfree s \<noteq> 0 \<Longrightarrow> boot_alloc kend 0 s = Some (nextfree s, s)"
  by (simp add: boot_alloc_def)

lemma incluir_page_ok:
  assumes "KERNBASE \<le> nextfree s"
  shows "incluir_en_paginas_libres kend i s = Some (page_ok s i, s)"
proof -
  have "nextfree s \<noteq> 0" using assms by (auto simp: KERNBASE_def)
  moreover have "PADDR (nextfree s) = Some (nextfree s - KERNBASE)"
    using assms by (simp add: PADDR_def linorder_not_less [symmetric])
  ultimately show ?thesis
    by (auto simp: incluir_en_paginas_libres_def boot_alloc_0 page_ok_def Let_def)
qed

lemma page_init_loop_inv:
  assumes "alloc_inv s xs" "KERNBASE \<le> nextfree s" "distinct is" "set is \<inter> set xs = {}"
    "\<forall>i \<in> set is. i < npages s \<and> pp_ref (pages s i) = 0"
  shows "\<exists>s'. page_init_loop kend is s = Some ((), s')
    \<and> alloc_inv s' (rev (filter (page_ok s) is) @ xs)
    \<and> (\<forall>q. pp_ref (pages s' q) = pp_ref (pages s q)) \<and> phys s' = phys s \<and> npages s' = npages s"
  using assms
proof (induction "is" arbitrary: s xs)
  case Nil
  then show ?case by simp
next
  case (Cons i "is")
  note inc = incluir_page_ok [OF Cons.prems(2), of kend i]
  show ?case
  proof (cases "page_ok s i")
    case False
    with Cons.IH [OF Cons.prems(1,2)] Cons.prems inc show ?thesis by simp
  next
    case True
    let ?s = "(upd_page i (\<lambda>p. p\<lparr>pp_link := page_free_list s\<rparr>) s)\<lparr>page_free_list := Some i\<rparr>"
    have ok: "page_ok ?s = page_ok s" by (simp add: page_ok_def fun_eq_iff)
    have "alloc_inv ?s (i # xs)"
      using Cons.prems by (auto simp: alloc_inv_def free_list_def)
    moreover have "\<forall>j \<in> set is. j < npages ?s \<and> pp_ref (pages ?s j) = 0"
      and "set is \<inter> set (i # xs) = {}" and "distinct is" and "KERNBASE \<le> nextfree ?s"
      using Cons.prems by auto
    ultimately have "\<exists>s'. page_init_loop kend is ?s = Some ((), s')
      \<and> alloc_inv s' (rev (filter (page_ok ?s) is) @ i # xs)
      \<and> (\<forall>q. pp_ref (pages s' q) = pp_ref (pages ?s q)) \<and> phys s' = phys ?s \<and> npages s' = npages ?s"
      by (intro Cons.IH)
    then show ?thesis using True inc unfolding ok by (auto split: if_splits)
  qed
qed


subsection \<open>The kernel's own self-test of the allocator\<close>

text \<open>\<open>assert_ok b\<close> panics when the assertion \<open>b\<close> fails.\<close>

definition assert_ok :: "bool \<Rightarrow> unit option" where
  "assert_ok b = (if b then Some () else None)"

definition alloc_or_panic :: "u32 \<Rightarrow> kstate \<Rightarrow> nat kres" where
  "alloc_or_panic fl s =
     (case page_alloc fl s of Some (Some p, s') \<Rightarrow> Some (p, s') | _ \<Rightarrow> None)"

definition fill_frame :: "nat \<Rightarrow> u32 \<Rightarrow> kstate \<Rightarrow> kstate" where
  "fill_frame f v s = s\<lparr>phys := (phys s)(f := (\<lambda>_. v))\<rparr>"

text \<open>
  \<open>nfree\<close>, the length of the free list before and after, is counted by \<open>count_list\<close> with
  fuel, because a corrupted list may be cyclic.
\<close>

fun count_free :: "nat \<Rightarrow> kstate \<Rightarrow> nat option \<Rightarrow> nat option" where
  "count_free fuel s None = Some 0"
| "count_free 0 s (Some p) = None"
| "count_free (Suc fuel) s (Some p) = map_option Suc (count_free fuel s (pp_link (pages s p)))"

definition check_page_alloc :: "nat \<Rightarrow> kstate \<Rightarrow> unit kres" where
  "check_page_alloc fuel s = do {
     nfree \<leftarrow> count_free fuel s (page_free_list s);
     (pp0, s) \<leftarrow> alloc_or_panic 0 s;
     (pp1, s) \<leftarrow> alloc_or_panic 0 s;
     (pp2, s) \<leftarrow> alloc_or_panic 0 s;
     _ \<leftarrow> assert_ok (pp1 \<noteq> pp0);
     _ \<leftarrow> assert_ok (pp2 \<noteq> pp1 \<and> pp2 \<noteq> pp0);
     _ \<leftarrow> assert_ok (page2pa pp0 < of_nat (npages s) * PGSIZE);
     _ \<leftarrow> assert_ok (page2pa pp1 < of_nat (npages s) * PGSIZE);
     _ \<leftarrow> assert_ok (page2pa pp2 < of_nat (npages s) * PGSIZE);
     let fl = page_free_list s;
     let s = s\<lparr>page_free_list := None\<rparr>;
     (r, s) \<leftarrow> page_alloc 0 s;
     _ \<leftarrow> assert_ok (r = None);
     (_, s) \<leftarrow> page_free pp0 s;
     (_, s) \<leftarrow> page_free pp1 s;
     (_, s) \<leftarrow> page_free pp2 s;
     (pp0, s) \<leftarrow> alloc_or_panic 0 s;
     (pp1, s) \<leftarrow> alloc_or_panic 0 s;
     (pp2, s) \<leftarrow> alloc_or_panic 0 s;
     _ \<leftarrow> assert_ok (pp1 \<noteq> pp0);
     _ \<leftarrow> assert_ok (pp2 \<noteq> pp1 \<and> pp2 \<noteq> pp0);
     (r, s) \<leftarrow> page_alloc 0 s;
     _ \<leftarrow> assert_ok (r = None);
     kva \<leftarrow> page2kva pp0 s;
     let s = fill_frame kva 0x01010101 s;
     (_, s) \<leftarrow> page_free pp0 s;
     (pp, s) \<leftarrow> alloc_or_panic ALLOC_ZERO s;
     _ \<leftarrow> assert_ok (pp0 = pp);
     c \<leftarrow> page2kva pp s;
     _ \<leftarrow> assert_ok (\<forall>i < NPTENTRIES. phys s c i = 0);
     let s = s\<lparr>page_free_list := fl\<rparr>;
     (_, s) \<leftarrow> page_free pp0 s;
     (_, s) \<leftarrow> page_free pp1 s;
     (_, s) \<leftarrow> page_free pp2 s;
     nfree' \<leftarrow> count_free fuel s (page_free_list s);
     _ \<leftarrow> assert_ok (nfree' = nfree);
     Some ((), s)
   }"

lemma count_free_linked:
  "linked (\<lambda>p. pp_link (pages s p)) q xs \<Longrightarrow> length xs \<le> fuel \<Longrightarrow>
     count_free fuel s q = Some (length xs)"
proof (induction xs arbitrary: q fuel)
  case Nil
  then show ?case by simp
next
  case (Cons x xs)
  then obtain fu where "fuel = Suc fu" by (cases fuel) auto
  with Cons show ?case by simp
qed

lemma page2pa_less:
  assumes "p < npages s" "npages s < 1048576"
  shows "page2pa p < of_nat (npages s) * PGSIZE"
proof -
  have "unat (of_nat (npages s) * PGSIZE) = 4096 * npages s"
    using assms by (simp add: PGSIZE_def unat_word_ariths unat_of_nat)
  with assms show ?thesis by (simp add: word_less_nat_alt unat_page2pa)
qed

text \<open>Three pages \<open>a\<close>, \<open>b\<close>, \<open>c\<close> with the given links, and the head of the free list.\<close>

definition three :: "kstate \<Rightarrow> nat \<Rightarrow> nat \<Rightarrow> nat \<Rightarrow> nat option \<Rightarrow> nat option \<Rightarrow> nat option \<Rightarrow>
    nat option \<Rightarrow> (nat \<Rightarrow> nat \<Rightarrow> u32) \<Rightarrow> kstate" where
  "three s a b c x y z l ph = s\<lparr>page_free_list := l, phys := ph, pages := (pages s)
     (a := \<lparr>pp_link = x, pp_ref = 0\<rparr>, b := \<lparr>pp_link = y, pp_ref = 0\<rparr>, c := \<lparr>pp_link = z, pp_ref = 0\<rparr>)\<rparr>"

lemma three_alloc:
  assumes "a \<noteq> b" "a \<noteq> c" "b \<noteq> c"
  shows "alloc_or_panic 0 (three s a b c x y z (Some a) ph) = Some (a, three s a b c None y z x ph)"
    and "alloc_or_panic 0 (three s a b c x y z (Some b) ph) = Some (b, three s a b c x None z y ph)"
    and "alloc_or_panic 0 (three s a b c x y z (Some c) ph) = Some (c, three s a b c x y None z ph)"
  using assms
  by (auto simp: alloc_or_panic_def page_alloc_def three_def upd_page_def Let_def fun_eq_iff)

lemma three_free:
  assumes "a \<noteq> b" "a \<noteq> c" "b \<noteq> c"
  shows "page_free a (three s a b c None y z l ph) = Some ((), three s a b c l y z (Some a) ph)"
    and "page_free b (three s a b c x None z l ph) = Some ((), three s a b c x l z (Some b) ph)"
    and "page_free c (three s a b c x y None l ph) = Some ((), three s a b c x y l (Some c) ph)"
  using assms by (auto simp: page_free_def three_def upd_page_def fun_eq_iff)

text \<open>The kernel's self-test \<open>check_page_alloc\<close> never panics on a well-formed free
  list of at least three pages: it allocates three distinct pages, steals the rest of the list,
  observes that allocation then fails, frees and re-allocates, checks that \<open>ALLOC_ZERO\<close> clears
  a dirtied page, and gives back exactly the free list and reference counts it started with,
  having changed the contents of at most one free page.\<close>

theorem check_page_alloc_ok:
  assumes inv: "alloc_inv s (a # b # c # xs)" and np: "npages s < 1048576"
    and fuel: "length xs + 3 \<le> fuel"
  shows "\<exists>s'. check_page_alloc fuel s = Some ((), s') \<and> pages s' = pages s \<and>
    page_free_list s' = page_free_list s \<and> (\<forall>f. f \<noteq> c \<longrightarrow> phys s' f = phys s f)"
proof -
  have d: "a \<noteq> b" "a \<noteq> c" "b \<noteq> c" using alloc_inv_distinct [OF inv] by auto
  let ?l = "pp_link (pages s c)" and ?S = "three s a b c"
  have lt: "a < npages s" "b < npages s" "c < npages s"
    and SS: "?S (Some b) (Some c) ?l (Some a) ph = s\<lparr>phys := ph\<rparr>" for ph
    using inv d
    by (auto simp: alloc_inv_def free_list_def three_def fun_eq_iff intro!: kstate.equality PageInfo.equality)
  have S [simp]: "npages (?S x y z l ph) = npages s" "page_free_list (?S x y z l ph) = l"
    "phys (?S x y z l ph) = ph" "(?S x y z l ph)\<lparr>page_free_list := l'\<rparr> = ?S x y z l' ph"
    "fill_frame f v (?S x y z l ph) = ?S x y z l (ph(f := (\<lambda>_. v)))"
    for x y z l l' ph f v by (simp_all add: three_def fill_frame_def)
  have zero: "alloc_or_panic ALLOC_ZERO (?S x y z (Some c) ph)
      = Some (c, ?S x y None z (ph(c := (\<lambda>_. 0))))" for x y z ph
    using d lt np by (auto simp: alloc_or_panic_def page_alloc_def three_def upd_page_def Let_def
      ALLOC_ZERO_def page2kva_Some zero_frame_def fun_eq_iff)
  have none: "page_alloc 0 (?S x y z None ph) = Some (None, ?S x y z None ph)" for x y z ph
    by (simp add: page_alloc_def)
  have cf: "count_free fuel (s\<lparr>phys := ph\<rparr>) (Some a) = Some (length xs + 3)" for ph
    using inv fuel count_free_linked [of "s\<lparr>phys := ph\<rparr>" "Some a" "a # b # c # xs" fuel]
    by (auto simp: alloc_inv_def free_list_def)
  have pa: "page2pa p < of_nat (npages s) * PGSIZE" if "p \<in> {a, b, c}" for p
    using lt np that by (auto intro: page2pa_less)
  have kva: "page2kva c (?S x y z l ph) = Some c" for x y z l ph
    using lt np by (simp add: page2kva_Some)
  have "check_page_alloc fuel (?S (Some b) (Some c) ?l (Some a) (phys s))
     = Some ((), ?S (Some b) (Some c) ?l (Some a) ((phys s)(c := (\<lambda>_. 0))))"
    using d by (simp add: check_page_alloc_def assert_ok_def three_alloc [OF d] three_free [OF d]
      zero none pa kva cf [folded SS])
  then have "check_page_alloc fuel s = Some ((), s\<lparr>phys := (phys s)(c := (\<lambda>_. 0))\<rparr>)"
    unfolding SS by simp
  then show ?thesis by auto
qed

subsection \<open>Properties of the allocator\<close>

text \<open>C23: On a well-formed free list, \<open>page_alloc\<close> returns null exactly when the list is
  empty and otherwise its first page, removes just that page, leaves every reference count as it
  was, clears the page when \<open>ALLOC_ZERO\<close> is set and writes no other physical frame.\<close>

theorem page_alloc_spec:
  assumes "alloc_inv s xs"
  shows "\<exists>s'. page_alloc fl s = Some (case xs of [] \<Rightarrow> None | p # _ \<Rightarrow> Some p, s')
    \<and> alloc_inv s' (tl xs) \<and> (xs = [] \<longrightarrow> s' = s)
    \<and> (\<forall>q. pp_ref (pages s' q) = pp_ref (pages s q))
    \<and> (\<forall>p. xs \<noteq> [] \<and> p = hd xs \<and> fl AND ALLOC_ZERO \<noteq> 0 \<longrightarrow> phys s' p = (\<lambda>_. 0))
    \<and> (\<forall>f. f \<notin> set (take 1 xs) \<longrightarrow> phys s' f = phys s f)"
  using assms page_alloc_Nil [of s fl]
  by (cases xs) (auto simp: page_alloc_Cons take_page_inv)

text \<open>C24: \<open>page_free\<close> of an unreferenced page that is not free puts it at the head of the
  free list; freeing a page twice panics, except for the page at the tail of the list, whose
  null link makes the double free pass unnoticed and leaves a cyclic list that no walk leaves.\<close>

theorem page_free_spec:
  assumes "alloc_inv s xs" "p < npages s" "pp_ref (pages s p) = 0"
  shows "(p \<notin> set xs \<longrightarrow> (\<exists>s'. page_free p s = Some ((), s') \<and> alloc_inv s' (p # xs)))
    \<and> (p \<in> set xs \<and> p \<noteq> last xs \<longrightarrow> page_free p s = None)
    \<and> (xs \<noteq> [] \<and> p = last xs \<longrightarrow>
         (\<exists>s'. page_free p s = Some ((), s') \<and> (\<forall>ys. \<not> free_list s' ys)))"
  using page_free_inv [OF assms(1) _ assms(2,3)] page_free_twice [OF assms(1)]
    page_free_last_cycle [OF assms(1)] by blast

text \<open>C25: Starting from an empty list and zeroed page structures, \<open>page_init\<close> never panics
  and leaves on the free list, highest first, exactly the pages other than page 0, the page at
  \<open>MPENTRY_PADDR\<close> and the pages between \<open>IOPHYSMEM\<close> and the end of the boot allocations; it
  touches no physical memory.\<close>

theorem page_init_spec:
  assumes "npages s \<le> 1048576" "page_free_list s = None" "\<forall>p. pages s p = zero_page"
    "KERNBASE \<le> nextfree s"
  shows "\<exists>s'. page_init kend s = Some ((), s') \<and> phys s' = phys s
    \<and> alloc_inv s' (rev (filter (page_ok s) [1..<npages s]))"
proof -
  have "alloc_inv s []" using assms by (simp add: alloc_inv_def free_list_def zero_page_def)
  moreover have "\<forall>i \<in> set [1..<npages s]. i < npages s \<and> pp_ref (pages s i) = 0"
    using assms(3) by (simp add: zero_page_def)
  ultimately show ?thesis
    using page_init_loop_inv [of s "[]" "[1..<npages s]" kend] assms(4)
    by (auto simp: page_init_def)
qed

definition small_machine :: kstate where
  "small_machine = zero_state\<lparr>npages := 260, nextfree := 0xF0101000\<rparr>"

lemma page_ok_small: "page_ok small_machine 1" "page_ok small_machine 257"
    "\<not> page_ok small_machine 256" "\<not> page_ok small_machine 7"
  by (simp_all add: page_ok_def page2pa_def small_machine_def layout_defs push_bit_eq_mult)

theorem page_init_spec_witness:
  "\<exists>s'. page_init 0 small_machine = Some ((), s') \<and> phys s' = phys small_machine
    \<and> alloc_inv s' (rev (filter (page_ok small_machine) [1..<260]))"
  using page_init_spec [of small_machine 0]
  by (simp add: small_machine_def zero_state_def layout_defs)

text \<open>A machine with four pages, three of them free.\<close>

definition small_pool :: kstate where
  "small_pool = zero_state\<lparr>npages := 4, page_free_list := Some 1, pages := (\<lambda>_. zero_page)
     (1 := \<lparr>pp_link = Some 2, pp_ref = 0\<rparr>, 2 := \<lparr>pp_link = Some 3, pp_ref = 0\<rparr>)\<rparr>"

lemma small_pool_inv: "alloc_inv small_pool [1, 2, 3]"
  by (auto simp: alloc_inv_def free_list_def small_pool_def zero_state_def zero_page_def)

theorem page_alloc_spec_witness:
  "\<exists>s'. page_alloc ALLOC_ZERO small_pool = Some (Some 1, s') \<and> alloc_inv s' [2, 3]"
  using page_alloc_spec [OF small_pool_inv, of ALLOC_ZERO] by auto

theorem page_free_spec_witness:
  "page_free 1 small_pool = None \<and>
   (\<exists>s'. page_free 3 small_pool = Some ((), s') \<and> (\<forall>ys. \<not> free_list s' ys))"
  using page_free_spec [OF small_pool_inv, of 1] page_free_spec [OF small_pool_inv, of 3]
  by (simp add: small_pool_def zero_page_def zero_state_def)

theorem check_page_alloc_ok_witness:
  "\<exists>s'. check_page_alloc 3 small_pool = Some ((), s') \<and> pages s' = pages small_pool"
  using check_page_alloc_ok [OF small_pool_inv, of 3]
  by (auto simp: small_pool_def zero_state_def)

text \<open>While the boot allocator's next free address is a page-aligned kernel address and
  the machine has at most 256 MiB, \<open>boot_alloc\<close> of \<open>n\<close> bytes returns the old next free address
  and advances it by \<open>n\<close> rounded up to a page when that fits below the end of physical memory,
  and panics otherwise; the address stays page-aligned and within the machine.\<close>

theorem boot_alloc_spec:
  assumes nf: "KERNBASE \<le> nextfree s" "unat (nextfree s) mod 4096 = 0"
    and np: "npages s \<le> 65536" and n: "0 < n" "n \<le> 0x10000000"
  defines "used \<equiv> unat (nextfree s) - unat KERNBASE" and "sz \<equiv> 4096 * ((unat n + 4095) div 4096)"
  shows "boot_alloc kend n s =
      (if used + sz \<le> 4096 * npages s
       then Some (nextfree s, s\<lparr>nextfree := nextfree s + of_nat sz\<rparr>) else None)
    \<and> (used + sz \<le> 4096 * npages s \<and> npages s < 65536 \<longrightarrow>
        unat (nextfree s + of_nat sz) = unat (nextfree s) + sz
        \<and> unat (nextfree s + of_nat sz) mod 4096 = 0)"
proof -
  have n': "unat n \<le> 0x10000000" "unat n > 0" using n
    by (simp_all add: word_le_nat_alt word_less_nat_alt)
  have sz: "unat (ROUNDUP n PGSIZE) = sz"
    unfolding sz_def PGSIZE_def using n' by (subst unat_ROUNDUP) auto
  then have R: "ROUNDUP n PGSIZE = of_nat sz" by (metis of_nat_unat ucast_id)
  have szb: "sz \<le> 0x10000000 + 4095" unfolding sz_def using n' by linarith
  have KB: "unat KERNBASE = 0xF0000000" by (simp add: KERNBASE_def)
  have nfb: "0xF0000000 \<le> unat (nextfree s)" using nf(1) by (simp add: word_le_nat_alt KB)
  have nfl: "unat (nextfree s) < 2 ^ LENGTH(32)" by (rule unsigned_less)
  have pa: "PADDR (nextfree s) = Some (of_nat used)"
    using nf(1) nfb unfolding PADDR_def used_def
    by (auto simp: KERNBASE_def of_nat_diff not_less)
  have ub: "used < 0x10000000" using nfl unfolding used_def KB by simp
  have lim: "unat (of_nat (npages s) * PGSIZE) = 4096 * npages s"
    using np by (simp add: PGSIZE_def unat_word_ariths unat_of_nat)
  have sum: "unat (of_nat sz + of_nat used :: u32) = sz + used"
    using szb ub by (simp add: unat_word_ariths unat_of_nat)
  have nz: "nextfree s \<noteq> 0" using nfb by auto
  have "boot_alloc kend n s = (if used + sz \<le> 4096 * npages s
       then Some (nextfree s, s\<lparr>nextfree := nextfree s + of_nat sz\<rparr>) else None)"
    using nz n by (auto simp: boot_alloc_def Let_def pa word_less_nat_alt R sum lim not_less)
  moreover have "unat (nextfree s + of_nat sz) = unat (nextfree s) + sz"
    if "used + sz \<le> 4096 * npages s" "npages s < 65536"
    using that szb nfb unfolding used_def KB by (simp add: unat_word_ariths unat_of_nat)
  moreover have "(unat (nextfree s) + sz) mod 4096 = 0" using nf(2) by (simp add: sz_def)
  ultimately show ?thesis by auto
qed

theorem boot_alloc_spec_witness:
  "boot_alloc 0 4097 small_machine
     = Some (0xF0101000, small_machine\<lparr>nextfree := 0xF0103000\<rparr>)"
  using boot_alloc_spec [of small_machine 4097 0]
  by (simp add: small_machine_def KERNBASE_def)

end
