(* ===== verification/PageTable.thy ===== *)
theory PageTable
  imports PageAlloc
begin

text \<open>
  Two-level page tables of \<^verbatim>\<open>kern/pmap.c\<close>: walking, mapping, looking up and unmapping
  pages. A page directory is a frame, a page table entry a frame and an index.
\<close>

subsection \<open>Operations\<close>

type_synonym pteptr = "nat \<times> nat"

definition rd_pte :: "pteptr \<Rightarrow> kstate \<Rightarrow> u32" where
  "rd_pte p s = phys s (fst p) (snd p)"

definition wr_pte :: "pteptr \<Rightarrow> u32 \<Rightarrow> kstate \<Rightarrow> kstate" where
  "wr_pte p v s = set_word (fst p) (snd p) v s"

definition pgdir_walk :: "nat \<Rightarrow> u32 \<Rightarrow> bool \<Rightarrow> kstate \<Rightarrow> (pteptr option) kres" where
  "pgdir_walk pgdir va create s =
     (let pgdir_entry = phys s pgdir (PDX va) in
      if \<not> PTE_VALID pgdir_entry then
        if \<not> create then Some (None, s)
        else do {
          (new_page, s) \<leftarrow> page_alloc ALLOC_ZERO s;
          case new_page of
            None \<Rightarrow> Some (None, s)
          | Some np \<Rightarrow> do {
              let s = set_word pgdir (PDX va) (page2pa np OR (PTE_P OR PTE_W OR PTE_U)) s;
              let s = upd_page np (\<lambda>p. p\<lparr>pp_ref := pp_ref p + 1\<rparr>) s;
              kva \<leftarrow> page2kva np s;
              Some (Some (kva, PTX va), s)
            }
        }
      else do {
        ptdir \<leftarrow> KADDR (PTE_ADDR pgdir_entry) s;
        Some (Some (ptdir, PTX va), s)
      })"

definition page_lookup :: "nat \<Rightarrow> u32 \<Rightarrow> kstate \<Rightarrow> ((nat \<times> pteptr) option) kres" where
  "page_lookup pgdir va s = do {
     (pte, s) \<leftarrow> pgdir_walk pgdir va False s;
     case pte of
       None \<Rightarrow> Some (None, s)
     | Some p \<Rightarrow>
         if \<not> PTE_VALID (rd_pte p s) then Some (None, s)
         else do { pg \<leftarrow> pa2page (PTE_ADDR (rd_pte p s)) s; Some (Some (pg, p), s) }
   }"

definition tlb_invalidate :: "nat \<Rightarrow> nat \<Rightarrow> u32 \<Rightarrow> kstate \<Rightarrow> kstate" where
  "tlb_invalidate c pgdir va s =
     (case curenv c s of
        None \<Rightarrow> s\<lparr>invlpg_log := va # invlpg_log s\<rparr>
      | Some e \<Rightarrow> if env_pgdir (envs s e) = Some pgdir
                  then s\<lparr>invlpg_log := va # invlpg_log s\<rparr> else s)"

definition page_remove :: "nat \<Rightarrow> nat \<Rightarrow> u32 \<Rightarrow> kstate \<Rightarrow> unit kres" where
  "page_remove c pgdir va s = do {
     (r, s) \<leftarrow> page_lookup pgdir va s;
     case r of
       None \<Rightarrow> Some ((), s)
     | Some (pag, pte) \<Rightarrow> do {
         let s = wr_pte pte 0 s;
         (_, s) \<leftarrow> page_decref pag s;
         Some ((), tlb_invalidate c pgdir va s)
       }
   }"

definition page_insert :: "nat \<Rightarrow> nat \<Rightarrow> nat \<Rightarrow> u32 \<Rightarrow> u32 \<Rightarrow> kstate \<Rightarrow> (err + unit) kres" where
  "page_insert c pgdir pp va perm s = do {
     (pte, s) \<leftarrow> pgdir_walk pgdir va True s;
     case pte of
       None \<Rightarrow> Some (Inl E_NO_MEM, s)
     | Some p \<Rightarrow> do {
         let s = upd_page pp (\<lambda>q. q\<lparr>pp_ref := pp_ref q + 1\<rparr>) s;
         (_, s) \<leftarrow> (if PTE_VALID (rd_pte p s) then page_remove c pgdir va s else Some ((), s));
         Some (Inr (), wr_pte p (page2pa pp OR perm OR PTE_P) s)
       }
   }"

subsection \<open>The user part of an address space\<close>

text \<open>
  \<open>UPDX\<close> page directory entries lie below \<open>UTOP\<close>. \<open>utab s d i\<close> is the page table that entry
  \<open>i\<close> of directory \<open>d\<close> points to, and \<open>upte s d v\<close> the entry that maps user page number \<open>v\<close>,
  0 when there is no page table.
\<close>

definition UPDX :: nat where "UPDX = 955"
definition UPN :: nat where "UPN = 1024 * UPDX"

lemma UPDX_UTOP: "PDX UTOP = UPDX" by (simp add: PDX_nat UPDX_def layout_defs)
lemma UPN_UTOP: "unat UTOP = 4096 * UPN" by (simp add: UPN_def UPDX_def layout_defs)

definition utab :: "kstate \<Rightarrow> nat \<Rightarrow> nat \<Rightarrow> nat option" where
  "utab s d i = (if PTE_VALID (phys s d i) then Some (PGNUM (phys s d i)) else None)"

definition upte :: "kstate \<Rightarrow> nat \<Rightarrow> nat \<Rightarrow> u32" where
  "upte s d v = (case utab s d (v div 1024) of None \<Rightarrow> 0 | Some t \<Rightarrow> phys s t (v mod 1024))"

text \<open>How many user pages of \<open>d\<close> map frame \<open>p\<close>, and how many tables and directories it backs.\<close>

definition maps_to :: "kstate \<Rightarrow> nat \<Rightarrow> nat \<Rightarrow> nat set" where
  "maps_to s d p = {v. v < UPN \<and> PTE_VALID (upte s d v) \<and> PGNUM (upte s d v) = p}"

definition tables_at :: "kstate \<Rightarrow> nat \<Rightarrow> nat \<Rightarrow> nat set" where
  "tables_at s d p = {i. i < UPDX \<and> utab s d i = Some p}"

definition refs :: "kstate \<Rightarrow> nat set \<Rightarrow> nat \<Rightarrow> nat" where
  "refs s D p = (\<Sum>d\<in>D. card (maps_to s d p) + card (tables_at s d p)) + (if p \<in> D then 1 else 0)"

text \<open>
  The virtual memory invariant. \<open>K\<close> are the kernel's own frames, \<open>D\<close> the page directories of
  the environments, \<open>xs\<close> the free list, and \<open>ex p\<close> references to \<open>p\<close> that are counted but not
  (yet) in any page table.
\<close>

definition structural :: "kstate \<Rightarrow> nat set \<Rightarrow> nat \<Rightarrow> bool" where
  "structural s D p \<longleftrightarrow> p \<in> D \<or> (\<exists>d \<in> D. \<exists>i < UPDX. utab s d i = Some p)"

definition vm_inv :: "kstate \<Rightarrow> nat set \<Rightarrow> nat set \<Rightarrow> nat list \<Rightarrow> (nat \<Rightarrow> nat) \<Rightarrow> bool" where
  "vm_inv s K D xs ex \<longleftrightarrow>
     alloc_inv s xs \<and> finite D \<and> set xs \<inter> K = {} \<and> D \<inter> K = {} \<and>
     (\<forall>d \<in> D. d < npages s) \<and>
     (\<forall>d \<in> D. \<forall>i < UPDX. \<forall>t. utab s d i = Some t \<longrightarrow> t < npages s \<and> t \<notin> K \<and> t \<notin> D) \<and>
     (\<forall>d \<in> D. \<forall>d' \<in> D. \<forall>i < UPDX. \<forall>i' < UPDX. \<forall>t.
        utab s d i = Some t \<longrightarrow> utab s d' i' = Some t \<longrightarrow> d = d' \<and> i = i') \<and>
     (\<forall>d \<in> D. \<forall>v < UPN. PTE_VALID (upte s d v) \<longrightarrow>
        PGNUM (upte s d v) < npages s \<and> PGNUM (upte s d v) \<notin> K \<and>
        \<not> structural s D (PGNUM (upte s d v))) \<and>
     (\<forall>p < npages s. p \<notin> K \<longrightarrow> unat (pp_ref (pages s p)) = refs s D p + ex p)"

lemma PGNUM_PTE_ADDR [simp]: "PGNUM (PTE_ADDR x) = PGNUM x"
proof -
  have "drop_bit 12 (x AND NOT 0xFFF) = (drop_bit 12 x :: u32)"
    by (rule bit_word_eqI)
      (auto simp only: bit_drop_bit_eq comp_def bit_and_iff bit_not_iff bit_0xFFF possible_bit_word
        dest: bit_imp_le_length)
  then show ?thesis by (simp only: PGNUM_def PTE_ADDR_def)
qed

lemma PGNUM_or_flags:
  assumes "perm AND NOT 0xFFF = 0" "pp < 1048576"
  shows "PGNUM (page2pa pp OR perm) = pp"
  using PTE_ADDR_page2pa_or [OF assms(1), of pp] PGNUM_PTE_ADDR [of "page2pa pp OR perm"] assms(2)
  by (metis PGNUM_page2pa)


subsection \<open>Consequences of the invariant\<close>

lemma vm_invD:
  assumes "vm_inv s K D xs ex"
  shows "alloc_inv s xs" "finite D" "set xs \<inter> K = {}" "D \<inter> K = {}"
    "\<And>d. d \<in> D \<Longrightarrow> d < npages s" "npages s \<le> 1048576"
    "\<And>d i t. d \<in> D \<Longrightarrow> i < UPDX \<Longrightarrow> utab s d i = Some t \<Longrightarrow> t < npages s \<and> t \<notin> K \<and> t \<notin> D"
    "\<And>d d' i i' t. d \<in> D \<Longrightarrow> d' \<in> D \<Longrightarrow> i < UPDX \<Longrightarrow> i' < UPDX \<Longrightarrow> utab s d i = Some t \<Longrightarrow>
       utab s d' i' = Some t \<Longrightarrow> d = d' \<and> i = i'"
    "\<And>d v. d \<in> D \<Longrightarrow> v < UPN \<Longrightarrow> PTE_VALID (upte s d v) \<Longrightarrow>
       PGNUM (upte s d v) < npages s \<and> PGNUM (upte s d v) \<notin> K \<and> \<not> structural s D (PGNUM (upte s d v))"
    "\<And>p. p < npages s \<Longrightarrow> p \<notin> K \<Longrightarrow> unat (pp_ref (pages s p)) = refs s D p + ex p"
  using assms unfolding vm_inv_def alloc_inv_def by (blast | metis)+

lemma vm_invI:
  assumes "alloc_inv s xs" "finite D" "set xs \<inter> K = {}" "D \<inter> K = {}" "\<And>d. d \<in> D \<Longrightarrow> d < npages s"
    "\<And>d i t. d \<in> D \<Longrightarrow> i < UPDX \<Longrightarrow> utab s d i = Some t \<Longrightarrow> t < npages s \<and> t \<notin> K \<and> t \<notin> D"
    "\<And>d d' i i' t. d \<in> D \<Longrightarrow> d' \<in> D \<Longrightarrow> i < UPDX \<Longrightarrow> i' < UPDX \<Longrightarrow> utab s d i = Some t \<Longrightarrow>
       utab s d' i' = Some t \<Longrightarrow> d = d' \<and> i = i'"
    "\<And>d v. d \<in> D \<Longrightarrow> v < UPN \<Longrightarrow> PTE_VALID (upte s d v) \<Longrightarrow>
       PGNUM (upte s d v) < npages s \<and> PGNUM (upte s d v) \<notin> K \<and> \<not> structural s D (PGNUM (upte s d v))"
    "\<And>p. p < npages s \<Longrightarrow> p \<notin> K \<Longrightarrow> unat (pp_ref (pages s p)) = refs s D p + ex p"
  shows "vm_inv s K D xs ex"
  unfolding vm_inv_def
  by (intro conjI ballI allI impI) (use assms in \<open>blast+\<close>)

lemma div_UPN: "v < UPN \<Longrightarrow> v div 1024 < UPDX"
  by (simp add: UPN_def less_mult_imp_div_less mult.commute)

lemma finite_maps_to [simp]: "finite (maps_to s d p)" by (simp add: maps_to_def)
lemma finite_tables_at [simp]: "finite (tables_at s d p)" by (simp add: tables_at_def)

lemma refs_zeroD:
  assumes "finite D" "refs s D p = 0"
  shows "p \<notin> D" "d \<in> D \<Longrightarrow> i < UPDX \<Longrightarrow> utab s d i \<noteq> Some p"
    "d \<in> D \<Longrightarrow> v < UPN \<Longrightarrow> PTE_VALID (upte s d v) \<Longrightarrow> PGNUM (upte s d v) \<noteq> p"
  using assms by (auto simp: refs_def maps_to_def tables_at_def split: if_splits)

lemma refs_zero_structural:
  assumes "finite D" "refs s D p = 0" shows "\<not> structural s D p"
  using refs_zeroD [OF assms] by (auto simp: structural_def)

text \<open>A free page backs nothing.\<close>

lemma free_page_unused:
  assumes "vm_inv s K D xs ex" "p \<in> set xs"
  shows "refs s D p = 0" "ex p = 0" "p < npages s" "p \<notin> K" "pp_ref (pages s p) = 0"
proof -
  have a: "p < npages s" "pp_ref (pages s p) = 0" "p \<notin> K"
    using assms vm_invD(1,3) [OF assms(1)] by (auto simp: alloc_inv_def)
  then have "refs s D p + ex p = 0" using vm_invD(10) [OF assms(1), of p] by simp
  with a show "refs s D p = 0" "ex p = 0" "p < npages s" "p \<notin> K" "pp_ref (pages s p) = 0" by auto
qed

subsection \<open>Writing one page table entry\<close>

definition hits :: "u32 \<Rightarrow> nat \<Rightarrow> nat" where
  "hits x p = (if PTE_VALID x \<and> PGNUM x = p then 1 else 0)"

lemma card_hits_upd:
  fixes f :: "nat \<Rightarrow> u32"
  assumes "v < n"
  shows "card {u. u < n \<and> PTE_VALID ((f(v := x)) u) \<and> PGNUM ((f(v := x)) u) = p} + hits (f v) p
       = card {u. u < n \<and> PTE_VALID (f u) \<and> PGNUM (f u) = p} + hits x p"
proof -
  let ?R = "{u. u < n \<and> u \<noteq> v \<and> PTE_VALID (f u) \<and> PGNUM (f u) = p}"
  have *: "card {u. u < n \<and> PTE_VALID (g u) \<and> PGNUM (g u) = p} = card ?R + hits (g v) p"
    if g: "\<And>u. u \<noteq> v \<Longrightarrow> g u = f u" for g
  proof -
    let ?V = "{u. u = v \<and> PTE_VALID (g v) \<and> PGNUM (g v) = p}"
    have "{u. u < n \<and> PTE_VALID (g u) \<and> PGNUM (g u) = p} = ?R \<union> ?V"
      using g assms by (intro set_eqI, rename_tac u, case_tac "u = v") auto
    moreover have "card (?R \<union> ?V) = card ?R + card ?V" by (rule card_Un_disjoint) auto
    moreover have "card ?V = hits (g v) p" by (auto simp: hits_def)
    ultimately show ?thesis by simp
  qed
  from *[of f] *[of "f(v := x)"] show ?thesis by simp
qed

lemma wr_utab:
  assumes inv: "vm_inv s K D xs ex" and "d \<in> D" "v < UPN" "utab s d (v div 1024) = Some t" "d' \<in> D"
  shows "utab (wr_pte (t, j) x s) d' i = utab s d' i"
  using vm_invD(7) [OF inv assms(2) div_UPN [OF assms(3)] assms(4)] assms(5)
  by (auto simp: utab_def wr_pte_def)

lemma wr_upte:
  assumes inv: "vm_inv s K D xs ex" and d: "d \<in> D" and v: "v < UPN"
    and t: "utab s d (v div 1024) = Some t" and d': "d' \<in> D" and v': "v' < UPN"
  shows "upte (wr_pte (t, v mod 1024) x s) d' v' = (if d' = d \<and> v' = v then x else upte s d' v')"
proof (cases "utab s d' (v' div 1024)")
  case None
  then show ?thesis using t wr_utab [OF inv d v t d'] by (auto simp: upte_def)
next
  case (Some t')
  have "t' = t \<Longrightarrow> d' = d \<and> v' div 1024 = v div 1024"
    using vm_invD(8) [OF inv d' d div_UPN [OF v'] div_UPN [OF v]] Some t by blast
  moreover have "v' div 1024 = v div 1024 \<Longrightarrow> v' mod 1024 = v mod 1024 \<Longrightarrow> v' = v"
    by (metis div_mult_mod_eq)
  ultimately show ?thesis
    using t Some wr_utab [OF inv d v t d'] by (auto simp: upte_def wr_pte_def)
qed

lemma wr_structural:
  assumes inv: "vm_inv s K D xs ex" and "d \<in> D" "v < UPN" "utab s d (v div 1024) = Some t"
  shows "structural (wr_pte (t, j) x s) D p = structural s D p"
  using wr_utab [OF assms] by (auto simp: structural_def)

lemma wr_refs:
  assumes inv: "vm_inv s K D xs ex" and d: "d \<in> D" and v: "v < UPN"
    and t: "utab s d (v div 1024) = Some t"
  shows "refs (wr_pte (t, v mod 1024) x s) D p + hits (upte s d v) p = refs s D p + hits x p"
proof -
  let ?s = "wr_pte (t, v mod 1024) x s"
  have tab: "tables_at ?s d' p = tables_at s d' p" if "d' \<in> D" for d'
    using wr_utab [OF inv d v t that] by (simp add: tables_at_def)
  have oth: "maps_to ?s d' p = maps_to s d' p" if "d' \<in> D - {d}" for d'
    using wr_upte [OF inv d v t, of d'] that by (auto simp: maps_to_def)
  have "maps_to ?s d p = {u. u < UPN \<and> PTE_VALID (((upte s d)(v := x)) u) \<and> PGNUM (((upte s d)(v := x)) u) = p}"
    using wr_upte [OF inv d v t d] by (auto simp: maps_to_def)
  then have m: "card (maps_to ?s d p) + hits (upte s d v) p = card (maps_to s d p) + hits x p"
    using card_hits_upd [OF v, of "upte s d" x p] by (simp add: maps_to_def)
  have fin: "finite D" by (rule vm_invD(2) [OF inv])
  have "(\<Sum>d'\<in>D. card (maps_to ?s d' p) + card (tables_at ?s d' p)) + hits (upte s d v) p
      = (\<Sum>d'\<in>D. card (maps_to s d' p) + card (tables_at s d' p)) + hits x p"
    unfolding sum.remove [OF fin d] using m tab [OF d] oth tab by simp
  then show ?thesis by (simp add: refs_def)
qed

text \<open>Replacing one entry keeps the invariant, with the reference accounting adjusted.\<close>

lemma wr_pte_inv:
  assumes inv: "vm_inv s K D xs ex" and d: "d \<in> D" and v: "v < UPN"
    and t: "utab s d (v div 1024) = Some t"
    and x: "PTE_VALID x \<Longrightarrow> PGNUM x < npages s \<and> PGNUM x \<notin> K \<and> \<not> structural s D (PGNUM x)"
    and ex': "\<And>p. ex p + hits (upte s d v) p = ex' p + hits x p"
  shows "vm_inv (wr_pte (t, v mod 1024) x s) K D xs ex'"
proof -
  let ?s = "wr_pte (t, v mod 1024) x s"
  have same [simp]: "npages ?s = npages s" "pages ?s = pages s" "page_free_list ?s = page_free_list s"
    by (simp_all add: wr_pte_def)
  show ?thesis
  proof (rule vm_invI)
    show "alloc_inv ?s xs" using vm_invD(1) [OF inv] by (simp add: alloc_inv_def free_list_def)
    show "PGNUM (upte ?s d' v') < npages ?s \<and> PGNUM (upte ?s d' v') \<notin> K \<and>
        \<not> structural ?s D (PGNUM (upte ?s d' v'))"
      if "d' \<in> D" "v' < UPN" "PTE_VALID (upte ?s d' v')" for d' v'
      using that x vm_invD(9) [OF inv that(1,2)] wr_structural [OF inv d v t]
      by (auto simp: wr_upte [OF inv d v t that(1,2)] split: if_splits)
    show "unat (pp_ref (pages ?s p)) = refs ?s D p + ex' p"
      if "p < npages ?s" "p \<notin> K" for p
      using vm_invD(10) [OF inv, of p] wr_refs [OF inv d v t, of x p] ex' [of p] that by simp
    show "t' < npages ?s \<and> t' \<notin> K \<and> t' \<notin> D" if "d' \<in> D" "i < UPDX" "utab ?s d' i = Some t'" for d' i t'
      using vm_invD(7) [OF inv] wr_utab [OF inv d v t] that by simp
    show "d1 = d2 \<and> i1 = i2" if "d1 \<in> D" "d2 \<in> D" "i1 < UPDX" "i2 < UPDX"
      "utab ?s d1 i1 = Some t'" "utab ?s d2 i2 = Some t'" for d1 d2 i1 i2 t'
      using vm_invD(8) [OF inv that(1-4)] wr_utab [OF inv d v t] that by simp
  qed (use vm_invD(2-5) [OF inv] in auto)
qed



subsection \<open>Adding a page table\<close>

definition new_table :: "nat \<Rightarrow> nat \<Rightarrow> nat \<Rightarrow> kstate \<Rightarrow> kstate" where
  "new_table d i t s = upd_page t (\<lambda>p. p\<lparr>pp_ref := pp_ref p + 1\<rparr>)
     (set_word d i (page2pa t OR (PTE_P OR PTE_W OR PTE_U)) (take_page ALLOC_ZERO t s))"

lemma PTE_ADDR_low: "perm AND NOT 0xFFF = 0 \<Longrightarrow> (perm OR PTE_P) AND NOT 0xFFF = 0"
  by (simp add: PTE_P_def bit.conj_disj_distrib2)

lemma PTE_VALID_flag: "PTE_VALID PTE_P" by (simp add: PTE_VALID_def)

lemma new_table_facts:
  assumes inv: "vm_inv s K D (t # xs) ex" and d: "d \<in> D" and i: "i < UPDX"
    and none: "utab s d i = None"
  shows "\<And>d' i'. d' \<in> D \<Longrightarrow> utab (new_table d i t s) d' i' = (if d' = d \<and> i' = i then Some t else utab s d' i')"
    and "\<And>d' v. d' \<in> D \<Longrightarrow> v < UPN \<Longrightarrow> upte (new_table d i t s) d' v = upte s d' v"
    and "\<And>p. refs (new_table d i t s) D p = refs s D p + (if p = t then 1 else 0)"
proof -
  let ?s = "new_table d i t s"
  have t: "refs s D t = 0" "t < npages s" "t \<notin> K" using free_page_unused [OF inv, of t] by auto
  have fin: "finite D" by (rule vm_invD(2) [OF inv])
  note unused = refs_zeroD [OF fin t(1)]
  have tb: "t < 1048576" using t(2) vm_invD(6) [OF inv] by simp
  have pde: "PTE_VALID (page2pa t OR (PTE_P OR PTE_W OR PTE_U))"
    "PGNUM (page2pa t OR (PTE_P OR PTE_W OR PTE_U)) = t"
    using PGNUM_or_flags [OF _ tb, of "PTE_P OR PTE_W OR PTE_U"]
    by (simp_all add: PTE_VALID_or PTE_VALID_flag) (simp add: pte_bits)
  show ut: "utab ?s d' i' = (if d' = d \<and> i' = i then Some t else utab s d' i')" if "d' \<in> D" for d' i'
    using that unused(1) pde by (auto simp: utab_def new_table_def)
  show "upte ?s d' v = upte s d' v" if d': "d' \<in> D" and v: "v < UPN" for d' v
  proof (cases "d' = d \<and> v div 1024 = i")
    case True
    then show ?thesis
      using ut [OF d', of i] none unused(1) d by (auto simp: upte_def new_table_def ALLOC_ZERO_def)
  next
    case False
    have "t' \<noteq> t \<and> t' \<noteq> d" if "utab s d' (v div 1024) = Some t'" for t'
      using that unused(2) [OF d' div_UPN [OF v]] vm_invD(7) [OF inv d' div_UPN [OF v] that] d by auto
    with False show ?thesis
      using ut [OF d', of "v div 1024"] by (auto simp: upte_def new_table_def split: option.splits)
  qed
  note up = this
  show "refs ?s D p = refs s D p + (if p = t then 1 else 0)" for p
  proof -
    have m: "maps_to ?s d' p = maps_to s d' p" if "d' \<in> D" for d'
      using up [OF that] by (auto simp: maps_to_def)
    have o: "tables_at ?s d' p = tables_at s d' p" if "d' \<in> D - {d}" for d'
      using ut that by (auto simp: tables_at_def)
    have "tables_at ?s d p = tables_at s d p \<union> (if p = t then {i} else {})" and "i \<notin> tables_at s d p"
      using ut [OF d] none i by (auto simp: tables_at_def)
    then have "card (tables_at ?s d p) = card (tables_at s d p) + (if p = t then 1 else 0)"
      by (cases "p = t") simp_all
    then have "(\<Sum>d'\<in>D. card (maps_to ?s d' p) + card (tables_at ?s d' p))
      = (\<Sum>d'\<in>D. card (maps_to s d' p) + card (tables_at s d' p)) + (if p = t then 1 else 0)"
      unfolding sum.remove [OF fin d] using m [OF d] m o by simp
    then show ?thesis by (simp add: refs_def)
  qed
qed

lemma new_table_inv:
  assumes inv: "vm_inv s K D (t # xs) ex" and d: "d \<in> D" and i: "i < UPDX"
    and none: "utab s d i = None"
  shows "vm_inv (new_table d i t s) K D xs ex"
proof -
  let ?s = "new_table d i t s"
  have t: "refs s D t = 0" "ex t = 0" "t < npages s" "t \<notin> K" "pp_ref (pages s t) = 0"
    using free_page_unused [OF inv, of t] by auto
  note unused = refs_zeroD [OF vm_invD(2) [OF inv] t(1)]
  note f = new_table_facts [OF inv d i none]
  have np [simp]: "npages ?s = npages s" by (simp add: new_table_def)
  show ?thesis
  proof (rule vm_invI)
    show "alloc_inv ?s xs"
      using take_page_inv [OF vm_invD(1) [OF inv], of ALLOC_ZERO] alloc_inv_distinct [OF vm_invD(1) [OF inv]]
      by (auto simp: new_table_def alloc_inv_def free_list_def)
    show "PGNUM (upte ?s d' v') < npages ?s \<and> PGNUM (upte ?s d' v') \<notin> K \<and>
        \<not> structural ?s D (PGNUM (upte ?s d' v'))"
      if "d' \<in> D" "v' < UPN" "PTE_VALID (upte ?s d' v')" for d' v'
      using vm_invD(9) [OF inv that(1,2)] unused(3) [OF that(1,2)] that(3) f(1) f(2) [OF that(1,2)]
      by (auto simp: structural_def split: if_splits)
    show "unat (pp_ref (pages ?s p)) = refs ?s D p + ex p" if "p < npages ?s" "p \<notin> K" for p
      using vm_invD(10) [OF inv, of p] that t f(3) [of p] by (simp add: new_table_def)
    show "t' < npages ?s \<and> t' \<notin> K \<and> t' \<notin> D"
      if "d' \<in> D" "i' < UPDX" "utab ?s d' i' = Some t'" for d' i' t'
      using vm_invD(7) [OF inv that(1,2)] that f(1) [OF that(1)] t unused(1) by (auto split: if_splits)
    show "d1 = d2 \<and> i1 = i2" if "d1 \<in> D" "d2 \<in> D" "i1 < UPDX" "i2 < UPDX"
      "utab ?s d1 i1 = Some t'" "utab ?s d2 i2 = Some t'" for d1 d2 i1 i2 t'
      using vm_invD(8) [OF inv that(1-4)] that f(1) unused(2) by (auto split: if_splits)
  qed (use vm_invD(2-5) [OF inv] in auto)
qed


subsection \<open>Walking\<close>

lemma vpn_div: "PGNUM va div 1024 = PDX va" and vpn_mod: "PGNUM va mod 1024 = PTX va"
  by (simp_all add: PGNUM_PDX_PTX)

lemma UTOP_less: "va < UTOP \<longleftrightarrow> PGNUM va < UPN"
proof -
  have "va < UTOP \<longleftrightarrow> unat va < 4096 * UPN" by (simp add: word_less_nat_alt UPN_UTOP)
  also have "\<dots> \<longleftrightarrow> PGNUM va < UPN" by (simp add: PGNUM_nat less_mult_imp_div_less div_less_iff_less_mult mult.commute)
  finally show ?thesis .
qed

lemma PDX_UTOP: "va < UTOP \<Longrightarrow> PDX va < UPDX"
  using div_UPN [of "PGNUM va"] by (simp add: UTOP_less vpn_div)

lemma walk_mapped:
  assumes inv: "vm_inv s K D xs ex" and d: "d \<in> D" and va: "va < UTOP" and t: "utab s d (PDX va) = Some t"
  shows "pgdir_walk d va create s = Some (Some (t, PTX va), s)"
proof -
  have "PTE_VALID (phys s d (PDX va))" "PGNUM (phys s d (PDX va)) = t"
    using t by (auto simp: utab_def split: if_splits)
  moreover have "t < npages s" using vm_invD(7) [OF inv d PDX_UTOP [OF va] t] by simp
  ultimately show ?thesis by (simp add: pgdir_walk_def KADDR_def)
qed

lemma walk_unmapped: "utab s d (PDX va) = None \<Longrightarrow> pgdir_walk d va False s = Some (None, s)"
  by (auto simp: pgdir_walk_def utab_def Let_def split: if_splits)

lemma walk_no_memory:
  "utab s d (PDX va) = None \<Longrightarrow> alloc_inv s [] \<Longrightarrow> pgdir_walk d va True s = Some (None, s)"
  by (auto simp: pgdir_walk_def utab_def Let_def page_alloc_Nil split: if_splits)

lemma walk_new_table:
  assumes inv: "vm_inv s K D (t # xs) ex" and none: "utab s d (PDX va) = None"
  shows "pgdir_walk d va True s = Some (Some (t, PTX va), new_table d (PDX va) t s)"
proof -
  have "t < npages s" "npages s \<le> 1048576"
    using vm_invD(1,6) [OF inv] by (auto simp: alloc_inv_def)
  with none show ?thesis
    by (auto simp: pgdir_walk_def utab_def Let_def page_alloc_Cons [OF vm_invD(1) [OF inv]]
      new_table_def page2kva_Some split: if_splits)
qed

text \<open>What the page-table code never touches.\<close>

definition keeps :: "kstate \<Rightarrow> kstate \<Rightarrow> bool" where
  "keeps s s' \<longleftrightarrow> npages s' = npages s \<and> kern_pgdir s' = kern_pgdir s \<and> envs s' = envs s \<and>
     env_free_list s' = env_free_list s \<and> cpus s' = cpus s \<and> klock s' = klock s"

lemma keeps_refl [simp]: "keeps s s" by (simp add: keeps_def)
lemma keeps_trans: "keeps s s' \<Longrightarrow> keeps s' s'' \<Longrightarrow> keeps s s''" by (simp add: keeps_def)

text \<open>No unreferenced page other than \<open>pp\<close> is off the free list.\<close>

definition lean_but :: "kstate \<Rightarrow> nat set \<Rightarrow> nat set \<Rightarrow> nat list \<Rightarrow> (nat \<Rightarrow> nat) \<Rightarrow> nat \<Rightarrow> bool" where
  "lean_but s K D xs ex pp \<longleftrightarrow> (\<forall>p < npages s. p \<notin> K \<and> p \<noteq> pp \<and> refs s D p + ex p = 0 \<longrightarrow> p \<in> set xs)"

text \<open>What a creating walk gives: no memory and no table, or a table for the address.\<close>

lemma walk_create_cases:
  assumes inv: "vm_inv s K D xs ex" and d: "d \<in> D" and va: "va < UTOP"
  obtains (full) "xs = []" "utab s d (PDX va) = None" "pgdir_walk d va True s = Some (None, s)"
  | (table) s' t xs' where "pgdir_walk d va True s = Some (Some (t, PTX va), s')"
      "utab s' d (PDX va) = Some t" "vm_inv s' K D xs' ex" "set xs' \<subseteq> set xs" "keeps s s'"
      "\<And>d v. d \<in> D \<Longrightarrow> v < UPN \<Longrightarrow> upte s' d v = upte s d v"
      "\<And>p. p \<notin> set xs \<Longrightarrow> pages s' p = pages s p \<and> structural s' D p = structural s D p"
      "\<And>f. f \<noteq> d \<Longrightarrow> f \<notin> set xs \<Longrightarrow> phys s' f = phys s f"
      "\<And>pp. lean_but s K D xs ex pp \<Longrightarrow> lean_but s' K D xs' ex pp"
proof (cases "utab s d (PDX va)")
  case (Some t)
  show ?thesis
    by (rule table [OF walk_mapped [OF inv d va Some] Some inv]) auto
next
  case None
  show ?thesis
  proof (cases xs)
    case Nil
    with inv walk_no_memory [OF None] full None show ?thesis by (simp add: vm_invD(1))
  next
    case (Cons t ys)
    then have inv': "vm_inv s K D (t # ys) ex" using inv by simp
    note f = new_table_facts [OF inv' d PDX_UTOP [OF va] None]
    show ?thesis
    proof (rule table [OF walk_new_table [OF inv' None] _ new_table_inv [OF inv' d PDX_UTOP [OF va] None]])
      show "pages (new_table d (PDX va) t s) p = pages s p \<and>
          structural (new_table d (PDX va) t s) D p = structural s D p" if "p \<notin> set xs" for p
      proof
        have "p \<noteq> t" using that Cons by simp
        then show "pages (new_table d (PDX va) t s) p = pages s p" by (simp add: new_table_def)
        have "utab (new_table d (PDX va) t s) d' i = Some p \<longleftrightarrow> utab s d' i = Some p" if "d' \<in> D" for d' i
          using f(1) [OF that, of i] None \<open>p \<noteq> t\<close> by auto
        then show "structural (new_table d (PDX va) t s) D p = structural s D p"
          by (auto simp: structural_def)
      qed
      show "lean_but (new_table d (PDX va) t s) K D ys ex pp" if "lean_but s K D xs ex pp" for pp
        using that f(3) Cons by (auto simp: lean_but_def new_table_def)
    qed (use f d Cons in \<open>auto simp: new_table_def keeps_def\<close>)
  qed
qed


subsection \<open>Dropping a reference\<close>

lemma phys_congs:
  assumes "phys s' = phys s"
  shows "utab s' = utab s" "upte s' = upte s" "refs s' = refs s" "structural s' = structural s"
  using assms by (auto simp: utab_def upte_def refs_def structural_def maps_to_def tables_at_def fun_eq_iff)

text \<open>The invariant only looks at physical memory, the page structures and the free list.\<close>

lemma vm_inv_pages:
  assumes inv: "vm_inv s K D xs ex" and "phys s' = phys s" "npages s' = npages s"
    and "alloc_inv s' xs'" "set xs' \<inter> K = {}"
    and "\<And>p. p < npages s \<Longrightarrow> p \<notin> K \<Longrightarrow> unat (pp_ref (pages s' p)) = refs s D p + ex' p"
  shows "vm_inv s' K D xs' ex'"
proof -
  note c [simp] = phys_congs [OF assms(2)] and assms(3) [simp]
  show ?thesis
  proof (rule vm_invI)
    show "t < npages s' \<and> t \<notin> K \<and> t \<notin> D" if "d \<in> D" "i < UPDX" "utab s' d i = Some t" for d i t
      using vm_invD(7) [OF inv that(1,2)] that by simp
    show "d = d' \<and> i = i'" if "d \<in> D" "d' \<in> D" "i < UPDX" "i' < UPDX"
      "utab s' d i = Some t" "utab s' d' i' = Some t" for d d' i i' t
      using vm_invD(8) [OF inv that(1-4)] that by simp
    show "PGNUM (upte s' d v) < npages s' \<and> PGNUM (upte s' d v) \<notin> K \<and>
        \<not> structural s' D (PGNUM (upte s' d v))"
      if "d \<in> D" "v < UPN" "PTE_VALID (upte s' d v)" for d v
      using vm_invD(9) [OF inv that(1,2)] that by simp
  qed (use assms(4-6) vm_invD(2,4,5) [OF inv] in simp_all)
qed

lemma decref_inv:
  assumes inv: "vm_inv s K D xs (ex(p := Suc (ex p)))" and p: "p < npages s" "p \<notin> K"
  shows "\<exists>s'. page_decref p s = Some ((), s') \<and> phys s' = phys s \<and> keeps s s' \<and>
     vm_inv s' K D (if refs s D p + ex p = 0 then p # xs else xs) ex"
proof -
  let ?s = "upd_page p (\<lambda>q. q\<lparr>pp_ref := pp_ref q - 1\<rparr>) s"
  have r: "unat (pp_ref (pages s p)) = Suc (refs s D p + ex p)"
    using vm_invD(10) [OF inv p] by simp
  then have pos: "pp_ref (pages s p) \<noteq> 0" by auto
  then have r': "unat (pp_ref (pages s p) - 1) = refs s D p + ex p"
    using r by (simp add: unat_minus_one)
  have px: "p \<notin> set xs" using vm_invD(1) [OF inv] pos by (auto simp: alloc_inv_def)
  have rest: "unat (pp_ref (pages s q)) = refs s D q + ex q" if "q < npages s" "q \<notin> K" "q \<noteq> p" for q
    using vm_invD(10) [OF inv that(1,2)] that(3) by simp
  have ai: "alloc_inv ?s xs"
    using vm_invD(1) [OF inv] px by (auto simp: alloc_inv_def free_list_def)
  show ?thesis
  proof (cases "refs s D p + ex p = 0")
    case True
    then have z: "pp_ref (pages ?s p) = 0" using r' by (simp add: unat_eq_0)
    then obtain s' where s': "page_free p ?s = Some ((), s')" "alloc_inv s' (p # xs)"
      "phys s' = phys ?s" "\<And>q. pp_ref (pages s' q) = pp_ref (pages ?s q)"
      using page_free_inv [OF ai px] p by auto
    have k: "keeps s s'" using s'(1) by (auto simp: page_free_def keeps_def split: if_splits)
    have "vm_inv s' K D (p # xs) ex"
    proof (rule vm_inv_pages [OF inv _ _ s'(2)])
      show "unat (pp_ref (pages s' q)) = refs s D q + ex q" if "q < npages s" "q \<notin> K" for q
        using rest [OF that] s'(4) r' by auto
    qed (use s'(3) k vm_invD(3) [OF inv] p in \<open>auto simp: keeps_def\<close>)
    with True s' z k show ?thesis by (auto simp: page_decref_def Let_def)
  next
    case False
    have "vm_inv ?s K D xs ex"
    proof (rule vm_inv_pages [OF inv _ _ ai])
      show "unat (pp_ref (pages ?s q)) = refs s D q + ex q" if "q < npages s" "q \<notin> K" for q
        using rest [OF that] r' by auto
    qed (use vm_invD(3) [OF inv] in auto)
    moreover have "pp_ref (pages ?s p) \<noteq> 0" using False r' by auto
    ultimately show ?thesis using False by (auto simp: page_decref_def Let_def keeps_def)
  qed
qed

subsection \<open>Looking up, removing and inserting a page\<close>

lemma lookup_eq:
  assumes inv: "vm_inv s K D xs ex" and d: "d \<in> D" and va: "va < UTOP"
  shows "page_lookup d va s = Some (if PTE_VALID (upte s d (PGNUM va))
     then Some (PGNUM (upte s d (PGNUM va)), (the (utab s d (PDX va)), PTX va)) else None, s)"
proof (cases "utab s d (PDX va)")
  case None
  then show ?thesis by (simp add: page_lookup_def walk_unmapped upte_def vpn_div)
next
  case (Some t)
  then have u: "upte s d (PGNUM va) = phys s t (PTX va)" by (simp add: upte_def vpn_div vpn_mod)
  have "PTE_VALID (upte s d (PGNUM va)) \<Longrightarrow> PGNUM (upte s d (PGNUM va)) < npages s"
    using vm_invD(9) [OF inv d, of "PGNUM va"] va by (simp add: UTOP_less)
  then show ?thesis
    using Some by (auto simp: page_lookup_def walk_mapped [OF inv d va Some] rd_pte_def u pa2page_def)
qed

lemma tlb_keeps [simp]:
  "phys (tlb_invalidate c d va s) = phys s" "pages (tlb_invalidate c d va s) = pages s"
  "page_free_list (tlb_invalidate c d va s) = page_free_list s"
  "npages (tlb_invalidate c d va s) = npages s" "keeps s (tlb_invalidate c d va s)"
  by (auto simp: tlb_invalidate_def keeps_def split: option.splits)

lemma tlb_vm_inv: "vm_inv s K D xs ex \<Longrightarrow> vm_inv (tlb_invalidate c d va s) K D xs ex"
  by (rule vm_inv_pages) (auto simp: vm_invD(3,10) alloc_inv_def free_list_def dest: vm_invD(1))

lemma remove_absent:
  assumes "vm_inv s K D xs ex" "d \<in> D" "va < UTOP" "\<not> PTE_VALID (upte s d (PGNUM va))"
  shows "page_remove c d va s = Some ((), s)"
  using lookup_eq [OF assms(1-3)] assms(4) by (simp add: page_remove_def)

text \<open>The frame a removal gives back, if the mapping was its last reference.\<close>

lemma remove_present:
  assumes inv: "vm_inv s K D xs ex" and d: "d \<in> D" and va: "va < UTOP"
    and valid: "PTE_VALID (upte s d (PGNUM va))"
  defines "p \<equiv> PGNUM (upte s d (PGNUM va))"
  obtains s' where "page_remove c d va s = Some ((), s')"
    "vm_inv s' K D (if refs s D p + ex p = 1 then p # xs else xs) ex" "keeps s s'"
    "\<And>d' v. d' \<in> D \<Longrightarrow> v < UPN \<Longrightarrow>
       upte s' d' v = (if d' = d \<and> v = PGNUM va then 0 else upte s d' v)"
    "\<And>d' i. d' \<in> D \<Longrightarrow> utab s' d' i = utab s d' i"
    "\<And>q. structural s' D q = structural s D q"
    "\<And>f. utab s d (PDX va) \<noteq> Some f \<Longrightarrow> phys s' f = phys s f"
    "curenv c s = None \<or> env_pgdir (envs s (the (curenv c s))) = Some d \<Longrightarrow> va \<in> set (invlpg_log s')"
    "\<And>q. refs s' D q + (if q = p then 1 else 0) = refs s D q"
proof -
  let ?v = "PGNUM va"
  have v: "?v < UPN" using va by (simp add: UTOP_less)
  obtain t where t: "utab s d (PDX va) = Some t"
    using valid by (auto simp: upte_def vpn_div split: option.splits)
  have t': "utab s d (?v div 1024) = Some t" using t by (simp add: vpn_div)
  let ?s1 = "wr_pte (t, ?v mod 1024) 0 s"
  have p: "p < npages s" "p \<notin> K" using vm_invD(9) [OF inv d v valid] by (simp_all add: p_def)
  have inv1: "vm_inv ?s1 K D xs (ex(p := Suc (ex p)))"
    by (rule wr_pte_inv [OF inv d v t']) (use valid in \<open>auto simp: hits_def p_def\<close>)
  have r1: "refs ?s1 D p + 1 = refs s D p"
    using wr_refs [OF inv d v t', of 0 p] valid by (simp add: hits_def p_def)
  obtain s2 where s2: "page_decref p ?s1 = Some ((), s2)" "phys s2 = phys ?s1" "keeps ?s1 s2"
    "vm_inv s2 K D (if refs ?s1 D p + ex p = 0 then p # xs else xs) ex"
    using decref_inv [OF inv1] p by (auto simp: wr_pte_def)
  let ?s' = "tlb_invalidate c d va s2"
  have k1: "keeps s ?s1" by (simp add: keeps_def wr_pte_def)
  note ph = phys_congs [of ?s' ?s1]
  show ?thesis
  proof (rule that [of ?s'])
    show "page_remove c d va s = Some ((), ?s')"
      using lookup_eq [OF inv d va] valid s2(1) t by (simp add: page_remove_def p_def vpn_mod)
    show "vm_inv ?s' K D (if refs s D p + ex p = 1 then p # xs else xs) ex"
    proof -
      have "refs ?s1 D p + ex p = 0 \<longleftrightarrow> refs s D p + ex p = 1" using r1 by auto
      with tlb_vm_inv [OF s2(4), of c d va] show ?thesis by simp
    qed
    show "keeps s ?s'" using k1 s2(3) by (blast intro: keeps_trans tlb_keeps(5))
    show "upte ?s' d' v' = (if d' = d \<and> v' = ?v then 0 else upte s d' v')" if "d' \<in> D" "v' < UPN" for d' v'
      using wr_upte [OF inv d v t' that, of 0] ph(2) s2(2) by simp
    show "utab ?s' d' i = utab s d' i" if "d' \<in> D" for d' i
      using wr_utab [OF inv d v t' that] ph(1) s2(2) by simp
    show "structural ?s' D q = structural s D q" for q
      using wr_structural [OF inv d v t'] ph(4) s2(2) by simp
    show "phys ?s' f = phys s f" if "utab s d (PDX va) \<noteq> Some f" for f
      using that t s2(2) by (simp add: wr_pte_def)
    show "va \<in> set (invlpg_log ?s')"
      if "curenv c s = None \<or> env_pgdir (envs s (the (curenv c s))) = Some d"
      using that keeps_trans [OF k1 s2(3)]
      by (auto simp: tlb_invalidate_def keeps_def curenv_def split: option.splits)
    show "refs ?s' D q + (if q = p then 1 else 0) = refs s D q" for q
      using wr_refs [OF inv d v t', of 0 q] valid ph(3) s2(2) by (auto simp: hits_def p_def split: if_splits)
  qed
qed

lemma pte_value:
  assumes "perm AND NOT 0xFFF = 0" "pp < 1048576"
  shows "PTE_VALID (page2pa pp OR perm OR PTE_P)" "PGNUM (page2pa pp OR perm OR PTE_P) = pp"
  using PGNUM_or_flags [OF PTE_ADDR_low [OF assms(1)] assms(2)] by (simp_all add: or.assoc PTE_VALID_or PTE_VALID_flag)

lemma insert_no_memory:
  assumes "vm_inv s K D [] ex" "utab s d (PDX va) = None"
  shows "page_insert c d pp va perm s = Some (Inl E_NO_MEM, s)"
  using walk_no_memory [OF assms(2) vm_invD(1) [OF assms(1)]] by (simp add: page_insert_def)

lemma insert_ok:
  assumes inv: "vm_inv s K D xs ex" and d: "d \<in> D" and va: "va < UTOP"
    and pp: "pp < npages s" "pp \<notin> K" "pp \<notin> set xs" "\<not> structural s D pp"
    and perm: "perm AND NOT 0xFFF = 0" and small: "refs s D pp + ex pp < 65535"
    and mem: "xs \<noteq> [] \<or> utab s d (PDX va) \<noteq> None"
  obtains s' xs' where "page_insert c d pp va perm s = Some (Inr (), s')"
    "vm_inv s' K D xs' ex" "keeps s s'"
    "\<And>d' v. d' \<in> D \<Longrightarrow> v < UPN \<Longrightarrow> upte s' d' v =
       (if d' = d \<and> v = PGNUM va then page2pa pp OR perm OR PTE_P else upte s d' v)"
    "\<And>f. f \<notin> set xs \<Longrightarrow> \<not> structural s D f \<Longrightarrow> phys s' f = phys s f"
    "lean_but s K D xs ex pp \<Longrightarrow> lean_but s' K D xs' ex pp" "0 < refs s' D pp"
proof -
  let ?v = "PGNUM va" and ?x = "page2pa pp OR perm OR PTE_P"
  have v: "?v < UPN" using va by (simp add: UTOP_less)
  have ppb: "pp < 1048576" using pp(1) vm_invD(6) [OF inv] by simp
  obtain s1 t xs1 where w: "pgdir_walk d va True s = Some (Some (t, PTX va), s1)"
    and t: "utab s1 d (PDX va) = Some t" and inv1: "vm_inv s1 K D xs1 ex" and xs1: "set xs1 \<subseteq> set xs"
    and k1: "keeps s s1" and u1: "\<And>d v. d \<in> D \<Longrightarrow> v < UPN \<Longrightarrow> upte s1 d v = upte s d v"
    and p1: "\<And>p. p \<notin> set xs \<Longrightarrow> pages s1 p = pages s p \<and> structural s1 D p = structural s D p"
    and f1: "\<And>f. f \<noteq> d \<Longrightarrow> f \<notin> set xs \<Longrightarrow> phys s1 f = phys s f"
    and l1: "\<And>pp. lean_but s K D xs ex pp \<Longrightarrow> lean_but s1 K D xs1 ex pp"
  proof (rule walk_create_cases [OF inv d va])
    assume "xs = []" "utab s d (PDX va) = None"
    with mem show thesis by simp
  next
    fix s1 t xs1
    assume a: "pgdir_walk d va True s = Some (Some (t, PTX va), s1)"
      "utab s1 d (PDX va) = Some t" "vm_inv s1 K D xs1 ex" "set xs1 \<subseteq> set xs" "keeps s s1"
      "\<And>d v. d \<in> D \<Longrightarrow> v < UPN \<Longrightarrow> upte s1 d v = upte s d v"
      "\<And>p. p \<notin> set xs \<Longrightarrow> pages s1 p = pages s p \<and> structural s1 D p = structural s D p"
      "\<And>f. f \<noteq> d \<Longrightarrow> f \<notin> set xs \<Longrightarrow> phys s1 f = phys s f"
      "\<And>pp. lean_but s K D xs ex pp \<Longrightarrow> lean_but s1 K D xs1 ex pp"
    show thesis by (rule that [OF a])
  qed
  have np1: "npages s1 = npages s" using k1 by (simp add: keeps_def)
  have r1: "unat (pp_ref (pages s1 pp)) = refs s D pp + ex pp"
    using p1 [OF pp(3)] vm_invD(10) [OF inv pp(1,2)] by simp
  let ?ex = "ex(pp := Suc (ex pp))"
  let ?s2 = "upd_page pp (\<lambda>q. q\<lparr>pp_ref := pp_ref q + 1\<rparr>) s1"
  have inv2: "vm_inv ?s2 K D xs1 ?ex"
  proof (rule vm_inv_pages [OF inv1])
    have "pp \<notin> set xs1" using xs1 pp(3) by auto
    then show "alloc_inv ?s2 xs1" using vm_invD(1) [OF inv1] by (auto simp: alloc_inv_def free_list_def)
    have inc: "unat (pp_ref (pages s1 pp) + 1) = Suc (refs s D pp + ex pp)"
      using r1 small by (simp add: unat_word_ariths)
    show "unat (pp_ref (pages ?s2 q)) = refs s1 D q + ?ex q" if "q < npages s1" "q \<notin> K" for q
    proof (cases "q = pp")
      case True
      have "refs s1 D pp + ex pp = refs s D pp + ex pp"
        using vm_invD(10) [OF inv1 that] r1 True by simp
      with inc True show ?thesis by simp
    next
      case False
      then show ?thesis using vm_invD(10) [OF inv1 that] by simp
    qed
  qed (use vm_invD(3) [OF inv1] in auto)
  have rd: "rd_pte (t, PTX va) ?s2 = upte ?s2 d ?v"
    using t by (simp add: rd_pte_def phys_congs(2) [of ?s2 s1] upte_def vpn_div vpn_mod)
  have u2: "upte ?s2 = upte s1" and ut2: "utab ?s2 = utab s1" and st2: "structural ?s2 = structural s1"
    using phys_congs [of ?s2 s1] by simp_all
  obtain s3 xs3 where rem: "(if PTE_VALID (rd_pte (t, PTX va) ?s2) then page_remove c d va ?s2
       else Some ((), ?s2)) = Some ((), s3)"
    and inv3: "vm_inv s3 K D xs3 ?ex" and k3: "keeps ?s2 s3"
    and u3: "\<And>d' v. d' \<in> D \<Longrightarrow> v < UPN \<Longrightarrow> \<not> (d' = d \<and> v = ?v) \<Longrightarrow> upte s3 d' v = upte ?s2 d' v"
    and old: "\<not> PTE_VALID (upte s3 d ?v)" and t3: "utab s3 d (?v div 1024) = Some t"
    and st3: "structural s3 D pp = structural ?s2 D pp" and f3: "\<And>f. f \<noteq> t \<Longrightarrow> phys s3 f = phys ?s2 f"
    and l3: "lean_but ?s2 K D xs1 ?ex pp \<Longrightarrow> lean_but s3 K D xs3 ?ex pp"
  proof (cases "PTE_VALID (rd_pte (t, PTX va) ?s2)")
    case False
    then show ?thesis using that [of ?s2 xs1] inv2 t rd ut2 by (simp add: vpn_div)
  next
    case True
    show ?thesis
      proof (rule remove_present [OF inv2 d va True [unfolded rd], of c])
      fix s'
      assume r: "page_remove c d va ?s2 = Some ((), s')" "vm_inv s' K D (if refs ?s2 D (PGNUM (upte ?s2 d ?v)) + ?ex (PGNUM (upte ?s2 d ?v)) = 1 then PGNUM (upte ?s2 d ?v) # xs1 else xs1) ?ex" "keeps ?s2 s'"
        and u: "\<And>d' v. d' \<in> D \<Longrightarrow> v < UPN \<Longrightarrow> upte s' d' v = (if d' = d \<and> v = ?v then 0 else upte ?s2 d' v)"
        and ut: "\<And>d' i. d' \<in> D \<Longrightarrow> utab s' d' i = utab ?s2 d' i"
        and st: "\<And>q. structural s' D q = structural ?s2 D q"
        and fr: "\<And>f. utab ?s2 d (PDX va) \<noteq> Some f \<Longrightarrow> phys s' f = phys ?s2 f"
        and rf: "\<And>q. refs s' D q + (if q = PGNUM (upte ?s2 d ?v) then 1 else 0) = refs ?s2 D q"
      show ?thesis
      proof (rule that [OF _ r(2,3)])
        show "(if PTE_VALID (rd_pte (t, PTX va) ?s2) then page_remove c d va ?s2 else Some ((), ?s2)) = Some ((), s')"
          using True r(1) by simp
        show "\<not> PTE_VALID (upte s' d ?v)" using u [OF d v] by simp
        show "utab s' d (?v div 1024) = Some t" using ut [OF d] ut2 t by (simp add: vpn_div)
        show "\<And>f. f \<noteq> t \<Longrightarrow> phys s' f = phys ?s2 f" using fr ut2 t by auto
        show "lean_but s' K D (if refs ?s2 D (PGNUM (upte ?s2 d ?v)) + ?ex (PGNUM (upte ?s2 d ?v)) = 1
            then PGNUM (upte ?s2 d ?v) # xs1 else xs1) ?ex pp" if l: "lean_but ?s2 K D xs1 ?ex pp"
          unfolding lean_but_def
        proof (intro allI impI, elim conjE)
          fix q assume q: "q < npages s'" "q \<notin> K" "q \<noteq> pp" "refs s' D q + ?ex q = 0"
          have np: "npages s' = npages ?s2" using r(3) by (simp add: keeps_def)
          show "q \<in> set (if refs ?s2 D (PGNUM (upte ?s2 d ?v)) + ?ex (PGNUM (upte ?s2 d ?v)) = 1
              then PGNUM (upte ?s2 d ?v) # xs1 else xs1)"
          proof (cases "q = PGNUM (upte ?s2 d ?v)")
            case True
            then show ?thesis using rf [of q] q(4) by simp
          next
            case False
            then have "refs ?s2 D q + ?ex q = 0" using rf [of q] q(4) by simp
            then show ?thesis using l q(1-3) np by (auto simp: lean_but_def)
          qed
        qed
      qed (use u st in auto)
    qed
  qed
  have "pp < npages s3" using k1 k3 pp(1) by (simp add: keeps_def)
  moreover have "\<not> structural s3 D pp" using st3 st2 p1 [OF pp(3)] pp(4) by simp
  ultimately have inv4: "vm_inv (wr_pte (t, ?v mod 1024) ?x s3) K D xs3 ex"
    using old pp(2) by (intro wr_pte_inv [OF inv3 d v t3]) (auto simp: pte_value [OF perm ppb] hits_def)
  show ?thesis
  proof (rule that [OF _ inv4])
    show "page_insert c d pp va perm s = Some (Inr (), wr_pte (t, ?v mod 1024) ?x s3)"
      by (simp add: page_insert_def w rem vpn_mod)
    show "keeps s (wr_pte (t, ?v mod 1024) ?x s3)"
      using k1 k3 by (simp add: keeps_def wr_pte_def)
    show "upte (wr_pte (t, ?v mod 1024) ?x s3) d' v' = (if d' = d \<and> v' = ?v then ?x else upte s d' v')"
      if "d' \<in> D" "v' < UPN" for d' v'
      using wr_upte [OF inv3 d v t3 that, of ?x] u3 [OF that] u1 [OF that] u2 by auto
    show "phys (wr_pte (t, ?v mod 1024) ?x s3) f = phys s f" if "f \<notin> set xs" "\<not> structural s D f" for f
    proof -
      have "structural s1 D t" using t d PDX_UTOP [OF va] by (auto simp: structural_def)
      then have "f \<noteq> t" using p1 [OF that(1)] that(2) by auto
      moreover have "f \<noteq> d" using that(2) d by (auto simp: structural_def)
      ultimately show ?thesis using f1 f3 that(1) by (simp add: wr_pte_def)
    qed
    have rw: "refs (wr_pte (t, ?v mod 1024) ?x s3) D q = refs s3 D q + (if q = pp then 1 else 0)" for q
      using wr_refs [OF inv3 d v t3, of ?x q] old by (auto simp: hits_def pte_value [OF perm ppb])
    then show "0 < refs (wr_pte (t, ?v mod 1024) ?x s3) D pp" by simp
    show "lean_but (wr_pte (t, ?v mod 1024) ?x s3) K D xs3 ex pp" if "lean_but s K D xs ex pp"
    proof -
      have "lean_but ?s2 K D xs1 ?ex pp" using l1 [OF that] phys_congs(3) [of ?s2 s1] by (simp add: lean_but_def)
      from l3 [OF this] rw show ?thesis by (simp add: lean_but_def wr_pte_def)
    qed
  qed
qed

subsection \<open>Correctness of the page-table operations\<close>

text \<open>C2: \<open>page_insert\<close> of a mappable page at a user address keeps the virtual memory invariant
  (every reference count equals the number of mappings, page tables and directories that use the
  page). Either there was neither a page table nor a free page to make one, and it returns
  \<open>E_NO_MEM\<close> with the state unchanged, or it succeeds, and then that address maps the page with the
  given permissions while every other user mapping of every address space is as before; this
  includes inserting the page again where it is already mapped.\<close>

theorem page_insert_spec:
  assumes inv: "vm_inv s K D xs ex" and d: "d \<in> D" and va: "va < UTOP"
    and pp: "pp < npages s" "pp \<notin> K" "pp \<notin> set xs" "\<not> structural s D pp"
    and perm: "perm AND NOT 0xFFF = 0" and small: "refs s D pp + ex pp < 65535"
  shows "if xs = [] \<and> utab s d (PDX va) = None
    then page_insert c d pp va perm s = Some (Inl E_NO_MEM, s)
    else \<exists>s' ys. page_insert c d pp va perm s = Some (Inr (), s') \<and> vm_inv s' K D ys ex \<and>
      keeps s s' \<and> (\<forall>d' v. d' \<in> D \<longrightarrow> v < UPN \<longrightarrow> upte s' d' v =
        (if d' = d \<and> v = PGNUM va then page2pa pp OR perm OR PTE_P else upte s d' v))"
proof (cases "xs = [] \<and> utab s d (PDX va) = None")
  case True
  then show ?thesis using insert_no_memory [of s K D ex d va c pp perm] inv by simp
next
  case False
  then have mem: "xs \<noteq> [] \<or> utab s d (PDX va) \<noteq> None" by simp
  show ?thesis
    by (rule insert_ok [OF inv d va pp perm small mem, of c]) (use False in auto)
qed

text \<open>C15: \<open>page_remove\<close> of an unmapped user address does nothing. Of a mapped one, it clears that
  entry and no other, drops one reference to the page, returns the page to the head of the free
  list exactly when that was its last reference, keeps the virtual memory invariant, and flushes
  the TLB entry if the directory is the one in use.\<close>

theorem page_remove_spec:
  assumes inv: "vm_inv s K D xs ex" and d: "d \<in> D" and va: "va < UTOP"
  shows "if PTE_VALID (upte s d (PGNUM va))
    then let p = PGNUM (upte s d (PGNUM va)) in
      \<exists>s'. page_remove c d va s = Some ((), s') \<and> keeps s s' \<and>
        vm_inv s' K D (if refs s D p + ex p = 1 then p # xs else xs) ex \<and>
        (\<forall>d' v. d' \<in> D \<longrightarrow> v < UPN \<longrightarrow>
           upte s' d' v = (if d' = d \<and> v = PGNUM va then 0 else upte s d' v)) \<and>
        (curenv c s = None \<or> env_pgdir (envs s (the (curenv c s))) = Some d \<longrightarrow>
           va \<in> set (invlpg_log s'))
    else page_remove c d va s = Some ((), s)"
proof (cases "PTE_VALID (upte s d (PGNUM va))")
  case True
  show ?thesis
    by (rule remove_present [OF inv d va True, of c]) (use True in \<open>auto simp: Let_def\<close>)
next
  case False
  with remove_absent [OF inv d va] show ?thesis by simp
qed

text \<open>\<open>page_lookup\<close> of a user address never panics and never changes the state: it finds the
  page and the address of the entry when the entry is present, and nothing otherwise.\<close>

theorem page_lookup_spec:
  assumes inv: "vm_inv s K D xs ex" and d: "d \<in> D" and va: "va < UTOP"
  shows "\<exists>r. page_lookup d va s = Some (r, s) \<and>
    (case r of None \<Rightarrow> \<not> PTE_VALID (upte s d (PGNUM va))
     | Some (pp, pte) \<Rightarrow> PTE_VALID (rd_pte pte s) \<and> rd_pte pte s = upte s d (PGNUM va) \<and>
         pp = PGNUM (rd_pte pte s) \<and> pp < npages s \<and> pp \<notin> set xs)"
proof -
  have "pp \<notin> set xs" if "PTE_VALID (upte s d (PGNUM va))" "pp = PGNUM (upte s d (PGNUM va))" for pp
    using that free_page_unused(1) [OF inv] refs_zeroD(3) [OF vm_invD(2) [OF inv] _ d] va
    by (metis UTOP_less)
  moreover have "PTE_VALID (upte s d (PGNUM va)) \<Longrightarrow> PGNUM (upte s d (PGNUM va)) < npages s"
    using vm_invD(9) [OF inv d, of "PGNUM va"] va by (simp add: UTOP_less)
  moreover have "rd_pte (the (utab s d (PDX va)), PTX va) s = upte s d (PGNUM va)"
    if "PTE_VALID (upte s d (PGNUM va))"
    using that by (auto simp: rd_pte_def upte_def vpn_div vpn_mod split: option.splits)
  ultimately show ?thesis using lookup_eq [OF inv d va] by auto
qed

text \<open>A machine with six pages: frame 0 belongs to the kernel, frame 2 is the directory of an
  address space, frame 3 its page table for addresses from \<open>0x800000\<close>, which maps frame 4 at
  \<open>0x800000\<close>, and frame 5 is free.\<close>

definition small_vm :: kstate where
  "small_vm = zero_state\<lparr>npages := 6, page_free_list := Some 5, pages := (\<lambda>_. zero_page)
     (2 := \<lparr>pp_link = None, pp_ref = 1\<rparr>, 3 := \<lparr>pp_link = None, pp_ref = 1\<rparr>,
      4 := \<lparr>pp_link = None, pp_ref = 1\<rparr>),
     phys := (\<lambda>_ _. 0)(2 := (\<lambda>_. 0)(2 := 0x3007), 3 := (\<lambda>_. 0)(0 := 0x4007))\<rparr>"

lemma small_vm_sel:
  "npages small_vm = 6" "page_free_list small_vm = Some 5"
  "phys small_vm = (\<lambda>_ _. 0)(2 := (\<lambda>_. 0)(2 := 0x3007), 3 := (\<lambda>_. 0)(0 := 0x4007))"
  "pp_ref (pages small_vm p) = (if p \<in> {2, 3, 4} then 1 else 0)" "pp_link (pages small_vm p) = None"
  "curenv c small_vm = None"
  by (simp_all add: small_vm_def zero_state_def zero_page_def curenv_def)

lemma small_vm_utab: "utab small_vm 2 i = (if i = 2 then Some 3 else None)"
  by (simp add: utab_def small_vm_sel PTE_VALID_def pte_bits PGNUM_nat)

lemma small_vm_upte: "upte small_vm 2 v = (if v = 0x800 then 0x4007 else 0)"
proof -
  have "v = 0x800 \<longleftrightarrow> v div 1024 = 2 \<and> v mod 1024 = 0"
    using mult_div_mod_eq [of 1024 v] by auto
  then show ?thesis by (simp only: upte_def small_vm_utab) (simp add: small_vm_sel)
qed

lemmas small_vm_tables = small_vm_utab small_vm_upte

lemma small_vm_pte: "PTE_VALID 0x4007" "PGNUM 0x4007 = 4"
  by (simp_all add: PTE_VALID_def pte_bits PGNUM_nat)

lemma small_vm_refs: "refs small_vm {2} p = (if p \<in> {2, 3, 4} then 1 else 0)"
proof -
  have "maps_to small_vm 2 p = (if p = 4 then {0x800} else {})"
    by (auto simp: maps_to_def small_vm_tables small_vm_pte UPN_def UPDX_def)
  moreover have "tables_at small_vm 2 p = (if p = 3 then {2} else {})"
    by (auto simp: tables_at_def small_vm_tables UPDX_def)
  ultimately show ?thesis by (simp add: refs_def)
qed

lemma small_vm_structural: "structural small_vm {2} p \<longleftrightarrow> p = 2 \<or> p = 3"
  by (auto simp: structural_def small_vm_tables UPDX_def)

lemma small_vm_invK:
  assumes K: "K \<subseteq> {0, 1}" shows "vm_inv small_vm K {2} [5] (\<lambda>_. 0)"
proof (rule vm_invI)
  show "alloc_inv small_vm [5]"
    by (simp add: alloc_inv_def free_list_def small_vm_sel)
  show "PGNUM (upte small_vm d v) < npages small_vm \<and> PGNUM (upte small_vm d v) \<notin> K \<and>
     \<not> structural small_vm {2} (PGNUM (upte small_vm d v))"
    if "d \<in> {2}" "v < UPN" "PTE_VALID (upte small_vm d v)" for d v
    using that K by (auto simp: small_vm_tables small_vm_pte small_vm_structural small_vm_sel split: if_splits)
  show "unat (pp_ref (pages small_vm p)) = refs small_vm {2} p + 0" for p
    by (simp add: small_vm_refs small_vm_sel)
  show "t < npages small_vm \<and> t \<notin> K \<and> t \<notin> {2}"
    if "d \<in> {2}" "i < UPDX" "utab small_vm d i = Some t" for d i t
    using that K by (auto simp: small_vm_tables small_vm_sel split: if_splits)
  show "d = d' \<and> i = i'" if "d \<in> {2}" "d' \<in> {2}" "utab small_vm d i = Some t" "utab small_vm d' i' = Some t"
    for d d' i i' t
    using that by (auto simp: small_vm_tables split: if_splits)
qed (use K in \<open>auto simp: small_vm_sel\<close>)

lemma small_vm_inv: "vm_inv small_vm {0} {2} [5] (\<lambda>_. 0)"
  by (rule small_vm_invK) simp

text \<open>Mapping frame 4 a second time takes the free frame for the page table of the new address.\<close>

theorem page_insert_spec_witness:
  "\<exists>s' ys. page_insert 0 2 4 0xC00000 PTE_W small_vm = Some (Inr (), s') \<and>
     vm_inv s' {0} {2} ys (\<lambda>_. 0) \<and> upte s' 2 0xC00 = page2pa 4 OR PTE_W OR PTE_P"
proof -
  have "(0xC00000 :: u32) < UTOP" "PTE_W AND NOT 0xFFF = 0" by (simp_all add: layout_defs pte_bits)
  then have "\<exists>s' ys. page_insert 0 2 4 0xC00000 PTE_W small_vm = Some (Inr (), s') \<and>
      vm_inv s' {0} {2} ys (\<lambda>_. 0) \<and> keeps small_vm s' \<and>
      (\<forall>d' v. d' \<in> {2} \<longrightarrow> v < UPN \<longrightarrow> upte s' d' v =
        (if d' = 2 \<and> v = PGNUM 0xC00000 then page2pa 4 OR PTE_W OR PTE_P else upte small_vm d' v))"
    using page_insert_spec [OF small_vm_inv, of 2 "0xC00000" 4 PTE_W 0]
    by (simp add: small_vm_sel small_vm_refs small_vm_structural)
  then show ?thesis by (auto simp: PGNUM_nat UPN_def UPDX_def)
qed

theorem page_lookup_spec_witness:
  "\<exists>pte. page_lookup 2 0x800000 small_vm = Some (Some (4, pte), small_vm)"
  using page_lookup_spec [OF small_vm_inv, of 2 "0x800000"]
  by (auto simp: layout_defs small_vm_tables small_vm_pte PGNUM_nat split: option.splits)

text \<open>Removing its only mapping frees frame 4.\<close>

theorem page_remove_spec_witness:
  "\<exists>s'. page_remove 0 2 0x800000 small_vm = Some ((), s') \<and>
     vm_inv s' {0} {2} [4, 5] (\<lambda>_. 0) \<and> 0x800000 \<in> set (invlpg_log s')"
  using page_remove_spec [OF small_vm_inv, of 2 "0x800000" 0]
  by (auto simp: layout_defs small_vm_tables small_vm_pte PGNUM_nat small_vm_refs small_vm_sel Let_def)

end
