(* ===== verification/UserMem.thy ===== *)
theory UserMem
  imports PageTable
begin

text \<open>
  The checks of user pointers in \<^verbatim>\<open>kern/pmap.c\<close>: \<^verbatim>\<open>user_mem_check\<close> walks the pages
  of a range and compares the permissions of each.
\<close>

subsection \<open>The loop\<close>

text \<open>\<open>None\<close> is also the value of a loop that does not end.\<close>

partial_function (option) user_mem_check_loop ::
  "nat \<Rightarrow> u32 \<Rightarrow> u32 \<Rightarrow> u32 \<Rightarrow> u32 \<Rightarrow> kstate \<Rightarrow> (err + unit) kres" where
  [code]: "user_mem_check_loop pgdir va perm current_va end_va s =
     (if current_va < end_va then do {
        (pte, s) \<leftarrow> pgdir_walk pgdir current_va False s;
        if current_va \<ge> ULIM \<or> pte = None \<or>
           (rd_pte (the pte) s OR perm OR PTE_P) \<noteq> rd_pte (the pte) s
        then Some (Inl E_FAULT, s\<lparr>user_mem_check_addr := (if current_va < va then va else current_va)\<rparr>)
        else user_mem_check_loop pgdir va perm (current_va + PGSIZE) end_va s
      }
      else Some (Inr (), s))"

definition user_mem_check :: "nat \<Rightarrow> u32 \<Rightarrow> u32 \<Rightarrow> u32 \<Rightarrow> kstate \<Rightarrow> (err + unit) kres" where
  "user_mem_check env va len perm s = do {
     pgdir \<leftarrow> env_pgdir (envs s env);
     user_mem_check_loop pgdir va perm (ROUNDDOWN va PGSIZE) (ROUNDUP (va + len) PGSIZE) s
   }"

subsection \<open>What the user may access\<close>

definition user_ok :: "kstate \<Rightarrow> nat \<Rightarrow> u32 \<Rightarrow> u32 \<Rightarrow> bool" where
  "user_ok s d perm a \<longleftrightarrow> a < ULIM \<and>
     (case pgdir_walk d a False s of
        Some (Some pte, _) \<Rightarrow> (rd_pte pte s OR perm OR PTE_P) = rd_pte pte s
      | _ \<Rightarrow> False)"

lemma walk_False_same: "pgdir_walk d a False s = Some (r, s') \<Longrightarrow> s' = s"
  by (auto simp: pgdir_walk_def Let_def split: if_splits Option.bind_splits)

lemma walk_page:
  assumes "PGNUM a = PGNUM b" shows "pgdir_walk d a c s = pgdir_walk d b c s"
proof -
  have "PDX a = PDX b" "PTX a = PTX b" using assms vpn_div vpn_mod by metis+
  then show ?thesis by (simp only: pgdir_walk_def)
qed

lemma user_ok_page:
  assumes "PGNUM a = PGNUM b" shows "user_ok s d perm a = user_ok s d perm b"
proof -
  have "x < ULIM \<longleftrightarrow> PGNUM x < 0xEF800" for x
    by (simp add: word_less_nat_alt layout_defs PGNUM_nat div_less_iff_less_mult)
  then have "a < ULIM \<longleftrightarrow> b < ULIM" using assms by simp
  then show ?thesis by (simp add: user_ok_def walk_page [OF assms])
qed

definition pg :: "nat \<Rightarrow> u32" where "pg i = of_nat (4096 * i)"

lemma unat_pg: "i < 1048576 \<Longrightarrow> unat (pg i) = 4096 * i"
  unfolding pg_def by (simp only: unat_of_nat) simp

lemma pg_Suc: "pg i + PGSIZE = pg (Suc i)"
  by (simp add: pg_def layout_defs)

lemma check_loop_pages:
  assumes "i \<le> j" "j < 1048576" "\<And>a. a < pg j \<Longrightarrow> pgdir_walk d a False s \<noteq> None"
  shows "user_mem_check_loop d va perm (pg i) (pg j) s =
    (case find (\<lambda>k. \<not> user_ok s d perm (pg k)) [i..<j] of
       None \<Rightarrow> Some (Inr (), s)
     | Some k \<Rightarrow> Some (Inl E_FAULT, s\<lparr>user_mem_check_addr := max va (pg k)\<rparr>))"
  using assms(1)
proof (induction i rule: inc_induct)
  case base
  then show ?case by (subst user_mem_check_loop.simps) simp
next
  case (step i)
  have lt: "pg i < pg j" using step(2) assms(2) by (simp add: word_less_nat_alt unat_pg)
  obtain r where r: "pgdir_walk d (pg i) False s = Some (r, s)"
    using assms(3) [OF lt] walk_False_same by (metis option.exhaust surj_pair)
  have "[i..<j] = i # [Suc i..<j]" using step(2) by (simp add: upt_rec)
  then show ?case
    using lt r step.IH
    by (subst user_mem_check_loop.simps)
      (auto simp: user_ok_def max_def pg_Suc not_le not_less split: option.splits)
qed


subsection \<open>Soundness of the check, and where it ends\<close>

lemma ROUNDDOWN_pg: "ROUNDDOWN a PGSIZE = pg (unat a div 4096)"
proof -
  have "unat a < 2 ^ LENGTH(32)" by (rule unsigned_less)
  then have "unat (pg (unat a div 4096)) = 4096 * (unat a div 4096)" by (intro unat_pg) simp
  then have "unat (ROUNDDOWN a PGSIZE) = unat (pg (unat a div 4096))"
    by (simp add: unat_ROUNDDOWN_mult PGSIZE_def)
  then show ?thesis by (simp add: word_unat_eq_iff)
qed

lemma unat_add_wrap:
  fixes a b :: u32
  shows "unat (a + b) = (if unat a + unat b < 4294967296 then unat a + unat b
     else unat a + unat b - 4294967296)"
proof -
  have "unat a < 2 ^ LENGTH(32)" "unat b < 2 ^ LENGTH(32)" by (rule unsigned_less)+
  then show ?thesis by (simp add: unat_word_ariths) (simp add: mod_if)
qed

lemma ROUNDUP_pg: "ROUNDUP a PGSIZE = pg (unat (a + 4095) div 4096)"
  by (simp add: ROUNDUP_def ROUNDDOWN_pg [symmetric]) (simp add: PGSIZE_def add.commute)

lemma pg_page: "i < 1048576 \<Longrightarrow> PGNUM (pg i) = i"
  by (simp add: PGNUM_nat unat_pg)

text \<open>C11: For a non-empty range that does not come within a page of the top of the address space,
  \<open>user_mem_check\<close> returns, without changing anything else, 0 when every byte of the range lies
  below \<open>ULIM\<close> and is mapped with the permissions asked for, and \<open>-E_FAULT\<close> otherwise, with
  \<open>user_mem_check_addr\<close> the first byte of the range that fails.\<close>

theorem user_mem_check_spec:
  assumes env: "env_pgdir (envs s e) = Some d" and len: "0 < unat len"
    and range: "unat va + unat len + 4095 < 2 ^ 32"
    and walks: "\<And>a. unat a < unat va + unat len + 4095 \<Longrightarrow> pgdir_walk d a False s \<noteq> None"
  shows "if \<forall>a. va \<le> a \<and> unat a < unat va + unat len \<longrightarrow> user_ok s d perm a
    then user_mem_check e va len perm s = Some (Inr (), s)
    else \<exists>b. va \<le> b \<and> unat b < unat va + unat len \<and> \<not> user_ok s d perm b \<and>
      (\<forall>a. va \<le> a \<and> a < b \<longrightarrow> user_ok s d perm a) \<and>
      user_mem_check e va len perm s = Some (Inl E_FAULT, s\<lparr>user_mem_check_addr := b\<rparr>)"
proof -
  let ?i = "unat va div 4096" and ?j = "(unat va + unat len + 4095) div 4096"
  let ?bad = "\<lambda>k. \<not> user_ok s d perm (pg k)"
  have j: "?j < 1048576" using range by (simp add: div_less_iff_less_mult)
  have ij: "?i \<le> ?j" by (rule div_le_mono) simp
  have "unat (va + len + 4095) = unat va + unat len + 4095"
    using range by (simp add: unat_add_wrap)
  then have up: "ROUNDUP (va + len) PGSIZE = pg ?j" by (simp add: ROUNDUP_pg)
  have w: "pgdir_walk d a False s \<noteq> None" if "a < pg ?j" for a
    using that walks [of a] j by (simp add: word_less_nat_alt unat_pg)
  have run: "user_mem_check e va len perm s = (case find ?bad [?i..<?j] of
       None \<Rightarrow> Some (Inr (), s)
     | Some k \<Rightarrow> Some (Inl E_FAULT, s\<lparr>user_mem_check_addr := max va (pg k)\<rparr>))"
    by (simp only: user_mem_check_def env bind.bind_lunit ROUNDDOWN_pg up check_loop_pages [OF ij j w])
  have first: "unat (max va (pg k)) = max (unat va) (4096 * k)" "PGNUM (max va (pg k)) = k"
    "unat (max va (pg k)) < unat va + unat len" if "?i \<le> k" "k < ?j" for k
  proof -
    show m: "unat (max va (pg k)) = max (unat va) (4096 * k)"
      using that j by (simp add: max_def word_le_nat_alt unat_pg)
    have "k \<le> (unat va + unat len + 4095) div 4096 - 1" using that(2) by simp
    then show "PGNUM (max va (pg k)) = k" "unat (max va (pg k)) < unat va + unat len"
      using that len unfolding PGNUM_nat m by (auto simp: max_def div_le_mono)
  qed
  have page: "user_ok s d perm a = user_ok s d perm (pg (PGNUM a))" for a
  proof (rule user_ok_page)
    have "unat a < 2 ^ LENGTH(32)" by (rule unsigned_less)
    then show "PGNUM a = PGNUM (pg (PGNUM a))" by (intro pg_page [symmetric]) (simp add: PGNUM_nat)
  qed
  have inside: "?i \<le> PGNUM a \<and> PGNUM a < ?j" if "va \<le> a" "unat a < unat va + unat len" for a
  proof -
    have "unat a div 4096 < (unat va + unat len + 4095) div 4096"
      using that(2) by linarith
    then show ?thesis using that(1) by (simp add: PGNUM_nat word_le_nat_alt div_le_mono)
  qed
  show ?thesis
  proof (cases "find ?bad [?i..<?j]")
    case None
    then have "\<forall>a. va \<le> a \<and> unat a < unat va + unat len \<longrightarrow> user_ok s d perm a"
      using inside page by (auto simp: find_None_iff)
    then show ?thesis using run None by simp
  next
    case (Some k)
    then obtain n where n: "n < ?j - ?i" "?bad k" "k = ?i + n" "\<And>m. m < n \<Longrightarrow> \<not> ?bad (?i + m)"
      by (auto simp: find_Some_iff)
    then have k: "?i \<le> k" "k < ?j" by auto
    let ?b = "max va (pg k)"
    have b: "va \<le> ?b" "unat ?b < unat va + unat len" "\<not> user_ok s d perm ?b"
      using first [OF k] n(2) page [of ?b] by auto
    have "user_ok s d perm a" if "va \<le> a" "a < ?b" for a
    proof -
      have "unat a < unat ?b" using that(2) by (simp add: word_less_nat_alt)
      then have in': "?i \<le> PGNUM a" "unat a < 4096 * k"
        using that(1) first(1) [OF k] inside [OF that(1)] b(2) by (auto simp: word_le_nat_alt)
      then have "PGNUM a < k" by (simp add: PGNUM_nat div_less_iff_less_mult mult.commute)
      then have "\<not> ?bad (?i + (PGNUM a - ?i))" using in'(1) n(3) by (intro n(4)) simp
      then show ?thesis using page [of a] in'(1) by simp
    qed
    moreover have "\<not> (\<forall>a. va \<le> a \<and> unat a < unat va + unat len \<longrightarrow> user_ok s d perm a)"
      using b by blast
    ultimately show ?thesis using run Some b by (subst if_not_P) (assumption, intro exI [of _ ?b], simp)
  qed
qed


text \<open>An environment whose directory is the address space of \<open>small_vm\<close>.\<close>

definition small_vm_env :: kstate where
  "small_vm_env = small_vm\<lparr>envs := (\<lambda>_. zero_env\<lparr>env_pgdir := Some 2\<rparr>)\<rparr>"

lemma small_vm_env_walk:
  "pgdir_walk 2 a False small_vm_env =
     Some (if PDX a = 2 then Some (3, PTX a) else None, small_vm_env)"
proof -
  have "KADDR (PTE_ADDR 0x3007) small_vm_env = Some 3" 
    by (simp add: KADDR_def) (simp add: PGNUM_nat small_vm_env_def small_vm_sel)
  then show ?thesis
    by (simp add: pgdir_walk_def small_vm_env_def small_vm_sel PTE_VALID_def pte_bits)
qed

theorem user_mem_check_spec_witness:
  "\<exists>b. b \<ge> 0x800FF0 \<and> user_mem_check 0 0x800FF0 0x20 PTE_U small_vm_env
     = Some (Inl E_FAULT, small_vm_env\<lparr>user_mem_check_addr := b\<rparr>)"
proof -
  have "\<not> user_ok small_vm_env 2 PTE_U 0x801000"
    by (simp add: user_ok_def small_vm_env_walk PDX_nat PTX_nat)
      (simp add: rd_pte_def small_vm_env_def small_vm_sel pte_bits)
  then have no: "\<not> (\<forall>a. 0x800FF0 \<le> a \<and> unat a < unat (0x800FF0 :: u32) + unat (0x20 :: u32)
      \<longrightarrow> user_ok small_vm_env 2 PTE_U a)"
    by (intro notI) (drule spec [of _ "0x801000"], simp)
  have "env_pgdir (envs small_vm_env 0) = Some 2" by (simp add: small_vm_env_def)
  have "0 < unat (0x20 :: u32)" "unat (0x800FF0 :: u32) + unat (0x20 :: u32) + 4095 < 2 ^ 32" by simp_all
  from if_notD [OF user_mem_check_spec [OF \<open>env_pgdir _ = _\<close> this] no] show ?thesis
    by (auto simp: small_vm_env_walk)
qed


end
