(* ===== verification/Printfmt.thy ===== *)
theory Printfmt
  imports Prelude "HOL-Library.Char_ord"
begin

text \<open>
  Formatted output, \<^verbatim>\<open>lib/printfmt.c\<close>, which kernel and user programs share. A format is a
  \<open>string\<close> that ends at its end or at a zero character; the variadic arguments are a list of
  values with their C types; \<open>putch\<close> is the callback, a function on its own state \<open>'s\<close>. The
  value \<open>None\<close> is undefined behaviour (an argument that is missing or has another type) or an
  endless recursion.
\<close>

type_synonym u64 = "64 word"

subsection \<open>Arguments\<close>

datatype va = VInt u32 | VQuad u64 | VStr "string option"

fun va_int :: "va list \<Rightarrow> (u32 \<times> va list) option" where
  "va_int (VInt w # ap) = Some (w, ap)"
| "va_int _ = None"

fun va_quad :: "va list \<Rightarrow> (u64 \<times> va list) option" where
  "va_quad (VQuad w # ap) = Some (w, ap)"
| "va_quad _ = None"

fun va_str :: "va list \<Rightarrow> (string option \<times> va list) option" where
  "va_str (VStr p # ap) = Some (p, ap)"
| "va_str _ = None"

text \<open>\<^verbatim>\<open>long\<close> has 32 bits on this machine.\<close>

definition getuint :: "va list \<Rightarrow> nat \<Rightarrow> (u64 \<times> va list) option" where
  "getuint ap lflag =
     (if lflag \<ge> 2 then va_quad ap else do { (w, ap) \<leftarrow> va_int ap; Some (ucast w, ap) })"

definition getint :: "va list \<Rightarrow> nat \<Rightarrow> (u64 \<times> va list) option" where
  "getint ap lflag =
     (if lflag \<ge> 2 then va_quad ap else do { (w, ap) \<leftarrow> va_int ap; Some (scast w, ap) })"

subsection \<open>Characters and numbers\<close>

text \<open>An \<^verbatim>\<open>unsigned char\<close> and a \<^verbatim>\<open>char\<close>, which is signed, as an \<^verbatim>\<open>int\<close>.\<close>

definition uch :: "char \<Rightarrow> u32" where "uch c = of_char c"

definition sch :: "char \<Rightarrow> u32" where "sch c = scast (of_char c :: u8)"

definition NUL :: char where "NUL = CHR 0x00"

fun put_n :: "(u32 \<Rightarrow> 's \<Rightarrow> 's) \<Rightarrow> u32 \<Rightarrow> nat \<Rightarrow> 's \<Rightarrow> 's" where
  "put_n putch c 0 st = st"
| "put_n putch c (Suc n) st = put_n putch c n (putch c st)"

partial_function (option) printnum ::
  "(u32 \<Rightarrow> 's \<Rightarrow> 's) \<Rightarrow> u64 \<Rightarrow> u64 \<Rightarrow> int \<Rightarrow> u32 \<Rightarrow> 's \<Rightarrow> 's option" where
  [code]: "printnum putch num base width padc st = do {
     st \<leftarrow> (if num \<ge> base then printnum putch (num div base) base (width - 1) padc st
           else Some (put_n putch padc (nat (width - 1)) st));
     Some (putch (uch (''0123456789abcdef'' ! unat (num mod base))) st)
   }"

subsection \<open>Flags, width and precision\<close>

record fspec =
  padc :: u32
  width :: int
  precision :: int
  lflag :: nat
  altflag :: bool

definition fspec0 :: fspec where
  "fspec0 = \<lparr>padc = uch CHR '' '', width = -1, precision = -1, lflag = 0, altflag = False\<rparr>"

definition is_digit :: "char \<Rightarrow> bool" where
  "is_digit c \<longleftrightarrow> CHR ''0'' \<le> c \<and> c \<le> CHR ''9''"

lemma is_digit_lit [simp]:
  "is_digit CHR ''0''" "\<not> is_digit CHR ''-''" "\<not> is_digit CHR ''*''" "\<not> is_digit CHR ''.''"
  "\<not> is_digit CHR ''#''" "\<not> is_digit CHR ''l''"
  by (simp_all add: is_digit_def less_eq_char_def)

text \<open>The digits after \<open>ch\<close>; the value and the rest of the format.\<close>

fun digits :: "int \<Rightarrow> char \<Rightarrow> string \<Rightarrow> int \<times> string" where
  "digits p ch fmt =
     (let p = p * 10 + of_char ch - of_char CHR ''0'' in
      case fmt of c # cs \<Rightarrow> if is_digit c then digits p c cs else (p, fmt) | [] \<Rightarrow> (p, fmt))"

declare digits.simps [simp del]

definition process_precision :: "fspec \<Rightarrow> fspec" where
  "process_precision sp =
     (if width sp < 0 then sp\<lparr>width := precision sp, precision := -1\<rparr> else sp)"

lemma length_digits: "length (snd (digits p ch fmt)) \<le> length fmt"
proof (induction p ch fmt rule: digits.induct)
  case (1 p ch fmt)
  show ?case
  proof (cases fmt)
    case Nil
    then show ?thesis by (simp add: digits.simps)
  next
    case (Cons c cs)
    then show ?thesis using 1 [OF refl Cons] by (auto simp: digits.simps [of p ch] Let_def intro: le_SucI)
  qed
qed

text \<open>
  From the character after the percent sign to the conversion character: the specification read, the
  conversion (\<open>None\<close> at the end of the format), the rest of the format and the arguments left.
\<close>

function flags :: "fspec \<Rightarrow> string \<Rightarrow> va list \<Rightarrow> (fspec \<times> char option \<times> string \<times> va list) option" where
  "flags sp [] ap = Some (sp, None, [], ap)"
| "flags sp (ch # fmt) ap =
     (if ch = CHR ''-'' then flags (sp\<lparr>padc := uch CHR ''-''\<rparr>) fmt ap
      else if ch = CHR ''0'' then flags (sp\<lparr>padc := uch CHR ''0''\<rparr>) fmt ap
      else if is_digit ch then
        flags (process_precision (sp\<lparr>precision := fst (digits 0 ch fmt)\<rparr>)) (snd (digits 0 ch fmt)) ap
      else if ch = CHR ''*'' then do {
        (w, ap) \<leftarrow> va_int ap;
        flags (process_precision (sp\<lparr>precision := sint w\<rparr>)) fmt ap
      }
      else if ch = CHR ''.'' then flags (if width sp < 0 then sp\<lparr>width := 0\<rparr> else sp) fmt ap
      else if ch = CHR ''#'' then flags (sp\<lparr>altflag := True\<rparr>) fmt ap
      else if ch = CHR ''l'' then flags (sp\<lparr>lflag := Suc (lflag sp)\<rparr>) fmt ap
      else Some (sp, Some ch, fmt, ap))"
  by pat_completeness auto
termination
  by (relation "measure (\<lambda>(_, fmt, _). length fmt)") (use length_digits in \<open>auto simp: less_Suc_eq_le\<close>)

lemma flags_step:
  "flags sp (ch # fmt) ap = Some r \<Longrightarrow> r = (sp, Some ch, fmt, ap) \<or>
     (\<exists>sp' fmt' ap'. length fmt' \<le> length fmt \<and> flags sp' fmt' ap' = Some r)"
  using length_digits [of 0 ch fmt]
  by (simp split: if_splits Option.bind_splits prod.splits) blast+

lemma flags_length: "flags sp fmt ap = Some (sp', c, rest, ap') \<Longrightarrow> length rest \<le> length fmt"
proof (induction "length fmt" arbitrary: sp fmt ap rule: less_induct)
  case less
  show ?case
  proof (cases fmt)
    case Nil
    with less.prems show ?thesis by simp
  next
    case (Cons ch fmt')
    from flags_step [OF less.prems [unfolded Cons]] less.hyps show ?thesis
      unfolding Cons by (elim disjE exE) (auto simp: less_Suc_eq_le intro: le_SucI, fastforce intro: le_SucI le_trans)
  qed
qed

subsection \<open>Conversions\<close>

text \<open>\<^verbatim>\<open>strnlen\<close> of \<^verbatim>\<open>lib/string.c\<close>.\<close>

fun strnlen :: "string \<Rightarrow> nat \<Rightarrow> nat" where
  "strnlen (c # s) (Suc n) = (if c = NUL then 0 else Suc (strnlen s n))"
| "strnlen _ _ = 0"

text \<open>The characters of a string and the padding after them.\<close>

fun put_chars :: "(u32 \<Rightarrow> 's \<Rightarrow> 's) \<Rightarrow> bool \<Rightarrow> int \<Rightarrow> int \<Rightarrow> string \<Rightarrow> 's \<Rightarrow> 's" where
  "put_chars putch alt prec w [] st = put_n putch (uch CHR '' '') (nat w) st"
| "put_chars putch alt prec w (c # p) st =
     (if c \<noteq> NUL \<and> (prec < 0 \<or> prec - 1 \<ge> 0)
      then put_chars putch alt (if prec < 0 then prec else prec - 1) (w - 1) p
             (if alt \<and> (sint (sch c) < 32 \<or> sint (sch c) > 126) then putch (uch CHR ''?'') st else putch (sch c) st)
      else put_n putch (uch CHR '' '') (nat w) st)"

definition put_str :: "(u32 \<Rightarrow> 's \<Rightarrow> 's) \<Rightarrow> fspec \<Rightarrow> string option \<Rightarrow> 's \<Rightarrow> 's" where
  "put_str putch sp p st =
     (let p = (case p of None \<Rightarrow> ''(null)'' | Some p \<Rightarrow> p);
          w = width sp;
          before = w > 0 \<and> padc sp \<noteq> uch CHR ''-'';
          left = w - int (strnlen p (unat (word_of_int (precision sp) :: u32)));
          st = (if before then put_n putch (padc sp) (nat left) st else st);
          w = (if before then min left 0 else w)
      in put_chars putch (altflag sp) (precision sp) w p st)"

definition put_signed :: "(u32 \<Rightarrow> 's \<Rightarrow> 's) \<Rightarrow> fspec \<Rightarrow> u64 \<Rightarrow> 's \<Rightarrow> 's option" where
  "put_signed putch sp num st =
     (if sint num < 0 then printnum putch (- num) 10 (width sp) (padc sp) (putch (uch CHR ''-'') st)
      else printnum putch num 10 (width sp) (padc sp) st)"

fun error_string :: "nat \<Rightarrow> string option" where
  "error_string n =
     (if n = 0 \<or> n > 15 then None
      else Some ([''unspecified error'', ''bad environment'', ''invalid parameter'', ''out of memory'',
        ''out of environments'', ''segmentation fault'', ''env is not recving'', ''unexpected end of file'',
        ''no free space on disk'', ''too many files are open'', ''file or block not found'',
        ''invalid path'', ''file already exists'', ''file is not a valid executable'',
        ''operation not supported''] ! (n - 1)))"

text \<open>The calls of \<^verbatim>\<open>printfmt\<close> with the formats \<^verbatim>\<open>error %d\<close> and \<^verbatim>\<open>%s\<close>; see \<open>put_error_printfmt\<close>.
  The error code is negated when it is negative, which the least integer survives.\<close>

definition put_error :: "(u32 \<Rightarrow> 's \<Rightarrow> 's) \<Rightarrow> u32 \<Rightarrow> 's \<Rightarrow> 's option" where
  "put_error putch err st =
     (let err = (if sint err < 0 then - err else err) in
      if sint err < 0 then None
      else case error_string (unat err) of
        None \<Rightarrow> put_signed putch fspec0 (scast err) (fold (\<lambda>c. putch (uch c)) ''error '' st)
      | Some p \<Rightarrow> Some (put_str putch fspec0 (Some p) st))"

definition conv_known :: "char option \<Rightarrow> bool" where
  "conv_known c \<longleftrightarrow> c \<in> Some ` set ''cesduopx%''"

definition convert :: "(u32 \<Rightarrow> 's \<Rightarrow> 's) \<Rightarrow> fspec \<Rightarrow> char \<Rightarrow> va list \<Rightarrow> 's \<Rightarrow> (va list \<times> 's) option" where
  "convert putch sp ch ap st =
     (if ch = CHR ''c'' then do { (w, ap) \<leftarrow> va_int ap; Some (ap, putch w st) }
      else if ch = CHR ''e'' then do { (w, ap) \<leftarrow> va_int ap; st \<leftarrow> put_error putch w st; Some (ap, st) }
      else if ch = CHR ''s'' then do { (p, ap) \<leftarrow> va_str ap; Some (ap, put_str putch sp p st) }
      else if ch = CHR ''d'' then do {
        (num, ap) \<leftarrow> getint ap (lflag sp);
        st \<leftarrow> put_signed putch sp num st;
        Some (ap, st) }
      else if ch = CHR ''u'' then do {
        (num, ap) \<leftarrow> getuint ap (lflag sp);
        st \<leftarrow> printnum putch num 10 (width sp) (padc sp) st;
        Some (ap, st) }
      else if ch = CHR ''o'' then do {
        (num, ap) \<leftarrow> getuint ap (lflag sp);
        st \<leftarrow> printnum putch num 8 (width sp) (padc sp) st;
        Some (ap, st) }
      else if ch = CHR ''p'' then do {
        (w, ap) \<leftarrow> va_int ap;
        st \<leftarrow> printnum putch (ucast w) 16 (width sp) (padc sp) (putch (uch CHR ''x'') (putch (uch CHR ''0'') st));
        Some (ap, st) }
      else if ch = CHR ''x'' then do {
        (num, ap) \<leftarrow> getuint ap (lflag sp);
        st \<leftarrow> printnum putch num 16 (width sp) (padc sp) st;
        Some (ap, st) }
      else if ch = CHR ''%'' then Some (ap, putch (uch ch) st)
      else None)"

text \<open>An unknown conversion prints the percent sign and goes on with the text after it.\<close>

function vprintfmt :: "(u32 \<Rightarrow> 's \<Rightarrow> 's) \<Rightarrow> string \<Rightarrow> va list \<Rightarrow> 's \<Rightarrow> 's option" where
  "vprintfmt putch [] ap st = Some st"
| "vprintfmt putch (ch # fmt) ap st =
     (if ch \<noteq> CHR ''%'' then
        if ch = NUL then Some st else vprintfmt putch fmt ap (putch (uch ch) st)
      else do {
        (sp, conv, rest, ap) \<leftarrow> flags fspec0 fmt ap;
        if conv_known conv then do {
          (ap, st) \<leftarrow> convert putch sp (the conv) ap st;
          vprintfmt putch rest ap st
        }
        else vprintfmt putch fmt ap (putch (uch CHR ''%'') st)
      })"
  by pat_completeness auto
termination
  by (relation "measure (\<lambda>(_, fmt, _, _). length fmt)") (auto dest: flags_length)


subsection \<open>The output does not depend on the callback\<close>

text \<open>A callback \<open>q\<close> that follows \<open>p\<close> through \<open>h\<close>: formatting commutes with \<open>h\<close>.\<close>

definition follows :: "('s \<Rightarrow> 't) \<Rightarrow> (u32 \<Rightarrow> 's \<Rightarrow> 's) \<Rightarrow> (u32 \<Rightarrow> 't \<Rightarrow> 't) \<Rightarrow> bool" where
  "follows h p q \<longleftrightarrow> (\<forall>c st. h (p c st) = q c (h st))"

lemma followsD: "follows h p q \<Longrightarrow> q c (h st) = h (p c st)"
  by (simp add: follows_def)

lemma follows_put_n: "follows h p q \<Longrightarrow> put_n q c n (h st) = h (put_n p c n st)"
  by (induction n arbitrary: st) (auto simp: followsD)

lemma follows_fold: "follows h p q \<Longrightarrow> fold (\<lambda>c. q (f c)) xs (h st) = h (fold (\<lambda>c. p (f c)) xs st)"
  by (induction xs arbitrary: st) (auto simp: followsD)

fun nat_digits :: "nat \<Rightarrow> nat \<Rightarrow> nat list" where
  "nat_digits b n = (if n < b \<or> b < 2 then [n] else nat_digits b (n div b) @ [n mod b])"

declare nat_digits.simps [simp del]

definition digit_chars :: "nat \<Rightarrow> nat \<Rightarrow> u32 list" where
  "digit_chars b n = map (\<lambda>d. uch (''0123456789abcdef'' ! d)) (nat_digits b n)"

lemma put_n_fold: "put_n putch c n st = fold putch (replicate n c) st"
  by (induction n arbitrary: st) auto

lemma printnum_out:
  assumes b: "2 \<le> unat base"
  shows "printnum putch num base w pc st =
    Some (fold putch (replicate (nat (w - int (length (nat_digits (unat base) (unat num))))) pc
      @ digit_chars (unat base) (unat num)) st)"
proof (induction "unat num" arbitrary: num w rule: less_induct)
  case less
  show ?case
  proof (cases "num < base")
    case True
    then have n: "nat_digits (unat base) (unat num) = [unat num]"
      by (simp add: nat_digits.simps word_less_nat_alt)
    have nle: "\<not> base \<le> num" using True by simp
    have "num mod base = num" using True by (simp add: word_unat_eq_iff unat_mod word_less_nat_alt)
    then show ?thesis
      by (subst printnum.simps) (simp add: nle n digit_chars_def put_n_fold)
  next
    case False
    then have le: "unat base \<le> unat num" by (simp add: not_less word_le_nat_alt)
    then have n: "nat_digits (unat base) (unat num) = nat_digits (unat base) (unat (num div base)) @ [unat (num mod base)]"
      using b by (simp add: nat_digits.simps [of _ "unat num"] unat_div unat_mod)
    have "unat (num div base) < unat num" using le b by (simp add: unat_div)
    from less.hyps [OF this, of "w - 1"] show ?thesis
      using False by (subst printnum.simps) (simp add: n digit_chars_def not_less diff_diff_eq algebra_simps)
  qed
qed

lemma nat_digits_value: "2 \<le> b \<Longrightarrow> foldl (\<lambda>a d. a * b + d) 0 (nat_digits b n) = n"
proof (induction b n rule: nat_digits.induct)
  case (1 b n)
  then show ?case by (auto simp: nat_digits.simps [of b n])
qed

lemma nat_digits_less: "2 \<le> b \<Longrightarrow> d \<in> set (nat_digits b n) \<Longrightarrow> d < b"
proof (induction b n rule: nat_digits.induct)
  case (1 b n)
  then show ?case by (auto simp: nat_digits.simps [of b n] split: if_splits)
qed


lemma nat_digits_hd: "2 \<le> b \<Longrightarrow> 0 < n \<Longrightarrow> nat_digits b n \<noteq> [] \<and> hd (nat_digits b n) \<noteq> 0"
proof (induction b n rule: nat_digits.induct)
  case (1 b n)
  then show ?case by (auto simp: nat_digits.simps [of b n] div_greater_zero_iff)
qed

lemma nat_digits_0: "2 \<le> b \<Longrightarrow> nat_digits b 0 = [0]"
  by (simp add: nat_digits.simps)

text \<open>\<open>printnum\<close> prints the digits of the number in the base, most significant first and without
  leading zeros, right-justified in the field: reading the digits back gives the number.\<close>

theorem printnum_spec:
  assumes "2 \<le> unat base" "unat base \<le> 16"
  shows "\<exists>ds. printnum (\<lambda>c out. out @ [c]) num base w pc [] =
      Some (replicate (nat (w - int (length ds))) pc @ map (\<lambda>d. uch (''0123456789abcdef'' ! d)) ds) \<and>
    foldl (\<lambda>a d. a * unat base + d) 0 ds = unat num \<and> (\<forall>d \<in> set ds. d < unat base) \<and>
    (if num = 0 then ds = [0] else hd ds \<noteq> 0)"
proof -
  have app: "fold (\<lambda>c out. out @ [c]) xs ys = ys @ xs" for xs ys :: "u32 list"
    by (induction xs arbitrary: ys) auto
  have "0 < unat num" if "num \<noteq> 0" using that by (simp add: unat_gt_0)
  then show ?thesis
    using assms nat_digits_value [OF assms(1)] nat_digits_hd [OF assms(1)]
    by (intro exI [of _ "nat_digits (unat base) (unat num)"])
      (auto simp: printnum_out app digit_chars_def nat_digits_less nat_digits_0 simp del: fold_replicate)
qed

theorem printnum_spec_witness:
  "printnum (\<lambda>c out. out @ [c]) 255 16 4 (uch CHR ''0'') [] = Some (map uch ''00ff'') \<and>
   (\<exists>ds. foldl (\<lambda>a d. a * 16 + d) 0 ds = 255 \<and>
      printnum (\<lambda>c out. out @ [c]) 255 16 4 (uch CHR ''0'') [] =
        Some (replicate (nat (4 - int (length ds))) (uch CHR ''0'') @ map (\<lambda>d. uch (''0123456789abcdef'' ! d)) ds))"
proof -
  have "nat_digits 16 255 = [15, 15]" by (simp add: nat_digits.simps)
  moreover have "replicate 2 x = [x, x]" for x :: u32 by (simp add: numeral_2_eq_2)
  ultimately have "printnum (\<lambda>c out. out @ [c]) 255 16 4 (uch CHR ''0'') [] = Some (map uch ''00ff'')"
    by (simp add: printnum_out digit_chars_def del: fold_replicate)
  moreover have "\<exists>ds. foldl (\<lambda>a d. a * 16 + d) 0 ds = 255 \<and>
      printnum (\<lambda>c out. out @ [c]) 255 16 4 (uch CHR ''0'') [] =
        Some (replicate (nat (4 - int (length ds))) (uch CHR ''0'') @ map (\<lambda>d. uch (''0123456789abcdef'' ! d)) ds)"
    using printnum_spec [of 16 255 4 "uch CHR ''0''"] by auto
  ultimately show ?thesis by blast
qed

lemma follows_printnum:
  assumes "follows h p q" "2 \<le> unat base"
  shows "printnum q num base w pc (h st) = map_option h (printnum p num base w pc st)"
  using follows_fold [OF assms(1), of id] by (simp add: printnum_out [OF assms(2)] del: fold_append fold_replicate)

lemma follows_put_chars:
  "follows h p q \<Longrightarrow> put_chars q alt prec w s (h st) = h (put_chars p alt prec w s st)"
proof (induction s arbitrary: alt prec w st)
  case Nil
  show ?case by (simp add: follows_put_n [OF Nil.prems])
next
  case (Cons c s)
  show ?case by (auto simp: follows_put_n [OF Cons.prems] followsD [OF Cons.prems] Cons.IH [OF Cons.prems])
qed

lemma follows_put_str:
  assumes "follows h p q"
  shows "put_str q sp s (h st) = h (put_str p sp s st)"
  by (simp add: put_str_def Let_def follows_put_n [OF assms] follows_put_chars [OF assms])

lemma follows_put_signed:
  assumes "follows h p q"
  shows "put_signed q sp num (h st) = map_option h (put_signed p sp num st)"
  by (simp add: put_signed_def follows_printnum [OF assms] followsD [OF assms])

lemma follows_put_error:
  assumes "follows h p q"
  shows "put_error q err (h st) = map_option h (put_error p err st)"
  by (simp add: put_error_def Let_def follows_put_signed [OF assms] followsD [OF assms] follows_put_str [OF assms]
      del: error_string.simps split: option.splits)

lemma follows_convert:
  assumes "follows h p q"
  shows "convert q sp ch ap (h st) = map_option (map_prod id h) (convert p sp ch ap st)"
  by (simp add: convert_def follows_printnum [OF assms] followsD [OF assms] follows_put_signed [OF assms]
      follows_put_error [OF assms] follows_put_str [OF assms] bind_map_option map_option_bind o_def split_def)

lemma follows_vprintfmt:
  assumes "follows h p q"
  shows "vprintfmt q fmt ap (h st) = map_option h (vprintfmt p fmt ap st)"
  using assms
proof (induction p fmt ap st rule: vprintfmt.induct)
  case (1 putch ap st)
  then show ?case by simp
next
  case (2 putch ch fmt ap st)
  note q = followsD [OF "2.prems"] follows_convert [OF "2.prems"]
  consider "ch \<noteq> CHR ''%'' \<and> ch = NUL" | "ch \<noteq> CHR ''%'' \<and> ch \<noteq> NUL" | "ch = CHR ''%''" by blast
  then show ?case
  proof cases
    case 1
    then show ?thesis by auto
  next
    case A: 2
    then show ?thesis using "2.IH"(1) [OF _ _ "2.prems"] by (simp add: q)
  next
    case A: 3
    show ?thesis
    proof (cases "flags fspec0 fmt ap")
      case None
      with A show ?thesis by simp
    next
      case (Some r)
      obtain sp conv rest ap' where r: "r = (sp, conv, rest, ap')" by (metis prod_cases4)
      show ?thesis
      proof (cases "conv_known conv")
        case False
        with A Some r "2.IH"(3) [OF _ Some, of sp "(conv, rest, ap')" conv "(rest, ap')" rest ap'] "2.prems" show ?thesis
          by (simp add: q)
      next
        case True
        show ?thesis
        proof (cases "convert putch sp (the conv) ap' st")
          case None
          with A Some r True show ?thesis by (simp add: q)
        next
          case conv: (Some r')
          with A Some r True "2.IH"(2) [OF _ Some] "2.prems" show ?thesis
            by (cases r') (simp add: q)
        qed
      qed
    qed
  qed
qed


lemma vprintfmt_out:
  "vprintfmt putch fmt ap st = map_option (\<lambda>out. fold putch out st) (vprintfmt (\<lambda>c out. out @ [c]) fmt ap [])"
  using follows_vprintfmt [of "\<lambda>out. fold putch out st" "\<lambda>c out. out @ [c]" putch fmt ap "[]"]
  by (simp add: follows_def)


subsection \<open>Formats and the types of their arguments\<close>

datatype vtype = TInt | TErr | TQuad | TStr

fun has_type :: "va \<Rightarrow> vtype \<Rightarrow> bool" where
  "has_type (VInt w) TInt \<longleftrightarrow> True"
| "has_type (VInt w) TErr \<longleftrightarrow> w \<noteq> 0x80000000"
| "has_type (VQuad w) TQuad \<longleftrightarrow> True"
| "has_type (VStr p) TStr \<longleftrightarrow> True"
| "has_type _ _ \<longleftrightarrow> False"

lemma has_type_simps [simp]:
  "has_type v TInt \<longleftrightarrow> (\<exists>w. v = VInt w)" "has_type v TErr \<longleftrightarrow> (\<exists>w. v = VInt w \<and> w \<noteq> 0x80000000)"
  "has_type v TQuad \<longleftrightarrow> (\<exists>w. v = VQuad w)" "has_type v TStr \<longleftrightarrow> (\<exists>p. v = VStr p)"
  by (cases v; simp)+

text \<open>The arguments that the flags of a directive consume, its size flag, conversion and the rest.\<close>

function tflags :: "nat \<Rightarrow> string \<Rightarrow> vtype list \<times> nat \<times> char option \<times> string" where
  "tflags l [] = ([], l, None, [])"
| "tflags l (ch # fmt) =
     (if ch = CHR ''-'' \<or> ch = CHR ''0'' \<or> ch = CHR ''.'' \<or> ch = CHR ''#'' then tflags l fmt
      else if is_digit ch then tflags l (snd (digits 0 ch fmt))
      else if ch = CHR ''*'' then (case tflags l fmt of (ts, r) \<Rightarrow> (TInt # ts, r))
      else if ch = CHR ''l'' then tflags (Suc l) fmt
      else ([], l, Some ch, fmt))"
  by pat_completeness auto
termination
  by (relation "measure (\<lambda>(_, fmt). length fmt)") (use length_digits in \<open>auto simp: less_Suc_eq_le\<close>)

definition ctypes :: "nat \<Rightarrow> char \<Rightarrow> vtype list" where
  "ctypes l ch = (if ch \<in> set ''cp'' then [TInt] else if ch = CHR ''e'' then [TErr]
     else if ch = CHR ''s'' then [TStr] else if ch = CHR ''%'' then []
     else [if l \<ge> 2 then TQuad else TInt])"

lemma tflags_length: "tflags l fmt = (ts, l', c, rest) \<Longrightarrow> length rest \<le> length fmt"
proof (induction "length fmt" arbitrary: l fmt ts rule: less_induct)
  case less
  show ?case
  proof (cases fmt)
    case Nil
    with less.prems show ?thesis by simp
  next
    case (Cons ch fmt')
    have d: "length (snd (digits 0 ch fmt')) \<le> length fmt'" by (rule length_digits)
    have IH: "length rest \<le> Suc (length fmt')" if "tflags k g = (us, l', c, rest)" "length g \<le> length fmt'" for k g us
      using less.hyps [of g k us] that by (simp add: Cons)
    from less.prems show ?thesis
      unfolding Cons using d
      by (simp split: if_splits prod.splits) (auto intro: IH)
  qed
qed

function ftypes :: "string \<Rightarrow> vtype list" where
  "ftypes [] = []"
| "ftypes (ch # fmt) =
     (if ch \<noteq> CHR ''%'' then (if ch = NUL then [] else ftypes fmt)
      else case tflags 0 fmt of (ts, l, c, rest) \<Rightarrow>
        ts @ (if conv_known c then ctypes l (the c) @ ftypes rest else ftypes fmt))"
  by pat_completeness auto
termination
  by (relation "measure length") (auto simp: less_Suc_eq_le intro: tflags_length [OF sym])

lemma flags_typed:
  assumes "tflags (lflag sp) fmt = (ts, l, c, rest)" "list_all2 has_type ap (ts @ us)"
  shows "\<exists>sp' ap'. flags sp fmt ap = Some (sp', c, rest, ap') \<and> lflag sp' = l \<and> list_all2 has_type ap' us"
  using assms
proof (induction sp fmt ap arbitrary: ts rule: flags.induct)
  case (1 sp ap)
  then show ?case by simp
next
  case (2 sp ch fmt ap)
  have pp: "lflag (process_precision sp') = lflag sp'" for sp' by (simp add: process_precision_def)
  consider "ch = CHR ''-''" | "ch = CHR ''0''" | "is_digit ch \<and> ch \<noteq> CHR ''0''" | "ch = CHR ''*''" | "ch = CHR ''.''"
    | "ch = CHR ''#''" | "ch = CHR ''l''" | "\<not> is_digit ch \<and> ch \<notin> set ''-0*.#l''" by auto
  then show ?case
  proof cases
    case 1
    then show ?thesis using "2.IH"(1) "2.prems" by simp
  next
    case A: 2
    then show ?thesis using "2.IH"(2) "2.prems" by simp
  next
    case A: 3
    then have "ch \<noteq> CHR ''-''" "ch \<noteq> CHR ''.''" "ch \<noteq> CHR ''#''" by auto
    with A show ?thesis using "2.IH"(3) "2.prems" by (simp add: pp)
  next
    case A: 4
    obtain ts' where ts: "ts = TInt # ts'" "tflags (lflag sp) fmt = (ts', l, c, rest)"
      using A "2.prems"(1) by (auto split: prod.splits)
    then obtain w ap' where ap: "ap = VInt w # ap'" "list_all2 has_type ap' (ts' @ us)"
      using "2.prems"(2) by (auto simp: list_all2_Cons2)
    show ?thesis using A ts ap "2.IH"(4) [of "(w, ap')" w ap' ts'] by (simp add: pp)
  next
    case A: 5
    then show ?thesis using "2.IH"(5) "2.prems" by simp
  next
    case A: 6
    then show ?thesis using "2.IH"(6) "2.prems" by simp
  next
    case A: 7
    then show ?thesis using "2.IH"(7) "2.prems" by simp
  next
    case A: 8
    then show ?thesis using "2.prems" by auto
  qed
qed

lemma printnum_total: "2 \<le> unat base \<Longrightarrow> \<exists>st'. printnum putch num base w pc st = Some st'"
  by (simp add: printnum_out)

lemma put_signed_total: "\<exists>st'. put_signed putch sp num st = Some st'"
  by (simp add: put_signed_def printnum_total)

lemma sint_neg: "w \<noteq> 0x80000000 \<Longrightarrow> sint (- w) = - sint (w :: u32)"
proof -
  assume w: "w \<noteq> 0x80000000"
  have "sint w \<noteq> - (2 ^ 31)"
  proof
    assume "sint w = - (2 ^ 31)"
    then have "sint w = sint (0x80000000 :: u32)" by simp
    with w show False by (blast intro: signed_word_eqI)
  qed
  moreover have "- (2 ^ 31) \<le> sint w" "sint w < 2 ^ 31" using sint_ge [of w] sint_lt [of w] by simp_all
  ultimately show ?thesis by (simp add: sint_word_ariths(4) signed_take_bit_int_eq_self)
qed

lemma put_error_total:
  assumes "w \<noteq> 0x80000000"
  shows "\<exists>st'. put_error putch w st = Some st'"
proof -
  have "\<not> sint (if sint w < 0 then - w else w) < 0" using sint_neg [OF assms] by simp
  then show ?thesis
    by (auto simp: put_error_def Let_def put_signed_total simp del: error_string.simps split: option.splits)
qed

lemma getint_typed:
  "list_all2 has_type ap ((if l \<ge> 2 then TQuad else TInt) # us) \<Longrightarrow>
     \<exists>num ap'. getint ap l = Some (num, ap') \<and> list_all2 has_type ap' us"
  "list_all2 has_type ap ((if l \<ge> 2 then TQuad else TInt) # us) \<Longrightarrow>
     \<exists>num ap'. getuint ap l = Some (num, ap') \<and> list_all2 has_type ap' us"
  by (cases "l \<ge> 2"; auto simp: list_all2_Cons2 getint_def getuint_def)+

lemma convert_typed:
  assumes "conv_known (Some ch)" "list_all2 has_type ap (ctypes (lflag sp) ch @ us)"
  shows "\<exists>ap' st'. convert putch sp ch ap st = Some (ap', st') \<and> list_all2 has_type ap' us"
proof -
  have pn: "\<exists>st'. printnum putch num 8 (width sp) (padc sp) st = Some st'"
      "\<exists>st'. printnum putch num 10 (width sp) (padc sp) st = Some st'"
      "\<exists>st'. printnum putch num 16 (width sp) (padc sp) st = Some st'" for num st
    by (simp_all add: printnum_total)
  consider "ch = CHR ''c''" | "ch = CHR ''e''" | "ch = CHR ''s''" | "ch = CHR ''d''" | "ch = CHR ''u''"
    | "ch = CHR ''o''" | "ch = CHR ''p''" | "ch = CHR ''x''" | "ch = CHR ''%''"
    using assms(1) by (auto simp: conv_known_def)
  then show ?thesis
  proof cases
    case 1
    then show ?thesis using assms(2) by (auto simp: ctypes_def convert_def list_all2_Cons2)
  next
    case A: 2
    then obtain w ap' where ap: "ap = VInt w # ap'" "w \<noteq> 0x80000000" "list_all2 has_type ap' us"
      using assms(2) by (auto simp: ctypes_def list_all2_Cons2)
    with A put_error_total [OF ap(2), of putch st] show ?thesis by (auto simp: convert_def)
  next
    case A: 3
    then show ?thesis using assms(2) by (auto simp: ctypes_def convert_def list_all2_Cons2)
  next
    case A: 4
    then obtain num ap' where g: "getint ap (lflag sp) = Some (num, ap')" "list_all2 has_type ap' us"
      using assms(2) getint_typed(1) [of ap "lflag sp" us] by (auto simp: ctypes_def)
    with A put_signed_total [of putch sp num st] show ?thesis by (auto simp: convert_def)
  next
    case A: 5
    then obtain num ap' where g: "getuint ap (lflag sp) = Some (num, ap')" "list_all2 has_type ap' us"
      using assms(2) getint_typed(2) [of ap "lflag sp" us] by (auto simp: ctypes_def)
    with A pn(2) [of num st] show ?thesis by (auto simp: convert_def)
  next
    case A: 6
    then obtain num ap' where g: "getuint ap (lflag sp) = Some (num, ap')" "list_all2 has_type ap' us"
      using assms(2) getint_typed(2) [of ap "lflag sp" us] by (auto simp: ctypes_def)
    with A pn(1) [of num st] show ?thesis by (auto simp: convert_def)
  next
    case A: 7
    then obtain w ap' where ap: "ap = VInt w # ap'" "list_all2 has_type ap' us"
      using assms(2) by (auto simp: ctypes_def list_all2_Cons2)
    with A pn(3) [of "ucast w" "putch (uch CHR ''x'') (putch (uch CHR ''0'') st)"] show ?thesis
      by (auto simp: convert_def)
  next
    case A: 8
    then obtain num ap' where g: "getuint ap (lflag sp) = Some (num, ap')" "list_all2 has_type ap' us"
      using assms(2) getint_typed(2) [of ap "lflag sp" us] by (auto simp: ctypes_def)
    with A pn(3) [of num st] show ?thesis by (auto simp: convert_def)
  next
    case A: 9
    then show ?thesis using assms(2) by (auto simp: ctypes_def convert_def)
  qed
qed

lemma vprintfmt_total: "list_all2 has_type ap (ftypes fmt) \<Longrightarrow> \<exists>st'. vprintfmt putch fmt ap st = Some st'"
proof (induction fmt arbitrary: ap st rule: ftypes.induct)
  case 1
  then show ?case by simp
next
  case (2 ch fmt)
  show ?case
  proof (cases "ch = CHR ''%''")
    case False
    with 2 show ?thesis by (cases "ch = NUL") auto
  next
    case True
    obtain ts l c rest where t: "tflags 0 fmt = (ts, l, c, rest)" by (metis prod_cases4)
    let ?us = "if conv_known c then ctypes l (the c) @ ftypes rest else ftypes fmt"
    have ap: "list_all2 has_type ap (ts @ ?us)" using "2.prems" True t by simp
    obtain sp' ap' where f: "flags fspec0 fmt ap = Some (sp', c, rest, ap')" "lflag sp' = l" "list_all2 has_type ap' ?us"
      using flags_typed [of fspec0 fmt ts l c rest ap ?us] t ap by (auto simp: fspec0_def)
    show ?thesis
    proof (cases "conv_known c")
      case known: True
      then obtain c' where c: "c = Some c'" by (auto simp: conv_known_def)
      obtain ap'' st'' where "convert putch sp' c' ap' st = Some (ap'', st'')" "list_all2 has_type ap'' (ftypes rest)"
        using convert_typed [of c' ap' sp' "ftypes rest" putch st] known f(2,3) by (auto simp: c)
      with True f(1) known c "2.IH"(2) [OF _ t [symmetric] refl refl] show ?thesis by simp
    next
      case False
      with True f "2.IH"(3) [OF _ t [symmetric] refl refl] show ?thesis by simp
    qed
  qed
qed




text \<open>The two calls of \<^verbatim>\<open>printfmt\<close> that print an error.\<close>

lemma put_error_printfmt:
  assumes "sint err \<ge> 0"
  shows "put_error putch err st = (case error_string (unat err) of
    None \<Rightarrow> vprintfmt putch ''error %d'' [VInt err] st
  | Some p \<Rightarrow> vprintfmt putch ''%s'' [VStr (Some p)] st)"
  using assms
  by (auto simp: put_error_def Let_def not_less conv_known_def convert_def getint_def fspec0_def NUL_def
      is_digit_def less_eq_char_def simp del: error_string.simps split: option.splits)

end
