(* ===== verification/Printf.thy ===== *)
theory Printf
  imports KState Printfmt
begin

text \<open>
  The users of the formatter: \<^verbatim>\<open>vsnprintf\<close> of \<^verbatim>\<open>lib/printfmt.c\<close>, which prints to a buffer, and
  \<^verbatim>\<open>cprintf\<close> of \<^verbatim>\<open>kern/printf.c\<close>, which prints to the console.
\<close>

subsection \<open>Printing to a buffer\<close>

text \<open>Pointers are offsets from the start of the buffer, and \<open>sb_mem\<close> its bytes.\<close>

record sprintbuf =
  sb_mem :: "nat \<Rightarrow> u8"
  sb_buf :: nat
  sb_ebuf :: nat
  sb_cnt :: int

definition sprintputch :: "u32 \<Rightarrow> sprintbuf \<Rightarrow> sprintbuf" where
  "sprintputch ch b =
     (let b = b\<lparr>sb_cnt := sb_cnt b + 1\<rparr> in
      if sb_buf b < sb_ebuf b
      then b\<lparr>sb_mem := (sb_mem b)(sb_buf b := ucast ch), sb_buf := sb_buf b + 1\<rparr>
      else b)"

definition vsnprintf ::
  "(nat \<Rightarrow> u8) option \<Rightarrow> int \<Rightarrow> string \<Rightarrow> va list \<Rightarrow> (err + int \<times> (nat \<Rightarrow> u8)) option" where
  "vsnprintf buf n fmt ap =
     (case buf of
        None \<Rightarrow> Some (Inl E_INVAL)
      | Some m \<Rightarrow>
          if n < 1 then Some (Inl E_INVAL)
          else do {
            b \<leftarrow> vprintfmt sprintputch fmt ap \<lparr>sb_mem = m, sb_buf = 0, sb_ebuf = nat (n - 1), sb_cnt = 0\<rparr>;
            Some (Inr (sb_cnt b, (sb_mem b)(sb_buf b := 0)))
          })"

definition buffer_holds :: "(nat \<Rightarrow> u8) \<Rightarrow> nat \<Rightarrow> u32 list \<Rightarrow> sprintbuf \<Rightarrow> bool" where
  "buffer_holds m k out b \<longleftrightarrow> sb_ebuf b = k \<and> sb_cnt b = int (length out) \<and> sb_buf b = min (length out) k \<and>
     sb_mem b = (\<lambda>i. if i < min (length out) k then ucast (out ! i) else m i)"

lemma sprintputch_holds: "buffer_holds m k out b \<Longrightarrow> buffer_holds m k (out @ [c]) (sprintputch c b)"
  by (auto simp: buffer_holds_def sprintputch_def Let_def nth_append fun_eq_iff)

lemma sprintputch_fold: "buffer_holds m k out b \<Longrightarrow> buffer_holds m k (out @ cs) (fold sprintputch cs b)"
proof (induction cs arbitrary: out b)
  case Nil
  then show ?case by simp
next
  case (Cons c cs)
  from Cons.IH [OF sprintputch_holds [OF Cons.prems, of c]] show ?case by simp
qed

text \<open>C26: \<open>vsnprintf\<close> with a buffer of \<open>n\<close> bytes stores at most \<open>n - 1\<close> characters of the output and a
  final zero, never touches a byte beyond the buffer, and returns the length of the whole output.\<close>

theorem vsnprintf_bounded:
  assumes "1 \<le> n" "vprintfmt (\<lambda>c out. out @ [c]) fmt ap [] = Some out"
  shows "\<exists>m'. vsnprintf (Some m) n fmt ap = Some (Inr (int (length out), m')) \<and>
    (let k = min (length out) (nat (n - 1)) in
      (\<forall>i < k. m' i = ucast (out ! i)) \<and> m' k = 0 \<and> (\<forall>i > k. m' i = m i))"
proof -
  let ?b = "\<lparr>sb_mem = m, sb_buf = 0, sb_ebuf = nat (n - 1), sb_cnt = 0\<rparr>"
  have "buffer_holds m (nat (n - 1)) [] ?b" by (auto simp: buffer_holds_def)
  from sprintputch_fold [OF this, of out]
  have b: "buffer_holds m (nat (n - 1)) out (fold sprintputch out ?b)" by simp
  have "vprintfmt sprintputch fmt ap ?b = Some (fold sprintputch out ?b)"
    using vprintfmt_out [of sprintputch fmt ap ?b] assms(2) by simp
  with b assms(1) show ?thesis by (auto simp: vsnprintf_def buffer_holds_def Let_def)
qed

theorem vsnprintf_bounded_witness:
  "\<exists>m'. vsnprintf (Some (\<lambda>_. 0xFF)) 3 ''abcd'' [] = Some (Inr (4, m')) \<and> m' 1 = 98 \<and> m' 2 = 0 \<and> m' 3 = 0xFF"
proof -
  have "vprintfmt (\<lambda>c out. out @ [c]) ''abcd'' [] [] = Some [97, 98, 99, 100]"
    by (simp add: NUL_def uch_def)
  from vsnprintf_bounded [OF _ this, of 3 "\<lambda>_. 0xFF"]
  obtain m' where m': "vsnprintf (Some (\<lambda>_. 0xFF)) 3 ''abcd'' [] = Some (Inr (4, m'))"
    "\<forall>i < 2. m' i = ucast ([97, 98, 99, 100 :: u32] ! i)" "m' 2 = 0" "\<forall>i > 2. m' i = 0xFF"
    by (auto simp: Let_def numeral_2_eq_2)
  have "m' 1 = 98" using m'(2) [rule_format, of 1] by simp
  moreover have "m' 3 = 0xFF" using m'(4) [rule_format, of 3] by simp
  ultimately show ?thesis using m'(1,3) by blast
qed

subsection \<open>Printing to the console\<close>

lemmas fmt_simps = NUL_def conv_known_def ctypes_def is_digit_def less_eq_char_def digits.simps

definition cputchar :: "u32 \<Rightarrow> console \<Rightarrow> console" where
  "cputchar c s = cons_putc c s"

definition putch :: "u32 \<Rightarrow> int \<times> console \<Rightarrow> int \<times> console" where
  "putch ch st = (fst st + 1, cputchar ch (snd st))"

definition vcprintf :: "string \<Rightarrow> va list \<Rightarrow> kstate \<Rightarrow> int kres" where
  "vcprintf fmt ap s = do {
     (cnt, k) \<leftarrow> vprintfmt putch fmt ap (0, kcons s);
     Some (cnt, s\<lparr>kcons := k\<rparr>)
   }"

definition cprintf :: "string \<Rightarrow> va list \<Rightarrow> kstate \<Rightarrow> unit kres" where
  "cprintf fmt ap s = do { (cnt, s) \<leftarrow> vcprintf fmt ap s; Some ((), s) }"

text \<open>Only the console changes.\<close>

lemma cprintf_frame: "cprintf fmt ap s = Some (u, s') \<Longrightarrow> s' = s\<lparr>kcons := kcons s'\<rparr>"
  by (auto simp: cprintf_def vcprintf_def split: Option.bind_splits)

lemma cprintf_ok:
  "list_all2 has_type ap (ftypes fmt) \<Longrightarrow> \<exists>k. cprintf fmt ap s = Some ((), s\<lparr>kcons := k\<rparr>)"
  using vprintfmt_total [of ap fmt putch "(0, kcons s)"] by (auto simp: cprintf_def vcprintf_def)

lemma cprintf_typed:
  "ftypes fmt = ts \<Longrightarrow> list_all2 has_type ap ts \<Longrightarrow> \<exists>k. cprintf fmt ap s = Some ((), s\<lparr>kcons := k\<rparr>)"
  using cprintf_ok by blast

lemma put_fold: "fold putch out (n, k) = (n + int (length out), fold cputchar out k)"
  by (induction out arbitrary: n k) (auto simp: putch_def)

lemma cprintf_out:
  "vprintfmt (\<lambda>c out. out @ [c]) fmt ap [] = Some out \<Longrightarrow>
     cprintf fmt ap s = Some ((), s\<lparr>kcons := fold cputchar out (kcons s)\<rparr>)"
  using vprintfmt_out [of putch fmt ap "(0, kcons s)"] by (simp add: cprintf_def vcprintf_def put_fold)

end
