(* ===== verification/Env.thy ===== *)
theory Env
  imports UserMem Printf
begin

text \<open>
  Environments, \<^verbatim>\<open>kern/env.c\<close>: the table of environments and its free list, ids with
  generations, building an address space, loading a program, freeing everything an environment
  owns, and switching to it.
\<close>

subsection \<open>Looking up an environment\<close>

text \<open>
  On success the environment found, a null pointer when \<open>envid\<close> is 0 and the CPU runs nothing.
  \<open>c\<close> is the CPU the code runs on. Reading through a null \<^verbatim>\<open>curenv\<close> faults.
\<close>

definition envid2env :: "nat \<Rightarrow> envid_t \<Rightarrow> bool \<Rightarrow> kstate \<Rightarrow> (err + nat option) option" where
  "envid2env c envid checkperm s =
     (if envid = 0 then Some (Inr (curenv c s))
      else
        let e = ENVX envid in
        if env_status (envs s e) = ENV_FREE \<or> env_id (envs s e) \<noteq> envid then Some (Inl E_BAD_ENV)
        else if checkperm \<and> Some e \<noteq> curenv c s then do {
          cur \<leftarrow> curenv c s;
          if env_parent_id (envs s e) \<noteq> env_id (envs s cur) then Some (Inl E_BAD_ENV)
          else Some (Inr (Some e))
        }
        else Some (Inr (Some e)))"

subsection \<open>Initialisation\<close>

definition env_init_step :: "nat \<Rightarrow> kstate \<Rightarrow> unit kres" where
  "env_init_step k s =
     (let i = NENV - 1 - k;
          s = upd_env i (\<lambda>e. e\<lparr>env_id := 0\<rparr>) s
      in Some ((), upd_env (i - 1) (\<lambda>e. e\<lparr>env_link := Some i\<rparr>) s))"

text \<open>The loop runs over \<open>i = NENV - 1, ..., 1\<close>; segment registers are not modelled.\<close>

definition env_init :: "kstate \<Rightarrow> unit kres" where
  "env_init s = do {
     let s = upd_env (NENV - 1) (\<lambda>e. e\<lparr>env_link := None\<rparr>) s;
     (_, s) \<leftarrow> each env_init_step [0..<NENV - 1] s;
     let s = upd_env 0 (\<lambda>e. e\<lparr>env_id := 0\<rparr>) s;
     Some ((), s\<lparr>env_free_list := Some 0\<rparr>)
   }"

subsection \<open>Creating an environment\<close>

definition env_setup_vm :: "nat \<Rightarrow> kstate \<Rightarrow> (err + unit) kres" where
  "env_setup_vm e s = do {
     (p, s) \<leftarrow> page_alloc ALLOC_ZERO s;
     case p of
       None \<Rightarrow> Some (Inl E_NO_MEM, s)
     | Some p \<Rightarrow> do {
         pgdir \<leftarrow> page2kva p s;
         let s = upd_env e (\<lambda>x. x\<lparr>env_pgdir := Some pgdir\<rparr>) s;
         let s = upd_page p (\<lambda>q. q\<lparr>pp_ref := pp_ref q + 1\<rparr>) s;
         let s = s\<lparr>phys := (phys s)(pgdir := phys s (kern_pgdir s))\<rparr>;
         Some (Inr (), set_word pgdir (PDX UVPT) (page2pa pgdir OR PTE_P OR PTE_U) s)
       }
   }"

definition ENVGENSHIFT :: nat where "ENVGENSHIFT = 12"
definition GD_KT :: u16 where "GD_KT = 0x08"
definition GD_KD :: u16 where "GD_KD = 0x10"
definition GD_UT :: u16 where "GD_UT = 0x18"
definition GD_UD :: u16 where "GD_UD = 0x20"

definition next_env_id :: "nat \<Rightarrow> envid_t \<Rightarrow> envid_t" where
  "next_env_id e old =
     (let generation = (old + push_bit ENVGENSHIFT 1) AND NOT (of_nat NENV - 1);
          generation = (if sint generation \<le> 0 then push_bit ENVGENSHIFT 1 else generation)
      in generation OR of_nat e)"

definition new_tf :: Trapframe where
  "new_tf = zero_tf\<lparr>tf_ds := GD_UD OR 3, tf_es := GD_UD OR 3, tf_ss := GD_UD OR 3,
     tf_esp := USTACKTOP, tf_cs := GD_UT OR 3, tf_eflags := FL_IF\<rparr>"

text \<open>The id of the running environment, 0 when the CPU runs none, for messages.\<close>

definition cur_id :: "nat \<Rightarrow> kstate \<Rightarrow> envid_t" where
  "cur_id c s = (case curenv c s of Some e \<Rightarrow> env_id (envs s e) | None \<Rightarrow> 0)"

definition env_alloc :: "nat \<Rightarrow> envid_t \<Rightarrow> kstate \<Rightarrow> (err + nat) kres" where
  "env_alloc c parent_id s =
     (case env_free_list s of
        None \<Rightarrow> Some (Inl E_NO_FREE_ENV, s)
      | Some e \<Rightarrow> do {
          (r, s) \<leftarrow> env_setup_vm e s;
          case r of
            Inl er \<Rightarrow> Some (Inl er, s)
          | Inr _ \<Rightarrow> do {
              let s = upd_env e (\<lambda>x. x\<lparr>env_id := next_env_id e (env_id x), env_parent_id := parent_id,
                env_type := ENV_TYPE_USER, env_status := ENV_RUNNABLE, env_runs := 0,
                env_tf := new_tf, env_pgfault_upcall := 0, env_ipc_recving := False\<rparr>) s;
              let s = s\<lparr>env_free_list := env_link (envs s e)\<rparr>;
              (_, s) \<leftarrow> cprintf (''[%08x] new env %08x'' @ [CHR 0x0A]) [VInt (cur_id c s), VInt (env_id (envs s e))] s;
              Some (Inr e, s)
            }
        })"

subsection \<open>Freeing an environment\<close>

definition lcr3 :: "nat \<Rightarrow> u32 \<Rightarrow> kstate \<Rightarrow> kstate" where
  "lcr3 c pa s = upd_cpu c (\<lambda>p. p\<lparr>cpu_cr3 := pa\<rparr>) s"

definition env_free_pte :: "nat \<Rightarrow> nat \<Rightarrow> nat \<Rightarrow> nat \<Rightarrow> nat \<Rightarrow> kstate \<Rightarrow> unit kres" where
  "env_free_pte c pgdir pt pdeno pteno s =
     (if phys s pt pteno AND PTE_P \<noteq> 0 then page_remove c pgdir (PGADDR pdeno pteno 0) s
      else Some ((), s))"

definition env_free_pde :: "nat \<Rightarrow> nat \<Rightarrow> nat \<Rightarrow> kstate \<Rightarrow> unit kres" where
  "env_free_pde c pgdir pdeno s =
     (if phys s pgdir pdeno AND PTE_P = 0 then Some ((), s)
      else do {
        let pa = PTE_ADDR (phys s pgdir pdeno);
        pt \<leftarrow> KADDR pa s;
        (_, s) \<leftarrow> each (env_free_pte c pgdir pt pdeno) [0..<Suc (PTX (NOT 0))] s;
        let s = set_word pgdir pdeno 0 s;
        pg \<leftarrow> pa2page pa s;
        page_decref pg s
      })"

definition env_free :: "nat \<Rightarrow> nat \<Rightarrow> kstate \<Rightarrow> unit kres" where
  "env_free c e s = do {
     let s = (if Some e = curenv c s then lcr3 c (page2pa (kern_pgdir s)) s else s);
     (_, s) \<leftarrow> cprintf (''[%08x] free env %08x'' @ [CHR 0x0A]) [VInt (cur_id c s), VInt (env_id (envs s e))] s;
     pgdir \<leftarrow> env_pgdir (envs s e);
     (_, s) \<leftarrow> each (env_free_pde c pgdir) [0..<PDX UTOP] s;
     let pa = page2pa pgdir;
     let s = upd_env e (\<lambda>x. x\<lparr>env_pgdir := None\<rparr>) s;
     pg \<leftarrow> pa2page pa s;
     (_, s) \<leftarrow> page_decref pg s;
     let s = upd_env e (\<lambda>x. x\<lparr>env_status := ENV_FREE, env_link := env_free_list s\<rparr>) s;
     Some ((), s\<lparr>env_free_list := Some e\<rparr>)
   }"

subsection \<open>Running an environment\<close>

text \<open>
  A kernel path ends in a return, in user mode with an environment, in a halted CPU, or in the
  kernel monitor.
\<close>

datatype 'a ctl = Ret 'a | Run nat | Halted | Monitor

text \<open>\<^verbatim>\<open>spin_unlock\<close> panics when this CPU does not hold the lock.\<close>

definition unlock_kernel :: "nat \<Rightarrow> kstate \<Rightarrow> unit kres" where
  "unlock_kernel c s = (if klock s = Some c then Some ((), s\<lparr>klock := None\<rparr>) else None)"

text \<open>Taking the lock while this CPU holds it panics; waiting for another CPU to release it is not
  an outcome of this function.\<close>

definition lock_kernel :: "nat \<Rightarrow> kstate \<Rightarrow> unit kres" where
  "lock_kernel c s = (if klock s = None then Some ((), s\<lparr>klock := Some c\<rparr>) else None)"

definition env_pop_tf :: "nat \<Rightarrow> nat \<Rightarrow> kstate \<Rightarrow> 'a ctl kres" where
  "env_pop_tf c e s = do {
     cur \<leftarrow> curenv c s;
     Some (Run e, upd_env cur (\<lambda>x. x\<lparr>env_cpunum := c\<rparr>) s)
   }"

definition env_run :: "nat \<Rightarrow> nat \<Rightarrow> kstate \<Rightarrow> 'a ctl kres" where
  "env_run c e s = do {
     let s = (case curenv c s of
                Some cur \<Rightarrow> if env_status (envs s cur) = ENV_RUNNING
                           then upd_env cur (\<lambda>x. x\<lparr>env_status := ENV_RUNNABLE\<rparr>) s else s
              | None \<Rightarrow> s);
     let s = upd_cpu c (\<lambda>p. p\<lparr>cpu_env := Some e\<rparr>) s;
     let s = upd_env e (\<lambda>x. x\<lparr>env_status := ENV_RUNNING, env_runs := env_runs x + 1\<rparr>) s;
     pgdir \<leftarrow> env_pgdir (envs s e);
     let s = lcr3 c (page2pa pgdir) s;
     (_, s) \<leftarrow> unlock_kernel c s;
     env_pop_tf c e s
   }"


subsection \<open>User memory, byte by byte\<close>

definition get_byte :: "nat \<Rightarrow> u32 \<Rightarrow> u8" where
  "get_byte k w = ucast (drop_bit (8 * k) w)"

definition put_byte :: "nat \<Rightarrow> u8 \<Rightarrow> u32 \<Rightarrow> u32" where
  "put_byte k b w = (w AND NOT (push_bit (8 * k) 0xFF)) OR push_bit (8 * k) (ucast b)"

text \<open>The frame an address is mapped to, with the permissions asked for; otherwise a fault.\<close>

definition translate :: "nat \<Rightarrow> u32 \<Rightarrow> u32 \<Rightarrow> kstate \<Rightarrow> nat option" where
  "translate d perm va s = (case pgdir_walk d va False s of
     Some (Some p, _) \<Rightarrow>
       if (rd_pte p s OR perm OR PTE_P) = rd_pte p s then Some (PGNUM (rd_pte p s)) else None
   | _ \<Rightarrow> None)"

definition read_byte :: "nat \<Rightarrow> u32 \<Rightarrow> kstate \<Rightarrow> u8 option" where
  "read_byte d va s = do {
     f \<leftarrow> translate d 0 va s;
     Some (get_byte (unat va mod 4) (phys s f (unat (PGOFF va) div 4)))
   }"

definition write_byte :: "nat \<Rightarrow> u32 \<Rightarrow> u8 \<Rightarrow> kstate \<Rightarrow> unit kres" where
  "write_byte d va b s = do {
     f \<leftarrow> translate d PTE_W va s;
     let i = unat (PGOFF va) div 4;
     Some ((), set_word f i (put_byte (unat va mod 4) b (phys s f i)) s)
   }"

fun write_bytes :: "nat \<Rightarrow> u32 \<Rightarrow> u8 list \<Rightarrow> kstate \<Rightarrow> unit kres" where
  "write_bytes d va [] s = Some ((), s)"
| "write_bytes d va (b # bs) s = do { (_, s) \<leftarrow> write_byte d va b s; write_bytes d (va + 1) bs s }"

fun read_bytes :: "nat \<Rightarrow> u32 \<Rightarrow> nat \<Rightarrow> kstate \<Rightarrow> (u8 list) option" where
  "read_bytes d va 0 s = Some []"
| "read_bytes d va (Suc n) s = do {
     b \<leftarrow> read_byte d va s;
     bs \<leftarrow> read_bytes d (va + 1) n s;
     Some (b # bs) }"

definition word_bytes :: "u32 \<Rightarrow> u8 list" where
  "word_bytes w = map (\<lambda>k. get_byte k w) [0..<4]"

definition read_word :: "nat \<Rightarrow> u32 \<Rightarrow> kstate \<Rightarrow> u32 option" where
  "read_word d va s = do {
     bs \<leftarrow> read_bytes d va 4 s;
     Some (fold (\<lambda>k w. put_byte k (bs ! k) w) [0..<4] 0)
   }"

definition write_word :: "nat \<Rightarrow> u32 \<Rightarrow> u32 \<Rightarrow> kstate \<Rightarrow> unit kres" where
  "write_word d va w s = write_bytes d va (word_bytes w) s"

subsection \<open>Loading a program (inc/elf.h)\<close>

text \<open>\<open>None\<close> is also the value of a loop that does not end.\<close>

partial_function (option) region_alloc_loop :: "nat \<Rightarrow> nat \<Rightarrow> u32 \<Rightarrow> u32 \<Rightarrow> kstate \<Rightarrow> unit kres" where
  [code]: "region_alloc_loop c pgdir first_page last_page s =
     (if first_page < last_page then do {
        (p, s) \<leftarrow> page_alloc 0 s;
        pp \<leftarrow> p;
        (r, s) \<leftarrow> page_insert c pgdir pp first_page (PTE_W OR PTE_U) s;
        if isl r then None else region_alloc_loop c pgdir (first_page + PGSIZE) last_page s
      }
      else Some ((), s))"

definition region_alloc :: "nat \<Rightarrow> nat \<Rightarrow> u32 \<Rightarrow> u32 \<Rightarrow> kstate \<Rightarrow> unit kres" where
  "region_alloc c e va len s =
     (if len = 0 then Some ((), s)
      else do {
        pgdir \<leftarrow> env_pgdir (envs s e);
        region_alloc_loop c pgdir (ROUNDDOWN va PGSIZE) (ROUNDUP (va + len) PGSIZE) s
      })"

text \<open>A program image in kernel memory is a function from offsets to bytes.\<close>

type_synonym image = "u32 \<Rightarrow> u8"

definition im32 :: "image \<Rightarrow> u32 \<Rightarrow> u32" where
  "im32 b off = fold (\<lambda>k w. put_byte k (b (off + of_nat k)) w) [0..<4] 0"

definition im16 :: "image \<Rightarrow> u32 \<Rightarrow> u16" where
  "im16 b off = ucast (put_byte 1 (b (off + 1)) (put_byte 0 (b off) 0))"

record Elf =
  e_magic :: u32
  e_entry :: u32
  e_phoff :: u32
  e_phnum :: u16

record Proghdr =
  p_type :: u32
  p_offset :: u32
  p_va :: u32
  p_filesz :: u32
  p_memsz :: u32

definition ELF_MAGIC :: u32 where "ELF_MAGIC = 0x464C457F"
definition ELF_PROG_LOAD :: u32 where "ELF_PROG_LOAD = 1"

definition read_Elf :: "image \<Rightarrow> Elf" where
  "read_Elf b = \<lparr>e_magic = im32 b 0, e_entry = im32 b 24, e_phoff = im32 b 28, e_phnum = im16 b 44\<rparr>"

definition read_Proghdr :: "image \<Rightarrow> u32 \<Rightarrow> Proghdr" where
  "read_Proghdr b off = \<lparr>p_type = im32 b off, p_offset = im32 b (off + 4), p_va = im32 b (off + 8),
     p_filesz = im32 b (off + 16), p_memsz = im32 b (off + 20)\<rparr>"

definition load_segment :: "nat \<Rightarrow> nat \<Rightarrow> nat \<Rightarrow> image \<Rightarrow> Proghdr \<Rightarrow> kstate \<Rightarrow> unit kres" where
  "load_segment c e pgdir binary ph s =
     (if p_type ph = ELF_PROG_LOAD then do {
        (_, s) \<leftarrow> region_alloc c e (p_va ph) (p_memsz ph) s;
        (_, s) \<leftarrow> write_bytes pgdir (p_va ph)
           (map (\<lambda>k. binary (p_offset ph + of_nat k)) [0..<unat (p_filesz ph)]) s;
        if p_memsz ph - p_filesz ph < 0 then None
        else write_bytes pgdir (p_va ph + p_filesz ph)
           (replicate (unat (p_memsz ph - p_filesz ph)) 0) s
      }
      else Some ((), s))"

definition load_icode :: "nat \<Rightarrow> nat \<Rightarrow> image \<Rightarrow> kstate \<Rightarrow> unit kres" where
  "load_icode c e binary s =
     (let elf = read_Elf binary in
      if e_magic elf \<noteq> ELF_MAGIC then None
      else do {
        pgdir \<leftarrow> env_pgdir (envs s e);
        let s = lcr3 c (page2pa pgdir) s;
        (_, s) \<leftarrow> each (\<lambda>i. load_segment c e pgdir binary (read_Proghdr binary (e_phoff elf + of_nat (i * 32))))
           [0..<unat (e_phnum elf)] s;
        let s = upd_env e (\<lambda>x. x\<lparr>env_tf := (env_tf x)\<lparr>tf_eip := e_entry elf\<rparr>\<rparr>) s;
        (_, s) \<leftarrow> region_alloc c e (USTACKTOP - PGSIZE) PGSIZE s;
        Some ((), lcr3 c (page2pa (kern_pgdir s)) s)
      })"

definition env_create :: "nat \<Rightarrow> image \<Rightarrow> env_type \<Rightarrow> kstate \<Rightarrow> unit kres" where
  "env_create c binary type s = do {
     (r, s) \<leftarrow> env_alloc c 0 s;
     case r of
       Inl _ \<Rightarrow> None
     | Inr e \<Rightarrow> do {
         let s = upd_env e (\<lambda>x. x\<lparr>env_type := type\<rparr>) s;
         (_, s) \<leftarrow> load_icode c e binary s;
         if type = ENV_TYPE_FS
         then Some ((), upd_env e (\<lambda>x. x\<lparr>env_tf := (env_tf x)\<lparr>tf_eflags := tf_eflags (env_tf x) OR FL_IOPL_3\<rparr>\<rparr>) s)
         else Some ((), s)
       }
   }"

end
