(* ===== verification/Teardown.thy ===== *)
theory Teardown
  imports Env
begin

text \<open>
  Taking an address space down, the loops of \<^verbatim>\<open>env_free\<close>: the entries of each page table, the
  table itself, and at last the directory. \<open>lean\<close> says that no unreferenced page is off the
  free list, so that nothing is leaked.
\<close>

definition lean :: "kstate \<Rightarrow> nat set \<Rightarrow> nat set \<Rightarrow> nat list \<Rightarrow> (nat \<Rightarrow> nat) \<Rightarrow> bool" where
  "lean s K D xs ex \<longleftrightarrow> (\<forall>p < npages s. p \<notin> K \<and> refs s D p + ex p = 0 \<longrightarrow> p \<in> set xs)"

lemma PGADDR_nat:
  assumes ij: "i < 1024" "j < 1024"
  shows "unat (PGADDR i j 0) = 4194304 * i + 4096 * j"
proof -
  let ?a = "push_bit 22 (of_nat i) :: u32" and ?b = "push_bit 12 (of_nat j) :: u32"
  have "take_bit 10 (of_nat j :: u32) = of_nat j"
    using ij(2) by (subst take_bit_of_nat) (simp add: take_bit_nat_eq_self)
  then have jb: "\<not> bit (of_nat j :: u32) n" if "n \<ge> 10" for n
    using that by (metis bit_take_bit_iff not_less)
  have "?a OR ?b = ?a + ?b"
    by (rule disjunctive_add [symmetric]) (use jb in \<open>auto simp: bit_push_bit_iff\<close>)
  then show ?thesis
    using ij by (simp add: PGADDR_def push_bit_eq_mult unat_word_ariths unat_of_nat)
qed

lemma PGADDR_page:
  assumes "i < 1024" "j < 1024" shows "PGNUM (PGADDR i j 0) = 1024 * i + j"
  using PGADDR_nat [OF assms] by (simp add: PGNUM_nat)

text \<open>\<open>others_same K D d s s'\<close>: the other address spaces map what they mapped and the kernel's frames
  hold what they held.\<close>

definition others_same :: "nat set \<Rightarrow> nat set \<Rightarrow> nat \<Rightarrow> kstate \<Rightarrow> kstate \<Rightarrow> bool" where
  "others_same K D d s s' \<longleftrightarrow> (\<forall>d' \<in> D - {d}. \<forall>v < UPN. upte s' d' v = upte s d' v) \<and>
     (\<forall>f \<in> K. phys s' f = phys s f)"

lemma remove_mapped:
  assumes inv: "vm_inv s K D xs ex" and d: "d \<in> D" and va: "va < UTOP"
    and valid: "PTE_VALID (upte s d (PGNUM va))" and l: "lean s K D xs ex"
  shows "\<exists>s' ys. page_remove c d va s = Some ((), s') \<and> vm_inv s' K D ys ex \<and> lean s' K D ys ex \<and>
    keeps s s' \<and> set xs \<subseteq> set ys \<and> (\<forall>d' \<in> D. \<forall>i. utab s' d' i = utab s d' i) \<and>
    (\<forall>d' \<in> D. \<forall>v < UPN. upte s' d' v = (if d' = d \<and> v = PGNUM va then 0 else upte s d' v)) \<and>
    (\<forall>f \<in> K. phys s' f = phys s f)"
proof (rule remove_present [OF inv d va valid, of c], goal_cases)
  case (1 s')
  let ?p = "PGNUM (upte s d (PGNUM va))"
  let ?ys = "if refs s D ?p + ex ?p = 1 then ?p # xs else xs"
  have "lean s' K D ?ys ex"
    unfolding lean_def
  proof (intro allI impI)
    fix q assume q: "q < npages s'" "q \<notin> K \<and> refs s' D q + ex q = 0"
    have r: "refs s' D q + (if q = ?p then 1 else 0) = refs s D q" by (rule 1(9))
    show "q \<in> set ?ys"
    proof (cases "q = ?p")
      case True
      with q r show ?thesis by auto
    next
      case False
      then have "q \<in> set xs" using l q r 1(3) by (auto simp: lean_def keeps_def)
      then show ?thesis by auto
    qed
  qed
  moreover have "phys s' f = phys s f" if "f \<in> K" for f
    using 1(7) [of f] vm_invD(7) [OF inv d PDX_UTOP [OF va]] that by blast
  ultimately show ?case using 1 by (intro exI [of _ s'] exI [of _ ?ys]) auto
qed

subsection \<open>Emptying one page table\<close>

definition emptied :: "kstate \<Rightarrow> nat set \<Rightarrow> nat set \<Rightarrow> (nat \<Rightarrow> nat) \<Rightarrow> nat list \<Rightarrow> nat \<Rightarrow> nat \<Rightarrow> nat \<Rightarrow> kstate \<Rightarrow> bool" where
  "emptied s K D ex xs d i j s' \<longleftrightarrow> (\<exists>ys. vm_inv s' K D ys ex \<and> lean s' K D ys ex \<and> set xs \<subseteq> set ys) \<and>
     keeps s s' \<and> others_same K D d s s' \<and> (\<forall>d' \<in> D. \<forall>k. utab s' d' k = utab s d' k) \<and>
     (\<forall>v < UPN. if v div 1024 = i \<and> v mod 1024 < j then \<not> PTE_VALID (upte s' d v) else upte s' d v = upte s d v)"

lemma free_pte_step:
  assumes P: "emptied s K D ex xs d i j s1" and d: "d \<in> D" and i: "i < UPDX" and j: "j < 1024"
    and t: "utab s d i = Some t"
  shows "\<exists>s2. env_free_pte c d t i j s1 = Some ((), s2) \<and> emptied s K D ex xs d i (Suc j) s2"
proof -
  obtain ys where inv: "vm_inv s1 K D ys ex" "lean s1 K D ys ex" "set xs \<subseteq> set ys"
    using P unfolding emptied_def by blast
  have k: "keeps s s1" and o: "others_same K D d s s1" and ut: "\<And>d' k. d' \<in> D \<Longrightarrow> utab s1 d' k = utab s d' k"
    and up: "\<And>v. v < UPN \<Longrightarrow> if v div 1024 = i \<and> v mod 1024 < j then \<not> PTE_VALID (upte s1 d v) else upte s1 d v = upte s d v"
    using P unfolding emptied_def by auto
  let ?v = "1024 * i + j"
  have i': "i < 1024" using i by (simp add: UPDX_def)
  have v: "?v < UPN" "?v div 1024 = i" "?v mod 1024 = j" using i j by (auto simp: UPN_def UPDX_def)
  have pg: "PGNUM (PGADDR i j 0) = ?v" by (rule PGADDR_page [OF i' j])
  have va: "PGADDR i j 0 < UTOP" using v(1) by (simp add: UTOP_less pg)
  have u: "phys s1 t j = upte s1 d ?v" using t ut [OF d] v by (simp add: upte_def)
  have "w div 1024 = i \<and> w mod 1024 = j \<longleftrightarrow> w = ?v" for w
    using v(2,3) mult_div_mod_eq [of 1024 w] by auto
  then have split: "w div 1024 = i \<and> w mod 1024 < Suc j \<longleftrightarrow> w div 1024 = i \<and> w mod 1024 < j \<or> w = ?v" for w
    unfolding less_Suc_eq by blast
  show ?thesis
  proof (cases "PTE_VALID (phys s1 t j)")
    case True
    then have val: "PTE_VALID (upte s1 d (PGNUM (PGADDR i j 0)))" by (simp add: u pg)
    obtain s2 zs where s2: "page_remove c d (PGADDR i j 0) s1 = Some ((), s2)" "vm_inv s2 K D zs ex"
      "lean s2 K D zs ex" "keeps s1 s2" "set ys \<subseteq> set zs" "\<And>d' k. d' \<in> D \<Longrightarrow> utab s2 d' k = utab s1 d' k"
      "\<And>d' w. d' \<in> D \<Longrightarrow> w < UPN \<Longrightarrow> upte s2 d' w = (if d' = d \<and> w = ?v then 0 else upte s1 d' w)"
      "\<And>f. f \<in> K \<Longrightarrow> phys s2 f = phys s1 f"
      using remove_mapped [OF inv(1) d va val inv(2), of c] unfolding pg by blast
    have "emptied s K D ex xs d i (Suc j) s2"
      unfolding emptied_def
    proof (intro conjI)
      show "\<exists>ys. vm_inv s2 K D ys ex \<and> lean s2 K D ys ex \<and> set xs \<subseteq> set ys"
        using s2(2,3,5) inv(3) by blast
      show "keeps s s2" by (rule keeps_trans [OF k s2(4)])
      show "others_same K D d s s2" using o s2(7,8) by (auto simp: others_same_def)
    next
      show "\<forall>v < UPN. if v div 1024 = i \<and> v mod 1024 < Suc j then \<not> PTE_VALID (upte s2 d v) else upte s2 d v = upte s d v"
        unfolding split using up s2(7) [OF d] by auto
    qed (use s2(6) ut in auto)
    then show ?thesis using True s2(1) by (simp add: env_free_pte_def PTE_VALID_and)
  next
    case False
    then have "\<not> PTE_VALID (upte s1 d ?v)" by (simp add: u)
    then have "emptied s K D ex xs d i (Suc j) s1"
      using P up v(1) unfolding emptied_def split by (auto split: if_splits)
    then show ?thesis using False by (simp add: env_free_pte_def PTE_VALID_and)
  qed
qed

subsection \<open>Dropping an empty table\<close>

lemma drop_table:
  assumes inv: "vm_inv s K D xs ex" and d: "d \<in> D" and i: "i < UPDX" and t: "utab s d i = Some t"
    and empty: "\<forall>v < UPN. v div 1024 = i \<longrightarrow> \<not> PTE_VALID (upte s d v)"
  defines "s' \<equiv> set_word d i 0 s"
  shows "\<And>d' k. d' \<in> D \<Longrightarrow> utab s' d' k = (if d' = d \<and> k = i then None else utab s d' k)"
    and "\<And>d' v. d' \<in> D \<Longrightarrow> v < UPN \<Longrightarrow> upte s' d' v = (if d' = d \<and> v div 1024 = i then 0 else upte s d' v)"
    and "\<And>q. refs s' D q + (if q = t then 1 else 0) = refs s D q"
    and "vm_inv s' K D xs (ex(t := Suc (ex t)))"
proof -
  show ut: "utab s' d' k = (if d' = d \<and> k = i then None else utab s d' k)" for d' k
    by (auto simp: s'_def utab_def)
  show up: "upte s' d' v = (if d' = d \<and> v div 1024 = i then 0 else upte s d' v)"
    if "d' \<in> D" "v < UPN" for d' v
  proof -
    have "t' \<noteq> d" if "utab s d' (v div 1024) = Some t'" for t'
      using vm_invD(7) [OF inv \<open>d' \<in> D\<close> div_UPN [OF \<open>v < UPN\<close>] that] d by auto
    then show ?thesis by (auto simp: upte_def ut split: option.splits) (simp_all add: s'_def)
  qed
  have fin: "finite D" by (rule vm_invD(2) [OF inv])
  show r: "refs s' D q + (if q = t then 1 else 0) = refs s D q" for q
  proof -
    have "maps_to s' d' q = maps_to s d' q" if "d' \<in> D" for d'
      using up [OF that] empty unfolding maps_to_def by (auto split: if_splits)
    moreover have "tables_at s' d' q = tables_at s d' q" if "d' \<in> D - {d}" for d'
      using that ut by (auto simp: tables_at_def)
    moreover have "card (tables_at s' d q) + (if q = t then 1 else 0) = card (tables_at s d q)"
    proof (cases "q = t")
      case True
      then have "tables_at s d q = insert i (tables_at s' d q)" "i \<notin> tables_at s' d q"
        using ut t i by (auto simp: tables_at_def)
      then show ?thesis using True by simp
    next
      case False
      then have "tables_at s' d q = tables_at s d q" using ut t by (auto simp: tables_at_def)
      with False show ?thesis by simp
    qed
    ultimately have "(\<Sum>d'\<in>D. card (maps_to s' d' q) + card (tables_at s' d' q)) + (if q = t then 1 else 0)
      = (\<Sum>d'\<in>D. card (maps_to s d' q) + card (tables_at s d' q))"
      using d unfolding sum.remove [OF fin d] by simp
    then show ?thesis by (simp add: refs_def)
  qed
  have same: "npages s' = npages s" "pages s' = pages s" "page_free_list s' = page_free_list s"
    by (simp_all add: s'_def)
  show "vm_inv s' K D xs (ex(t := Suc (ex t)))"
  proof (rule vm_invI)
    show "alloc_inv s' xs" using vm_invD(1) [OF inv] by (simp add: alloc_inv_def free_list_def same)
    show "t' < npages s' \<and> t' \<notin> K \<and> t' \<notin> D" if "d' \<in> D" "k < UPDX" "utab s' d' k = Some t'" for d' k t'
      using vm_invD(7) [OF inv that(1,2)] that(3) ut [of d' k] same by (auto split: if_splits)
    show "d1 = d2 \<and> i1 = i2" if "d1 \<in> D" "d2 \<in> D" "i1 < UPDX" "i2 < UPDX"
      "utab s' d1 i1 = Some t'" "utab s' d2 i2 = Some t'" for d1 d2 i1 i2 t'
      using vm_invD(8) [OF inv that(1-4), of t'] that(5,6) ut by (auto split: if_splits)
    show "PGNUM (upte s' d' v) < npages s' \<and> PGNUM (upte s' d' v) \<notin> K \<and> \<not> structural s' D (PGNUM (upte s' d' v))"
      if "d' \<in> D" "v < UPN" "PTE_VALID (upte s' d' v)" for d' v
    proof -
      have "upte s' d' v = upte s d' v" using that(3) up [OF that(1,2)] by (auto split: if_splits)
      moreover have "structural s' D p \<Longrightarrow> structural s D p" for p
        using ut by (auto simp: structural_def split: if_splits)
      ultimately show ?thesis using vm_invD(9) [OF inv that(1,2)] that(3) same by auto
    qed
    show "unat (pp_ref (pages s' q)) = refs s' D q + (ex(t := Suc (ex t))) q" if "q < npages s'" "q \<notin> K" for q
      using vm_invD(10) [OF inv, of q] that r [of q] same by (auto split: if_splits)
  qed (use vm_invD(2-5) [OF inv] same in auto)
qed

text \<open>Dropping a counted reference keeps the free list complete.\<close>

lemma decref_lean:
  assumes inv: "vm_inv s K D xs (ex(p := Suc (ex p)))" and p: "p < npages s" "p \<notin> K"
    and l: "lean s K D xs (ex(p := Suc (ex p)))"
  shows "\<exists>s' ys. page_decref p s = Some ((), s') \<and> phys s' = phys s \<and> keeps s s' \<and>
     vm_inv s' K D ys ex \<and> lean s' K D ys ex \<and> set xs \<subseteq> set ys"
proof -
  let ?ys = "if refs s D p + ex p = 0 then p # xs else xs"
  obtain s' where s': "page_decref p s = Some ((), s')" "phys s' = phys s" "keeps s s'" "vm_inv s' K D ?ys ex"
    using decref_inv [OF inv p] by blast
  have "lean s' K D ?ys ex"
    unfolding lean_def
  proof (intro allI impI)
    fix q assume "q < npages s'" "q \<notin> K \<and> refs s' D q + ex q = 0"
    then have q: "q < npages s" "q \<notin> K" "refs s D q + ex q = 0"
      using phys_congs(3) [OF s'(2)] s'(3) by (auto simp: keeps_def)
    show "q \<in> set ?ys"
    proof (cases "q = p")
      case True
      with q show ?thesis by simp
    next
      case False
      then have "q \<in> set xs" using l q by (auto simp: lean_def)
      then show ?thesis by simp
    qed
  qed
  with s' show ?thesis by (intro exI [of _ s'] exI [of _ ?ys]) auto
qed

definition torn :: "kstate \<Rightarrow> nat set \<Rightarrow> nat set \<Rightarrow> (nat \<Rightarrow> nat) \<Rightarrow> nat list \<Rightarrow> nat \<Rightarrow> nat \<Rightarrow> kstate \<Rightarrow> bool" where
  "torn s K D ex xs d i s' \<longleftrightarrow> (\<exists>ys. vm_inv s' K D ys ex \<and> lean s' K D ys ex \<and> set xs \<subseteq> set ys) \<and>
     keeps s s' \<and> others_same K D d s s' \<and> (\<forall>d' \<in> D - {d}. \<forall>k. utab s' d' k = utab s d' k) \<and>
     (\<forall>k < i. utab s' d k = None)"

lemma free_pde_step:
  assumes P: "torn s K D ex xs d i s1" and d: "d \<in> D" and i: "i < UPDX"
  shows "\<exists>s2. env_free_pde c d i s1 = Some ((), s2) \<and> torn s K D ex xs d (Suc i) s2"
proof -
  obtain ys where inv: "vm_inv s1 K D ys ex" "lean s1 K D ys ex" "set xs \<subseteq> set ys"
    using P unfolding torn_def by blast
  have k: "keeps s s1" and o: "others_same K D d s s1"
    and ut: "\<And>d' k. d' \<in> D - {d} \<Longrightarrow> utab s1 d' k = utab s d' k" and gone: "\<And>k. k < i \<Longrightarrow> utab s1 d k = None"
    using P unfolding torn_def by auto
  have pde: "phys s1 d i AND PTE_P = 0 \<longleftrightarrow> utab s1 d i = None"
    by (auto simp: utab_def PTE_VALID_and)
  show ?thesis
  proof (cases "utab s1 d i")
    case None
    then have "torn s K D ex xs d (Suc i) s1"
      using P unfolding torn_def by (auto simp: less_Suc_eq)
    with None pde show ?thesis by (simp add: env_free_pde_def)
  next
    case (Some t)
    have t: "t < npages s1" "t \<notin> K" using vm_invD(7) [OF inv(1) d i Some] by auto
    have pg: "PGNUM (phys s1 d i) = t" using Some by (auto simp: utab_def split: if_splits)
    have ptx: "PTX (- 1) = 1023"
      by (simp add: PTX_nat unsigned_minus_1_eq_mask mask_eq_exp_minus_1)
    have "\<exists>s2. each (env_free_pte c d t i) [0..<1024] s1 = Some ((), s2) \<and> emptied s1 K D ex ys d i 1024 s2"
    proof (rule each_upt_inv [where P = "emptied s1 K D ex ys d i"])
      show "emptied s1 K D ex ys d i 0 s1" using inv by (auto simp: emptied_def others_same_def)
      show "\<exists>s'. env_free_pte c d t i j s = Some ((), s') \<and> emptied s1 K D ex ys d i (Suc j) s'"
        if "j < 1024" "emptied s1 K D ex ys d i j s" for j s
        by (rule free_pte_step [OF that(2) d i that(1) Some])
    qed
    then obtain s2 zs where s2: "each (env_free_pte c d t i) [0..<1024] s1 = Some ((), s2)"
      "vm_inv s2 K D zs ex" "lean s2 K D zs ex" "set ys \<subseteq> set zs" "keeps s1 s2" "others_same K D d s1 s2"
      "\<And>d' k. d' \<in> D \<Longrightarrow> utab s2 d' k = utab s1 d' k"
      "\<forall>v < UPN. v div 1024 = i \<longrightarrow> \<not> PTE_VALID (upte s2 d v)"
      unfolding emptied_def by auto
    have t2: "utab s2 d i = Some t" using s2(7) [OF d] Some by simp
    let ?s = "set_word d i 0 s2"
    note dt = drop_table [OF s2(2) d i t2 s2(8)]
    have np: "npages ?s = npages s1" using s2(5) by (simp add: keeps_def)
    have "lean ?s K D zs (ex(t := Suc (ex t)))"
      using s2(3) dt(3) np s2(5) unfolding lean_def by (fastforce simp: keeps_def split: if_splits)
    then obtain s3 ws where s3: "page_decref t ?s = Some ((), s3)" "phys s3 = phys ?s" "keeps ?s s3"
      "vm_inv s3 K D ws ex" "lean s3 K D ws ex" "set zs \<subseteq> set ws"
      using decref_lean [OF dt(4)] t np by auto
    note c3 = phys_congs [OF s3(2)]
    have dK: "d \<notin> K" using vm_invD(4) [OF inv(1)] d by auto
    have "torn s K D ex xs d (Suc i) s3"
      unfolding torn_def
    proof (intro conjI)
      show "\<exists>ys. vm_inv s3 K D ys ex \<and> lean s3 K D ys ex \<and> set xs \<subseteq> set ys"
        using s3(4-6) s2(4) inv(3) by blast
      have "keeps s2 ?s" by (simp add: keeps_def)
      then show "keeps s s3" using k s2(5) s3(3) by (blast intro: keeps_trans)
      show "others_same K D d s s3"
        using o s2(6) dt(2) dK by (auto simp: others_same_def c3 s3(2))
      show "\<forall>d' \<in> D - {d}. \<forall>k. utab s3 d' k = utab s d' k" using ut s2(7) dt(1) by (auto simp: c3)
      show "\<forall>k < Suc i. utab s3 d k = None" using gone s2(7) [OF d] dt(1) [OF d] by (auto simp: c3 less_Suc_eq)
    qed
    moreover have "env_free_pde c d i s1 = Some ((), s3)"
      using s2(1) s3(1) t Some pde by (simp add: env_free_pde_def KADDR_def pa2page_def pg ptx np [simplified] del: upt_Suc)
    ultimately show ?thesis by blast
  qed
qed


subsection \<open>Dropping the directory\<close>

lemma vm_inv_same:
  assumes "phys s' = phys s" "npages s' = npages s" "pages s' = pages s" "page_free_list s' = page_free_list s"
  shows "vm_inv s' K D xs ex = vm_inv s K D xs ex" "lean s' K D xs ex = lean s K D xs ex"
  using phys_congs [OF assms(1)] assms
  by (simp_all add: vm_inv_def lean_def alloc_inv_def free_list_def)

lemma drop_dir:
  assumes inv: "vm_inv s K D xs ex" and d: "d \<in> D" and none: "\<And>k. k < UPDX \<Longrightarrow> utab s d k = None"
    and l: "lean s K D xs ex"
  shows "vm_inv s K (D - {d}) xs (ex(d := Suc (ex d)))" "lean s K (D - {d}) xs (ex(d := Suc (ex d)))"
proof -
  have fin: "finite D" by (rule vm_invD(2) [OF inv])
  have "upte s d v = 0" if "v < UPN" for v using none [OF div_UPN [OF that]] by (simp add: upte_def)
  then have "maps_to s d q = {}" "tables_at s d q = {}" for q using none by (auto simp: maps_to_def tables_at_def)
  then have r: "refs s (D - {d}) q + (if q = d then 1 else 0) = refs s D q" for q
    using d by (simp add: refs_def sum.remove [OF fin d])
  have st: "structural s (D - {d}) q \<Longrightarrow> structural s D q" for q by (auto simp: structural_def)
  show "vm_inv s K (D - {d}) xs (ex(d := Suc (ex d)))"
  proof (rule vm_invI)
    show "PGNUM (upte s d' v) < npages s \<and> PGNUM (upte s d' v) \<notin> K \<and> \<not> structural s (D - {d}) (PGNUM (upte s d' v))"
      if "d' \<in> D - {d}" "v < UPN" "PTE_VALID (upte s d' v)" for d' v
      using vm_invD(9) [OF inv _ that(2,3)] that(1) st by blast
    show "unat (pp_ref (pages s q)) = refs s (D - {d}) q + (ex(d := Suc (ex d))) q" if "q < npages s" "q \<notin> K" for q
      using vm_invD(10) [OF inv that] r [of q] by (auto split: if_splits)
    show "t < npages s \<and> t \<notin> K \<and> t \<notin> D - {d}" if "d' \<in> D - {d}" "i < UPDX" "utab s d' i = Some t" for d' i t
      using vm_invD(7) [OF inv _ that(2,3)] that(1) by blast
    show "d1 = d2 \<and> i1 = i2" if "d1 \<in> D - {d}" "d2 \<in> D - {d}" "i1 < UPDX" "i2 < UPDX"
      "utab s d1 i1 = Some t" "utab s d2 i2 = Some t" for d1 d2 i1 i2 t
      using vm_invD(8) [OF inv _ _ that(3-6)] that(1,2) by blast
  qed (use vm_invD(1-5) [OF inv] in auto)
  show "lean s K (D - {d}) xs (ex(d := Suc (ex d)))"
    unfolding lean_def
  proof (intro allI impI)
    fix q assume q: "q < npages s" "q \<notin> K \<and> refs s (D - {d}) q + (ex(d := Suc (ex d))) q = 0"
    then have "q \<noteq> d" by auto
    with q r [of q] l show "q \<in> set xs" by (auto simp: lean_def)
  qed
qed

end
