(* ===== verification/EnvSpec.thy ===== *)
theory EnvSpec
  imports Teardown
begin

text \<open>
  The invariant of the environment table, and what creating and freeing an environment do to it:
  ids, free list, address spaces and every page reference.
\<close>

subsection \<open>Adding a directory\<close>

lemma add_dir:
  assumes inv: "vm_inv s K D (d # xs) ex" and np: "npages s' = npages s"
    and ph: "\<And>f. f \<noteq> d \<Longrightarrow> phys s' f = phys s f" and row: "\<And>k. k < UPDX \<Longrightarrow> \<not> PTE_VALID (phys s' d k)"
    and ai: "alloc_inv s' xs" and rd: "pp_ref (pages s' d) = pp_ref (pages s d) + 1"
    and ro: "\<And>q. q \<noteq> d \<Longrightarrow> pp_ref (pages s' q) = pp_ref (pages s q)"
  shows "vm_inv s' K (insert d D) xs ex"
    and "\<And>d' v. d' \<in> D \<Longrightarrow> v < UPN \<Longrightarrow> upte s' d' v = upte s d' v"
    and "\<And>v. v < UPN \<Longrightarrow> upte s' d v = 0" and "d \<notin> D"
    and "lean s K D (d # xs) ex \<Longrightarrow> lean s' K (insert d D) xs ex"
proof -
  have t: "refs s D d = 0" "ex d = 0" "d < npages s" "d \<notin> K" "pp_ref (pages s d) = 0"
    using free_page_unused [OF inv, of d] by auto
  have fin: "finite D" by (rule vm_invD(2) [OF inv])
  note un = refs_zeroD [OF fin t(1)]
  show dD: "d \<notin> D" by (rule un(1))
  have ut: "utab s' d' k = utab s d' k" if "d' \<noteq> d" for d' k using ph that by (simp add: utab_def)
  have utd: "utab s' d k = None" if "k < UPDX" for k using row [OF that] by (simp add: utab_def)
  show up: "upte s' d' v = upte s d' v" if "d' \<in> D" "v < UPN" for d' v
  proof -
    have ne: "d' \<noteq> d" using dD that(1) by blast
    have "t' \<noteq> d" if "utab s d' (v div 1024) = Some t'" for t'
      using un(2) [OF \<open>d' \<in> D\<close> div_UPN [OF \<open>v < UPN\<close>]] that by auto
    then show ?thesis using ut [OF ne] ph by (auto simp: upte_def split: option.splits)
  qed
  show upd: "upte s' d v = 0" if "v < UPN" for v using utd [OF div_UPN [OF that]] by (simp add: upte_def)
  have r: "refs s' (insert d D) q = refs s D q + (if q = d then 1 else 0)" for q
  proof -
    have "maps_to s' d q = {}" "tables_at s' d q = {}" using upd utd by (auto simp: maps_to_def tables_at_def)
    moreover have "maps_to s' d' q = maps_to s d' q \<and> tables_at s' d' q = tables_at s d' q" if "d' \<in> D" for d'
    proof -
      have "d' \<noteq> d" using dD that by blast
      then show ?thesis using up [OF that] ut by (auto simp: maps_to_def tables_at_def)
    qed
    ultimately show ?thesis using dD fin by (simp add: refs_def)
  qed
  have st: "structural s' (insert d D) q \<longleftrightarrow> structural s D q \<or> q = d" for q
  proof -
    have "(\<exists>i < UPDX. utab s' d' i = Some q) = (\<exists>i < UPDX. utab s d' i = Some q)" if "d' \<in> D" for d'
    proof -
      have "d' \<noteq> d" using dD that by blast
      then show ?thesis using ut by simp
    qed
    then show ?thesis using utd unfolding structural_def by (simp cong: bex_cong) (use utd in force)
  qed
  show "vm_inv s' K (insert d D) xs ex"
  proof (rule vm_invI)
    show "alloc_inv s' xs" by (rule ai)
    show "t' < npages s' \<and> t' \<notin> K \<and> t' \<notin> insert d D"
      if "d' \<in> insert d D" "k < UPDX" "utab s' d' k = Some t'" for d' k t'
    proof -
      have "d' \<in> D" "d' \<noteq> d" using that utd by auto
      then show ?thesis using vm_invD(7) [OF inv _ that(2)] that(3) ut un(2) [of d' k] np that(2) by auto
    qed
    show "d1 = d2 \<and> i1 = i2" if "d1 \<in> insert d D" "d2 \<in> insert d D" "i1 < UPDX" "i2 < UPDX"
      "utab s' d1 i1 = Some t'" "utab s' d2 i2 = Some t'" for d1 d2 i1 i2 t'
    proof -
      have "d1 \<noteq> d" "d2 \<noteq> d" using that utd by auto
      then show ?thesis using vm_invD(8) [OF inv _ _ that(3,4)] that ut by auto
    qed
    show "PGNUM (upte s' d' v) < npages s' \<and> PGNUM (upte s' d' v) \<notin> K \<and>
        \<not> structural s' (insert d D) (PGNUM (upte s' d' v))"
      if "d' \<in> insert d D" "v < UPN" "PTE_VALID (upte s' d' v)" for d' v
    proof -
      have "d' \<in> D" using that upd by auto
      then show ?thesis
        using vm_invD(9) [OF inv _ that(2)] that up un(3) [of d' v] st np by auto
    qed
    show "unat (pp_ref (pages s' q)) = refs s' (insert d D) q + ex q" if "q < npages s'" "q \<notin> K" for q
      using vm_invD(10) [OF inv, of q] that np r [of q] t rd ro [of q] by (cases "q = d") auto
  qed (use vm_invD(2-5) [OF inv] t np in auto)
  show "lean s' K (insert d D) xs ex" if "lean s K D (d # xs) ex"
    using that r np by (auto simp: lean_def split: if_splits)
qed

lemma clear10: "unat ((x :: u32) AND NOT 0x3FF) = 1024 * (unat x div 1024)"
proof -
  have "x AND NOT 0x3FF = push_bit 10 (drop_bit 10 x)"
    unfolding mask10 by (rule bit_word_eqI) (auto simp: bit_push_bit_iff bit_drop_bit_eq bit_mask_iff bit_and_iff bit_not_iff)
  then have "unat (x AND NOT 0x3FF) = unat (push_bit 10 (drop_bit 10 x))" by simp
  also have "\<dots> = 1024 * (unat x div 1024)"
  proof -
    have "unat x < 2 ^ LENGTH(32)" by (rule unsigned_less)
    then show ?thesis by (simp add: push_bit_eq_mult drop_bit_eq_div unat_word_ariths unat_div)
  qed
  finally show ?thesis .
qed
lemma clear10': "unat ((x :: u32) AND - 1024) = 1024 * (unat x div 1024)"
  using clear10 [of x] by simp

lemma sint_nonpos: "sint (x :: u32) \<le> 0 \<longleftrightarrow> unat x = 0 \<or> 2 ^ 31 \<le> unat x"
proof -
  define n where "n = unat x"
  have n: "uint x = int n" by (simp add: n_def)
  have "unat x < 2 ^ LENGTH(32)" by (rule unsigned_less)
  then have "n < 4294967296" by (simp add: n_def)
  then have u: "int n < 4294967296" by linarith
  have s: "sint x = (int n + 2147483648) mod 4294967296 - 2147483648"
    by (simp add: sint_uint signed_take_bit_eq_take_bit_shift n take_bit_eq_mod)
  have nx: "unat x = n" by (simp add: n_def)
  show ?thesis
  proof (cases "n < 2147483648")
    case True
    then have "(int n + 2147483648) mod 4294967296 = int n + 2147483648" by simp
    then show ?thesis using True s nx by auto
  next
    case False
    then have "((int n - 2147483648) + 4294967296) mod 4294967296 = int n - 2147483648"
      using u by (subst mod_add_self2) (rule mod_pos_pos_trivial, linarith+)
    then have "(int n + 2147483648) mod 4294967296 = int n - 2147483648" by (simp add: add.commute)
    then show ?thesis using False s u nx by auto
  qed
qed

lemma ENVX_nat: "ENVX x = unat x mod 1024"
  by (simp add: ENVX_def NENV_def mask10 unsigned_take_bit_eq flip: take_bit_eq_mask)
    (simp add: take_bit_eq_mod unat_mod)

text \<open>The id of a slot after its next allocation names the slot, is positive, and is new.\<close>

lemma next_env_id:
  assumes e: "e < NENV"
  shows "ENVX (next_env_id e old) = e" "0 < sint (next_env_id e old)" "next_env_id e old \<noteq> old"
proof -
  let ?g = "(old + 0x1000) AND NOT 0x3FF"
  define g where "g = (if sint ?g \<le> 0 then 0x1000 else ?g)"
  have id: "next_env_id e old = g OR of_nat e"
    by (simp add: next_env_id_def g_def Let_def ENVGENSHIFT_def NENV_def push_bit_eq_mult)
  have e': "e < 1024" using e by (simp add: NENV_def)
  obtain h where h: "unat g = 1024 * h" "0 < h" "h < 2097152"
  proof (cases "sint ?g \<le> 0")
    case True
    then show ?thesis using that [of 4] by (simp add: g_def)
  next
    case False
    then have "unat ?g \<noteq> 0" "unat ?g < 2 ^ 31" by (auto simp: sint_nonpos)
    then show ?thesis using that [of "unat (old + 0x1000) div 1024"] False by (auto simp: g_def clear10')
  qed
  have low: "g AND 0x3FF = 0" "g AND NOT 0x3FF = g"
  proof -
    show "g AND NOT 0x3FF = g" using h(1) by (simp add: word_unat_eq_iff clear10')
    have "unat (g AND 0x3FF) = 0"
      using h(1) by (simp add: mask10 unsigned_take_bit_eq flip: take_bit_eq_mask) (simp add: take_bit_eq_mod unat_mod)
    then show "g AND 0x3FF = 0" by (simp add: unat_eq_0)
  qed
  have el: "(of_nat e :: u32) AND 0x3FF = of_nat e"
    using e' by (simp add: mask10 take_bit_of_nat take_bit_nat_eq_self flip: take_bit_eq_mask)
  have x: "unat (g OR of_nat e) = 1024 * h + e"
  proof -
    have "g AND of_nat e = (g AND 0x3FF) AND of_nat e" by (metis el and.assoc and.commute)
    then have "g AND of_nat e = 0" by (simp add: low)
    then have "g OR of_nat e = g + of_nat e"
      using word_plus_and_or [of g "of_nat e"] by simp
    then show ?thesis using h e' by (simp add: unat_word_ariths unat_of_nat)
  qed
  have "ENVX (g OR of_nat e) = unat (g OR of_nat e) mod 1024"
    by (rule ENVX_nat)
  then show "ENVX (next_env_id e old) = e" using e' by (simp add: id x)
  show "0 < sint (next_env_id e old)"
    using sint_nonpos [of "g OR of_nat e"] x h e' by (simp add: id)
  show "next_env_id e old \<noteq> old"
  proof
    assume "next_env_id e old = old"
    then have o: "unat old = 1024 * h + e" using x by (simp add: id)
    have "unat (old + 0x1000) = 1024 * (h + 4) + e"
      using o h e' by (simp add: unat_add_wrap)
    then have "unat (old + 0x1000) div 1024 = h + 4" using e' by (simp only: div_mult_self4)
    then have gg: "unat ?g = 1024 * (h + 4)" by (simp add: clear10')
    then have "g \<noteq> ?g" using h(1) by auto
    then have "sint ?g \<le> 0" "g = 0x1000" by (auto simp: g_def split: if_splits)
    then have "h = 4" using h(1) by simp
    with gg \<open>sint ?g \<le> 0\<close> show False by (simp add: sint_nonpos)
  qed
qed


subsection \<open>The environment table\<close>

text \<open>
  \<open>es\<close> is the list of free environments. Every other environment has its own page directory,
  those directories account for all page references, and no page is lost.
\<close>

definition dirs :: "kstate \<Rightarrow> nat list \<Rightarrow> nat set" where
  "dirs s es = {d. \<exists>e < NENV. e \<notin> set es \<and> env_pgdir (envs s e) = Some d}"

definition env_free_ok :: "kstate \<Rightarrow> nat list \<Rightarrow> bool" where
  "env_free_ok s es \<longleftrightarrow> linked (\<lambda>e. env_link (envs s e)) (env_free_list s) es \<and> set es \<subseteq> {..<NENV} \<and>
     (\<forall>e < NENV. env_status (envs s e) = ENV_FREE \<longleftrightarrow> e \<in> set es)"

definition env_dirs_ok :: "kstate \<Rightarrow> nat list \<Rightarrow> bool" where
  "env_dirs_ok s es \<longleftrightarrow>
     (\<forall>e < NENV. e \<notin> set es \<longrightarrow> env_pgdir (envs s e) \<noteq> None \<and> ENVX (env_id (envs s e)) = e) \<and>
     (\<forall>e < NENV. \<forall>e' < NENV. e \<notin> set es \<and> e' \<notin> set es \<and> env_pgdir (envs s e) = env_pgdir (envs s e') \<longrightarrow> e = e')"

definition kern_ok :: "kstate \<Rightarrow> nat set \<Rightarrow> bool" where
  "kern_ok s K \<longleftrightarrow> kern_pgdir s \<in> K \<and> (\<forall>k < UPDX. \<not> PTE_VALID (phys s (kern_pgdir s) k))"

definition env_inv :: "kstate \<Rightarrow> nat set \<Rightarrow> nat list \<Rightarrow> nat list \<Rightarrow> bool" where
  "env_inv s K xs es \<longleftrightarrow> vm_inv s K (dirs s es) xs (\<lambda>_. 0) \<and> lean s K (dirs s es) xs (\<lambda>_. 0) \<and>
     env_free_ok s es \<and> env_dirs_ok s es \<and> kern_ok s K"

lemma dirsI: "e < NENV \<Longrightarrow> e \<notin> set es \<Longrightarrow> env_pgdir (envs s e) = Some d \<Longrightarrow> d \<in> dirs s es"
  by (auto simp: dirs_def)

lemma env_free_ok_distinct: "env_free_ok s es \<Longrightarrow> distinct es"
  by (auto simp: env_free_ok_def dest: linked_distinct)

subsection \<open>Creating\<close>

lemma UVPT_PDX: "k < UPDX \<Longrightarrow> k \<noteq> PDX UVPT"
  by (simp add: UPDX_def PDX_nat layout_defs)

definition alloc_vm :: "nat \<Rightarrow> nat \<Rightarrow> kstate \<Rightarrow> kstate" where
  "alloc_vm e d s = (let s1 = upd_page d (\<lambda>q. q\<lparr>pp_ref := pp_ref q + 1\<rparr>)
       (upd_env e (\<lambda>x. x\<lparr>env_pgdir := Some d\<rparr>) (take_page ALLOC_ZERO d s)) in
     set_word d (PDX UVPT) (page2pa d OR PTE_P OR PTE_U) (s1\<lparr>phys := (phys s1)(d := phys s1 (kern_pgdir s1))\<rparr>))"

lemma env_setup_vm_ok:
  assumes "alloc_inv s (d # xs)"
  shows "env_setup_vm e s = Some (Inr (), alloc_vm e d s)"
proof -
  have "d < npages s" "npages s \<le> 1048576" using assms by (auto simp: alloc_inv_def)
  then show ?thesis
    by (simp add: env_setup_vm_def page_alloc_Cons [OF assms] page2kva_Some alloc_vm_def Let_def)
qed

lemma ftypes_env_msgs:
  "ftypes (''[%08x] new env %08x'' @ [CHR 0x0A]) = [TInt, TInt]"
  "ftypes (''[%08x] free env %08x'' @ [CHR 0x0A]) = [TInt, TInt]"
  by (simp_all add: fmt_simps)

lemma TInts: "list_all2 has_type [VInt a, VInt b] [TInt, TInt]" by simp

lemma env_alloc_cases:
  assumes inv: "env_inv s K xs es"
  shows "case es of
      [] \<Rightarrow> env_alloc c par s = Some (Inl E_NO_FREE_ENV, s)
    | e # es' \<Rightarrow> (case xs of
          [] \<Rightarrow> env_alloc c par s = Some (Inl E_NO_MEM, s)
        | d # xs' \<Rightarrow> \<exists>s'. env_alloc c par s = Some (Inr e, s') \<and> env_inv s' K xs' es' \<and>
            ENVX (env_id (envs s' e)) = e \<and> 0 < sint (env_id (envs s' e)) \<and>
            env_id (envs s' e) \<noteq> env_id (envs s e) \<and> env_parent_id (envs s' e) = par \<and>
            env_status (envs s' e) = ENV_RUNNABLE \<and> env_tf (envs s' e) = new_tf \<and>
            env_pgdir (envs s' e) = Some d \<and> (\<forall>v < UPN. upte s' d v = 0) \<and>
            (\<forall>e'. e' \<noteq> e \<longrightarrow> envs s' e' = envs s e') \<and> cpus s' = cpus s \<and> klock s' = klock s \<and>
            (\<forall>d' \<in> dirs s es. \<forall>v < UPN. upte s' d' v = upte s d' v))"
proof (cases es)
  case Nil
  then show ?thesis using inv by (simp add: env_alloc_def env_inv_def env_free_ok_def)
next
  case (Cons e es')
  have vm: "vm_inv s K (dirs s es) xs (\<lambda>_. 0)" and le: "lean s K (dirs s es) xs (\<lambda>_. 0)"
    and fo: "env_free_ok s es" and dk: "env_dirs_ok s es" and ko: "kern_ok s K"
    using inv by (auto simp: env_inv_def)
  have el: "env_free_list s = Some e" "e < NENV" "e \<notin> set es'" "env_status (envs s e) = ENV_FREE"
    using fo env_free_ok_distinct [OF fo] Cons by (auto simp: env_free_ok_def)
  show ?thesis
  proof (cases xs)
    case Nil
    have "page_alloc ALLOC_ZERO s = Some (None, s)"
      using vm_invD(1) [OF vm] Nil by (simp add: page_alloc_Nil)
    then show ?thesis using Cons Nil el(1) by (simp add: env_alloc_def env_setup_vm_def)
  next
    case (Cons d xs')
    note es = \<open>es = e # es'\<close>
    define s1 where "s1 = alloc_vm e d s"
    define s2 where "s2 = upd_env e (\<lambda>x. x\<lparr>env_id := next_env_id e (env_id x), env_parent_id := par,
        env_type := ENV_TYPE_USER, env_status := ENV_RUNNABLE, env_runs := 0,
        env_tf := new_tf, env_pgfault_upcall := 0, env_ipc_recving := False\<rparr>) s1"
    define s3 where "s3 = s2\<lparr>env_free_list := env_link (envs s2 e)\<rparr>"
    obtain k where k: "cprintf (''[%08x] new env %08x'' @ [CHR 0x0A]) [VInt (cur_id c s3), VInt (env_id (envs s3 e))] s3 =
        Some ((), s3\<lparr>kcons := k\<rparr>)"
      using cprintf_typed [OF ftypes_env_msgs(1)] by (metis TInts)
    define s' where "s' = s3\<lparr>kcons := k\<rparr>"
    have vm': "vm_inv s K (dirs s es) (d # xs') (\<lambda>_. 0)" using vm Cons by simp
    have ai: "alloc_inv s (d # xs')" by (rule vm_invD(1) [OF vm'])
    have run: "env_alloc c par s = Some (Inr e, s')"
      by (simp add: env_alloc_def el(1) env_setup_vm_ok [OF ai] s'_def Let_def
          k [unfolded s3_def s2_def s1_def, simplified] s3_def s2_def s1_def)
    have dk': "d \<notin> K" using free_page_unused(4) [OF vm', of d] by simp
    have kd: "kern_pgdir s \<noteq> d" using ko dk' by (auto simp: kern_ok_def)
    have sel: "npages s' = npages s" "kern_pgdir s' = kern_pgdir s" "cpus s' = cpus s" "klock s' = klock s"
      "env_free_list s' = env_link (envs s e)"
      "\<And>f. f \<noteq> d \<Longrightarrow> phys s' f = phys s f" "\<And>k. k < UPDX \<Longrightarrow> phys s' d k = phys s (kern_pgdir s) k"
      "pp_ref (pages s' d) = pp_ref (pages s d) + 1" "\<And>q. q \<noteq> d \<Longrightarrow> pp_ref (pages s' q) = pp_ref (pages s q)"
      "\<And>e'. e' \<noteq> e \<Longrightarrow> envs s' e' = envs s e'" "env_pgdir (envs s' e) = Some d"
      "env_id (envs s' e) = next_env_id e (env_id (envs s e))" "env_status (envs s' e) = ENV_RUNNABLE"
      "env_parent_id (envs s' e) = par" "env_tf (envs s' e) = new_tf"
      using kd UVPT_PDX
      by (auto simp: s'_def s3_def s2_def s1_def alloc_vm_def Let_def ALLOC_ZERO_def take_page_def zero_frame_def)
    have ai': "alloc_inv s' xs'"
      using take_page_inv [OF ai, of ALLOC_ZERO] alloc_inv_distinct [OF ai]
      by (auto simp: s'_def s3_def s2_def s1_def alloc_vm_def Let_def alloc_inv_def free_list_def)
    have row: "\<not> PTE_VALID (phys s' d k)" if "k < UPDX" for k
      using sel(7) [OF that] ko that by (simp add: kern_ok_def)
    note ad = add_dir [OF vm' sel(1,6) row ai' sel(8,9)]
    have ds: "dirs s' es' = insert d (dirs s es)"
    proof -
      have "dirs s' es' = {d'. env_pgdir (envs s' e) = Some d' \<or>
          (\<exists>e' < NENV. e' \<noteq> e \<and> e' \<notin> set es' \<and> env_pgdir (envs s' e') = Some d')}"
        using el(2,3) unfolding dirs_def by blast
      also have "\<dots> = insert d (dirs s es)"
        using sel(10,11) es unfolding dirs_def by auto
      finally show ?thesis .
    qed
    have "env_free_ok s' es'"
      unfolding env_free_ok_def
    proof (intro conjI allI impI)
      have "linked (\<lambda>e. env_link (envs s e)) (env_link (envs s e)) es'" using fo es by (simp add: env_free_ok_def)
      then show "linked (\<lambda>e. env_link (envs s' e)) (env_free_list s') es'"
        unfolding sel(5) by (rule linked_cong [THEN iffD1, rotated]) (use el(3) sel(10) in metis)
      show "set es' \<subseteq> {..<NENV}" using fo es by (auto simp: env_free_ok_def)
      show "(env_status (envs s' e') = ENV_FREE) = (e' \<in> set es')" if "e' < NENV" for e'
        using fo es el(3) sel(10,13) that by (cases "e' = e") (auto simp: env_free_ok_def)
    qed
    moreover have "env_dirs_ok s' es'"
    proof -
      have "ENVX (env_id (envs s' e')) = e' \<and> env_pgdir (envs s' e') \<noteq> None" if "e' < NENV" "e' \<notin> set es'" for e'
        using dk that es sel(10,11,12) next_env_id(1) [OF el(2)] by (cases "e' = e") (auto simp: env_dirs_ok_def)
      moreover have "e1 = e2" if "e1 < NENV" "e2 < NENV" "e1 \<notin> set es'" "e2 \<notin> set es'"
        "env_pgdir (envs s' e1) = env_pgdir (envs s' e2)" for e1 e2
      proof -
        have new: "env_pgdir (envs s e') \<noteq> Some d" if "e' < NENV" "e' \<notin> set es'" "e' \<noteq> e" for e'
          using dirsI [of e' es s d] ad(4) that es by auto
        consider "e1 = e" "e2 = e" | "e1 = e" "e2 \<noteq> e" | "e1 \<noteq> e" "e2 = e" | "e1 \<noteq> e" "e2 \<noteq> e" by blast
        then show ?thesis
        proof cases
          case 4
          then have "e1 \<notin> set es" "e2 \<notin> set es" "env_pgdir (envs s e1) = env_pgdir (envs s e2)"
            using that(3-5) es sel(10) by auto
          with dk that(1,2) show ?thesis unfolding env_dirs_ok_def by blast
        qed (use that new [of e1] new [of e2] sel(10) [of e1] sel(10) [of e2] sel(11) in simp_all)
      qed
      ultimately show ?thesis unfolding env_dirs_ok_def by blast
    qed
    moreover have "kern_ok s' K" using ko kd sel(2,6) by (simp add: kern_ok_def)
    ultimately have inv': "env_inv s' K xs' es'"
      using ad(1) ad(5) le Cons by (simp add: env_inv_def ds)
    show ?thesis
      unfolding es Cons list.case
      by (intro exI [of _ s'] conjI)
        (use run inv' sel next_env_id [OF el(2)] ad(2,3) es Cons in simp_all)
  qed
qed


subsection \<open>Freeing\<close>

lemma torn_all:
  assumes inv: "vm_inv s K D xs ex" and l: "lean s K D xs ex" and d: "d \<in> D"
  shows "\<exists>s1. each (env_free_pde c d) [0..<PDX UTOP] s = Some ((), s1) \<and> torn s K D ex xs d UPDX s1"
  unfolding UPDX_UTOP
proof (rule each_upt_inv [where P = "torn s K D ex xs d"])
  show "torn s K D ex xs d 0 s" using inv l by (auto simp: torn_def others_same_def)
qed (rule free_pde_step [OF _ d])

lemma env_free_ok_full:
  assumes inv: "env_inv s K xs es" and e: "e < NENV" "e \<notin> set es" and pd: "env_pgdir (envs s e) = Some d"
  shows "\<exists>s' ys. env_free c e s = Some ((), s') \<and> env_inv s' K ys (e # es) \<and> set xs \<subseteq> set ys \<and> d \<in> set ys \<and>
    dirs s' (e # es) = dirs s es - {d} \<and> env_id (envs s' e) = env_id (envs s e) \<and>
    (\<forall>d' \<in> dirs s es - {d}. \<forall>v < UPN. upte s' d' v = upte s d' v) \<and>
    (\<forall>e'. e' \<noteq> e \<longrightarrow> envs s' e' = envs s e') \<and> klock s' = klock s \<and>
    (\<forall>c'. cpu_env (cpus s' c') = cpu_env (cpus s c') \<and> cpu_status (cpus s' c') = cpu_status (cpus s c')) \<and>
    (\<forall>c'. c' \<noteq> c \<longrightarrow> cpus s' c' = cpus s c')"
proof -
  have vm: "vm_inv s K (dirs s es) xs (\<lambda>_. 0)" and le: "lean s K (dirs s es) xs (\<lambda>_. 0)"
    and fo: "env_free_ok s es" and dk: "env_dirs_ok s es" and ko: "kern_ok s K"
    using inv by (auto simp: env_inv_def)
  let ?D = "dirs s es" and ?z = "\<lambda>_. 0 :: nat"
  have d: "d \<in> ?D" by (rule dirsI [OF e pd])
  define sp where "sp = (if Some e = curenv c s then lcr3 c (page2pa (kern_pgdir s)) s else s)"
  obtain k where k: "cprintf (''[%08x] free env %08x'' @ [CHR 0x0A]) [VInt (cur_id c sp), VInt (env_id (envs sp e))] sp =
      Some ((), sp\<lparr>kcons := k\<rparr>)"
    using cprintf_typed [OF ftypes_env_msgs(2)] by (metis TInts)
  define s0 where "s0 = sp\<lparr>kcons := k\<rparr>"
  have s0: "phys s0 = phys s" "npages s0 = npages s" "pages s0 = pages s" "page_free_list s0 = page_free_list s"
    "envs s0 = envs s" "kern_pgdir s0 = kern_pgdir s" "env_free_list s0 = env_free_list s"
    "klock s0 = klock s" "\<And>c'. cpu_env (cpus s0 c') = cpu_env (cpus s c')" "\<And>c'. cpu_status (cpus s0 c') = cpu_status (cpus s c')"
    "\<And>c'. c' \<noteq> c \<Longrightarrow> cpus s0 c' = cpus s c'"
    by (simp_all add: s0_def sp_def lcr3_def)
  note same0 = vm_inv_same [OF s0(1-4)]
  obtain s1 where s1: "each (env_free_pde c d) [0..<PDX UTOP] s0 = Some ((), s1)" "torn s0 K ?D ?z xs d UPDX s1"
    using torn_all [of s0 K ?D xs ?z d c] vm le d same0 by auto
  obtain ys where ys: "vm_inv s1 K ?D ys ?z" "lean s1 K ?D ys ?z" "set xs \<subseteq> set ys"
    using s1(2) unfolding torn_def by blast
  have k1: "keeps s0 s1" and o1: "others_same K ?D d s0 s1" and none: "\<And>k. k < UPDX \<Longrightarrow> utab s1 d k = None"
    using s1(2) unfolding torn_def by auto
  have db: "d < npages s1" "d \<notin> K" "d < 1048576"
    using vm_invD(4,6) [OF ys(1)] vm_invD(5) [OF ys(1) d] d by auto
  define s2 where "s2 = upd_env e (\<lambda>x. x\<lparr>env_pgdir := None\<rparr>) s1"
  have e2: "phys s2 = phys s1" "npages s2 = npages s1" "pages s2 = pages s1" "page_free_list s2 = page_free_list s1"
    by (simp_all add: s2_def)
  note same2 = vm_inv_same [OF e2]
  have dd: "vm_inv s2 K (?D - {d}) ys (?z(d := Suc (?z d)))" "lean s2 K (?D - {d}) ys (?z(d := Suc (?z d)))"
    using drop_dir [OF ys(1) d none ys(2)] same2 by simp_all
  obtain s3 zs where s3: "page_decref d s2 = Some ((), s3)" "phys s3 = phys s2" "keeps s2 s3"
    "vm_inv s3 K (?D - {d}) zs ?z" "lean s3 K (?D - {d}) zs ?z" "set ys \<subseteq> set zs"
    using decref_lean [OF dd(1) _ db(2) dd(2)] db(1) e2(2) by auto
  define s4 where "s4 = upd_env e (\<lambda>x. x\<lparr>env_status := ENV_FREE, env_link := env_free_list s3\<rparr>) s3"
  define s' where "s' = s4\<lparr>env_free_list := Some e\<rparr>"
  have "pa2page (page2pa d) s2 = Some d"
    using db by (simp add: pa2page_def PGNUM_page2pa s2_def)
  then have run: "env_free c e s = Some ((), s')"
    using pd s1(1) s3(1) by (simp add: env_free_def Let_def s0 s4_def s'_def s2_def [symmetric] k [simplified] flip: sp_def s0_def)
  have e4: "phys s' = phys s3" "npages s' = npages s3" "pages s' = pages s3" "page_free_list s' = page_free_list s3"
    by (simp_all add: s'_def s4_def)
  note same4 = vm_inv_same [OF e4]
  have sel: "\<And>e'. e' \<noteq> e \<Longrightarrow> envs s' e' = envs s e'" "env_status (envs s' e) = ENV_FREE"
    "env_link (envs s' e) = env_free_list s" "env_free_list s' = Some e" "kern_pgdir s' = kern_pgdir s"
    "env_id (envs s' e) = env_id (envs s e)" "klock s' = klock s"
    "\<And>c'. cpu_env (cpus s' c') = cpu_env (cpus s c')" "\<And>c'. cpu_status (cpus s' c') = cpu_status (cpus s c')"
    "\<And>c'. c' \<noteq> c \<Longrightarrow> cpus s' c' = cpus s c'"
    using k1 s3(3) s0 by (auto simp: s'_def s4_def s2_def keeps_def)
  have ds: "dirs s' (e # es) = ?D - {d}"
  proof -
    have "env_pgdir (envs s e') \<noteq> Some d" if "e' < NENV" "e' \<notin> set es" "e' \<noteq> e" for e'
      using dk that e pd unfolding env_dirs_ok_def by metis
    moreover have "dirs s' (e # es) = {d'. \<exists>e' < NENV. e' \<notin> set es \<and> e' \<noteq> e \<and> env_pgdir (envs s e') = Some d'}"
      using sel(1) unfolding dirs_def by auto
    moreover have "?D = insert d {d'. \<exists>e' < NENV. e' \<notin> set es \<and> e' \<noteq> e \<and> env_pgdir (envs s e') = Some d'}"
      using e pd unfolding dirs_def by auto
    ultimately show ?thesis by auto
  qed
  have "linked (\<lambda>e'. env_link (envs s' e')) (env_free_list s) es"
  proof -
    have "env_link (envs s' x) = env_link (envs s x)" if "x \<in> set es" for x
    proof -
      have "x \<noteq> e" using that e(2) by blast
      then show ?thesis by (simp add: sel(1))
    qed
    then have "linked (\<lambda>e'. env_link (envs s' e')) (env_free_list s) es =
        linked (\<lambda>e'. env_link (envs s e')) (env_free_list s) es" by (rule linked_cong)
    then show ?thesis using fo by (simp add: env_free_ok_def)
  qed
  then have "env_free_ok s' (e # es)"
  proof -
    have "(env_status (envs s' x) = ENV_FREE) = (x \<in> set (e # es))" if "x < NENV" for x
      using fo sel(1) [of x] sel(2) that by (cases "x = e") (auto simp: env_free_ok_def)
    moreover have "set (e # es) \<subseteq> {..<NENV}" using fo e(1) by (auto simp: env_free_ok_def)
    ultimately show ?thesis
      using \<open>linked _ (env_free_list s) es\<close> sel(3,4) unfolding env_free_ok_def by simp
  qed
  moreover have "env_dirs_ok s' (e # es)"
    using dk sel(1) unfolding env_dirs_ok_def by auto
  moreover have "kern_ok s' K"
    using ko o1 by (simp add: kern_ok_def sel e4 s3(2) e2 others_same_def s0)
  ultimately have inv': "env_inv s' K zs (e # es)"
    using s3(4,5) same4 by (simp add: env_inv_def ds)
  have "upte s' d' v = upte s d' v" if "d' \<in> ?D - {d}" "v < UPN" for d' v
    using o1 that phys_congs(2) [of s' s1] phys_congs(2) [OF s0(1)] e4(1) s3(2) e2(1)
    by (auto simp: others_same_def)
  moreover have "d \<in> set zs"
  proof -
    have "refs s3 (?D - {d}) d = 0"
    proof -
      have "\<not> structural s3 (?D - {d}) d"
      proof
        assume "structural s3 (?D - {d}) d"
        then obtain d' i where di: "d' \<in> ?D" "i < UPDX" "utab s3 d' i = Some d" by (auto simp: structural_def)
        have "utab s1 d' i = Some d" using di(3) phys_congs(1) [of s3 s1] s3(2) e2(1) by simp
        then show False using vm_invD(7) [OF ys(1) di(1,2)] d by auto
      qed
      moreover have "maps_to s3 d' d = {}" if "d' \<in> ?D - {d}" for d'
      proof -
        have "d' \<in> ?D" using that by simp
        have "\<not> (PTE_VALID (upte s3 d' v) \<and> PGNUM (upte s3 d' v) = d)" if "v < UPN" for v
          using vm_invD(9) [OF ys(1) \<open>d' \<in> ?D\<close> that] d phys_congs(2) [of s3 s1] s3(2) e2(1)
          by (auto simp: structural_def)
        then show ?thesis by (auto simp: maps_to_def)
      qed
      moreover have "tables_at s3 d' d = {}" if "d' \<in> ?D - {d}" for d'
        using that \<open>\<not> structural s3 (?D - {d}) d\<close> by (auto simp: structural_def tables_at_def)
      ultimately show ?thesis by (auto simp: refs_def structural_def)
    qed
    then show ?thesis using s3(5) db s3(3) e2(2) by (auto simp: lean_def keeps_def)
  qed
  ultimately show ?thesis
    using run inv' ys(3) s3(6) ds sel(1,6-10) by (intro exI [of _ s'] exI [of _ zs]) auto
qed


lemma env_alloc_ok:
  assumes "env_inv s K (d # xs) (e # es)"
  shows "\<exists>s'. env_alloc c par s = Some (Inr e, s') \<and> env_inv s' K xs es \<and>
    env_status (envs s' e) = ENV_RUNNABLE \<and> env_id (envs s' e) \<noteq> env_id (envs s e)"
  using env_alloc_cases [OF assms, of c par, unfolded list.case] by blast

text \<open>C4: On a well-formed environment table, \<open>env_alloc\<close> fails with \<open>E_NO_FREE_ENV\<close> when no slot is
  free and with \<open>E_NO_MEM\<close> when no page is, changing nothing; otherwise it takes the first free slot
  and gives it a positive id that names the slot and differs from the slot's previous id, the given
  parent, runnable status, cleared registers and an empty user address space of its own; every
  other environment and address space is as before and the table stays well formed.\<close>

theorem env_alloc_spec:
  assumes inv: "env_inv s K xs es"
  shows "case es of
      [] \<Rightarrow> env_alloc c par s = Some (Inl E_NO_FREE_ENV, s)
    | e # es' \<Rightarrow> (case xs of
          [] \<Rightarrow> env_alloc c par s = Some (Inl E_NO_MEM, s)
        | d # xs' \<Rightarrow> \<exists>s'. env_alloc c par s = Some (Inr e, s') \<and> env_inv s' K xs' es' \<and>
            ENVX (env_id (envs s' e)) = e \<and> 0 < sint (env_id (envs s' e)) \<and>
            env_id (envs s' e) \<noteq> env_id (envs s e) \<and> env_parent_id (envs s' e) = par \<and>
            env_status (envs s' e) = ENV_RUNNABLE \<and> env_tf (envs s' e) = new_tf \<and>
            env_pgdir (envs s' e) = Some d \<and> (\<forall>v < UPN. upte s' d v = 0) \<and>
            (\<forall>e'. e' \<noteq> e \<longrightarrow> envs s' e' = envs s e') \<and> cpus s' = cpus s \<and> klock s' = klock s \<and>
            (\<forall>d' \<in> dirs s es. \<forall>v < UPN. upte s' d' v = upte s d' v))"
  using inv by (rule env_alloc_cases)

text \<open>C5: Freeing an environment \<open>e\<close> in use never panics and loses nothing: its page directory and
  every page, data or page table, that only its address space used end up on the free list, pages
  it shared keep exactly the references of the other address spaces, no other address space or
  environment changes, the slot becomes the first free one, and the table and the reference
  counts stay well formed.\<close>

theorem env_free_spec:
  assumes inv: "env_inv s K xs es" and e: "e < NENV" "e \<notin> set es" and pd: "env_pgdir (envs s e) = Some d"
  shows "\<exists>s' ys. env_free c e s = Some ((), s') \<and> env_inv s' K ys (e # es) \<and> set xs \<subseteq> set ys \<and> d \<in> set ys \<and>
    dirs s' (e # es) = dirs s es - {d} \<and> env_id (envs s' e) = env_id (envs s e) \<and>
    (\<forall>d' \<in> dirs s es - {d}. \<forall>v < UPN. upte s' d' v = upte s d' v) \<and>
    (\<forall>e'. e' \<noteq> e \<longrightarrow> envs s' e' = envs s e') \<and> klock s' = klock s \<and>
    (\<forall>c'. cpu_env (cpus s' c') = cpu_env (cpus s c') \<and> cpu_status (cpus s' c') = cpu_status (cpus s c')) \<and>
    (\<forall>c'. c' \<noteq> c \<longrightarrow> cpus s' c' = cpus s c')"
  using assms by (rule env_free_ok_full)

text \<open>The address space of \<open>small_vm\<close> as environment 0; all other slots are free.\<close>

definition small_envs :: kstate where
  "small_envs = small_vm\<lparr>envs := (\<lambda>e. if e = 0 then zero_env\<lparr>env_id := 0x1000, env_status := ENV_RUNNABLE, env_pgdir := Some 2\<rparr>
     else zero_env\<lparr>env_link := if Suc e < NENV then Some (Suc e) else None\<rparr>), env_free_list := Some 1\<rparr>"

lemma NENV_bounds: "0 < NENV" "1 < NENV" by (simp_all add: NENV_def)

lemma small_envs_sel:
  "env_status (envs small_envs e) = (if e = 0 then ENV_RUNNABLE else ENV_FREE)"
  "env_pgdir (envs small_envs e) = (if e = 0 then Some 2 else None)" "env_id (envs small_envs 0) = 0x1000"
  "env_free_list small_envs = Some 1"
  by (simp_all add: small_envs_def zero_env_def)

lemma small_envs_dirs: "dirs small_envs [1..<NENV] = {2}"
  using NENV_bounds by (auto simp: dirs_def small_envs_sel)

lemma small_envs_inv: "env_inv small_envs {0, 1} [5] [1..<NENV]"
proof -
  have same: "phys small_envs = phys small_vm" "npages small_envs = npages small_vm"
    "pages small_envs = pages small_vm" "page_free_list small_envs = page_free_list small_vm"
    by (simp_all add: small_envs_def)
  note vm = vm_inv_same [OF same]
  have "lean small_vm {0, 1} {2} [5] (\<lambda>_. 0)"
    by (auto simp: lean_def small_vm_refs small_vm_sel)
  moreover have "env_free_ok small_envs [1..<NENV]"
  proof -
    have "linked (\<lambda>e. env_link (envs small_envs e)) (Some 1) [1..<NENV] =
       linked (\<lambda>i. if Suc i < NENV then Some (Suc i) else None) (Some 1) [1..<NENV]"
      by (rule linked_cong) (auto simp: small_envs_def)
    also have "\<dots>"
    proof -
      have "1 < NENV" by (simp add: NENV_def)
      then show ?thesis using linked_upt [of NENV 1] by simp
    qed
    finally have "linked (\<lambda>e. env_link (envs small_envs e)) (Some 1) [1..<NENV]" .
    then show ?thesis using NENV_bounds by (auto simp: env_free_ok_def small_envs_sel)
  qed
  moreover have "env_dirs_ok small_envs [1..<NENV]"
  proof -
    have "e = 0" if "e < NENV" "e \<notin> set [1..<NENV]" for e using that by auto
    moreover have "env_pgdir (envs small_envs 0) \<noteq> None" "ENVX (env_id (envs small_envs 0)) = 0"
      by (simp_all add: small_envs_sel ENVX_nat)
    ultimately show ?thesis unfolding env_dirs_ok_def by metis
  qed
  moreover have "kern_ok small_envs {0, 1}"
    by (auto simp: kern_ok_def small_envs_def small_vm_def zero_state_def)
  ultimately show ?thesis
    unfolding env_inv_def small_envs_dirs vm using small_vm_invK [of "{0, 1}"] by simp
qed

theorem env_alloc_spec_witness:
  "\<exists>s'. env_alloc 0 0x1000 small_envs = Some (Inr 1, s') \<and> env_inv s' {0, 1} [] [2..<NENV] \<and>
     0 < sint (env_id (envs s' 1))"
proof -
  have "[1..<NENV] = 1 # [2..<NENV]" using NENV_bounds by (simp add: upt_conv_Cons numeral_2_eq_2)
  from env_alloc_spec [OF small_envs_inv, of 0 "0x1000", unfolded this list.case]
  show ?thesis by blast
qed

text \<open>Freeing environment 0 frees its directory, its page table and its page.\<close>

theorem env_free_spec_witness:
  "\<exists>s' ys. env_free 0 0 small_envs = Some ((), s') \<and> env_inv s' {0, 1} ys (0 # [1..<NENV]) \<and>
     2 \<in> set ys \<and> dirs s' (0 # [1..<NENV]) = {}"
  using env_free_spec [OF small_envs_inv NENV_bounds(1), of 2 0]
  by (simp only: small_envs_sel small_envs_dirs) auto

end
