(* ===== verification/EnvPool.thy ===== *)
theory EnvPool
  imports EnvSpec
begin

text \<open>
  Environment ids over time, the initial table, and the two pools of the kernel, pages and
  environments, as interpretations of the shared contract.
\<close>

subsection \<open>Initialisation\<close>

definition init_links :: "nat \<Rightarrow> kstate \<Rightarrow> kstate \<Rightarrow> bool" where
  "init_links k s s' \<longleftrightarrow> (\<forall>e < NENV. env_status (envs s' e) = env_status (envs s e)) \<and>
     (\<forall>e < NENV. NENV - 1 - k \<le> e \<longrightarrow> env_link (envs s' e) = (if Suc e < NENV then Some (Suc e) else None)) \<and>
     (\<forall>e < NENV. NENV - 1 - k < e \<longrightarrow> env_id (envs s' e) = 0) \<and>
     phys s' = phys s \<and> pages s' = pages s \<and> page_free_list s' = page_free_list s"

lemma env_init_step_ok:
  assumes "k < NENV - 1" "init_links k s s1"
  shows "\<exists>s2. env_init_step k s1 = Some ((), s2) \<and> init_links (Suc k) s s2"
proof -
  let ?i = "NENV - 1 - k"
  let ?s2 = "upd_env (?i - 1) (\<lambda>e. e\<lparr>env_link := Some ?i\<rparr>) (upd_env ?i (\<lambda>e. e\<lparr>env_id := 0\<rparr>) s1)"
  have i: "?i < NENV" "0 < ?i" "NENV - 1 - Suc k = ?i - 1" using assms(1) by auto
  have "init_links (Suc k) s ?s2"
    unfolding init_links_def i(3)
  proof (intro conjI allI impI)
    fix e assume e: "e < NENV"
    show "env_status (envs ?s2 e) = env_status (envs s e)"
      using assms(2) e i by (auto simp: init_links_def)
    show "env_link (envs ?s2 e) = (if Suc e < NENV then Some (Suc e) else None)" if "?i - 1 \<le> e"
      using assms(2) e i that by (cases "e = ?i - 1") (auto simp: init_links_def)
    show "env_id (envs ?s2 e) = 0" if "?i - 1 < e"
      using assms(2) e i that by (cases "e = ?i") (auto simp: init_links_def)
  qed (use assms(2) in \<open>auto simp: init_links_def\<close>)
  then show ?thesis by (simp add: env_init_step_def Let_def)
qed

text \<open>On a cleared table, \<open>env_init\<close> puts all environments on the free list in the order of the
  array, so that the first one created is \<^verbatim>\<open>envs[0]\<close>, and clears every id.\<close>

theorem env_init_spec:
  assumes "\<forall>e < NENV. env_status (envs s e) = ENV_FREE"
  shows "\<exists>s'. env_init s = Some ((), s') \<and> env_free_ok s' [0..<NENV] \<and> (\<forall>e < NENV. env_id (envs s' e) = 0)"
proof -
  let ?s0 = "upd_env (NENV - 1) (\<lambda>e. e\<lparr>env_link := None\<rparr>) s"
  have "init_links 0 s ?s0" using NENV_bounds by (auto simp: init_links_def)
  then obtain s1 where s1: "each env_init_step [0..<NENV - 1] ?s0 = Some ((), s1)" "init_links (NENV - 1) s s1"
    using each_upt_inv [where P = "\<lambda>k. init_links k s" and n = "NENV - 1" and f = env_init_step] env_init_step_ok by blast
  let ?s' = "(upd_env 0 (\<lambda>e. e\<lparr>env_id := 0\<rparr>) s1)\<lparr>env_free_list := Some 0\<rparr>"
  have l: "env_link (envs ?s' e) = (if Suc e < NENV then Some (Suc e) else None)" "env_id (envs ?s' e) = 0"
    "env_status (envs ?s' e) = ENV_FREE" if "e < NENV" for e
    using s1(2) assms that by (auto simp: init_links_def)
  have "linked (\<lambda>e. env_link (envs ?s' e)) (Some 0) [0..<NENV] =
      linked (\<lambda>i. if Suc i < NENV then Some (Suc i) else None) (Some 0) [0..<NENV]"
    by (rule linked_cong) (use l(1) in auto)
  then have "env_free_ok ?s' [0..<NENV]"
    using linked_upt [of NENV 0] NENV_bounds(1) l(3) by (auto simp: env_free_ok_def)
  then show ?thesis using s1(1) l(2) by (simp add: env_init_def)
qed

theorem env_init_spec_witness:
  "\<exists>s'. env_init zero_state = Some ((), s') \<and> env_free_ok s' [0..<NENV]"
  using env_init_spec [of zero_state] by (auto simp: zero_state_def zero_env_def)

subsection \<open>The pools\<close>

definition page_live :: "kstate \<Rightarrow> nat \<Rightarrow> bool" where
  "page_live s p \<longleftrightarrow> p < npages s \<and> pp_ref (pages s p) = 0 \<and> (\<forall>xs. alloc_inv s xs \<longrightarrow> p \<notin> set xs)"

lemma alloc_inv_unique: "alloc_inv s xs \<Longrightarrow> alloc_inv s ys \<Longrightarrow> xs = ys"
  by (auto simp: alloc_inv_def free_list_def intro: linked_unique)

interpretation page_pool: pool alloc_inv page_live "page_alloc fl" page_free for fl
proof unfold_locales
  show "alloc_inv s [] \<Longrightarrow> page_alloc fl s = Some (None, s)" for s by (rule page_alloc_Nil)
  show "\<exists>s'. page_alloc fl s = Some (Some x, s') \<and> alloc_inv s' xs \<and> page_live s' x"
    if inv: "alloc_inv s (x # xs)" for s x xs
  proof -
    have "x \<notin> set xs" using alloc_inv_distinct [OF inv] by simp
    have "page_live (take_page fl x s) x"
      unfolding page_live_def
    proof (intro conjI allI impI)
      show "x < npages (take_page fl x s)" "pp_ref (pages (take_page fl x s) x) = 0"
        using inv by (auto simp: alloc_inv_def)
      show "x \<notin> set ys" if "alloc_inv (take_page fl x s) ys" for ys
        using alloc_inv_unique [OF that take_page_inv [OF inv]] \<open>x \<notin> set xs\<close> by simp
    qed
    with page_alloc_Cons [OF inv] take_page_inv [OF inv] show ?thesis by blast
  qed
  show "\<exists>s'. page_free x s = Some ((), s') \<and> alloc_inv s' (x # xs)"
    if "alloc_inv s xs" "page_live s x" for s xs x
    using that page_free_inv [of s xs x] by (auto simp: page_live_def)
qed

text \<open>Environments can be created as long as a page is left for each directory.\<close>

definition env_acquire :: "nat \<Rightarrow> envid_t \<Rightarrow> kstate \<Rightarrow> (nat option) kres" where
  "env_acquire c par s = (case env_alloc c par s of
     Some (Inr e, s') \<Rightarrow> Some (Some e, s') | Some (Inl E_NO_FREE_ENV, s') \<Rightarrow> Some (None, s') | _ \<Rightarrow> None)"

definition env_pool_free :: "nat set \<Rightarrow> kstate \<Rightarrow> nat list \<Rightarrow> bool" where
  "env_pool_free K s es \<longleftrightarrow> (\<exists>xs. env_inv s K xs es \<and> length es \<le> length xs)"

definition env_live :: "kstate \<Rightarrow> nat \<Rightarrow> bool" where
  "env_live s e \<longleftrightarrow> e < NENV \<and> env_status (envs s e) \<noteq> ENV_FREE"


interpretation env_pool: pool "env_pool_free K" env_live "env_acquire c par" "env_free c" for K par c
proof unfold_locales
  show "env_acquire c par s = Some (None, s)" if A: "env_pool_free K s []" for s
  proof -
    obtain xs where "env_inv s K xs []" using A by (auto simp: env_pool_free_def)
    then have "env_alloc c par s = Some (Inl E_NO_FREE_ENV, s)"
      by (simp add: env_alloc_def env_inv_def env_free_ok_def)
    then show ?thesis by (simp add: env_acquire_def)
  qed
  show "\<exists>s'. env_acquire c par s = Some (Some x, s') \<and> env_pool_free K s' xs \<and> env_live s' x"
    if A: "env_pool_free K s (x # xs)" for s x xs
  proof -
    obtain d ps where inv: "env_inv s K (d # ps) (x # xs)" and len: "length xs \<le> length ps"
      using A by (auto simp: env_pool_free_def Suc_le_length_iff)
    have x: "x < NENV" using inv by (auto simp: env_inv_def env_free_ok_def)
    obtain s' where s': "env_alloc c par s = Some (Inr x, s')" "env_inv s' K ps xs" "env_status (envs s' x) = ENV_RUNNABLE"
      using env_alloc_ok [OF inv, of c par] by blast
    then show ?thesis using x len by (auto simp: env_acquire_def env_pool_free_def env_live_def)
  qed
  show "\<exists>s'. env_free c x s = Some ((), s') \<and> env_pool_free K s' (x # xs)"
    if A: "env_pool_free K s xs" "env_live s x" for s xs x
  proof -
    obtain ps where inv: "env_inv s K ps xs" and len: "length xs \<le> length ps"
      using A(1) by (auto simp: env_pool_free_def)
    have x: "x < NENV" "x \<notin> set xs"
      using A(2) inv by (auto simp: env_live_def env_inv_def env_free_ok_def)
    then obtain d where d: "env_pgdir (envs s x) = Some d"
      using inv by (auto simp: env_inv_def env_dirs_ok_def)
    obtain s' ys where s': "env_free c x s = Some ((), s')" "env_inv s' K ys (x # xs)" "set ps \<subseteq> set ys" "d \<in> set ys"
      using env_free_ok_full [OF inv x d, of c] by blast
    have "d \<notin> set ps"
    proof
      assume "d \<in> set ps"
      moreover have vm: "vm_inv s K (dirs s xs) ps (\<lambda>_. 0)" using inv by (simp add: env_inv_def)
      ultimately have "refs s (dirs s xs) d = 0" by (intro free_page_unused(1))
      then show False using refs_zeroD(1) [OF vm_invD(2) [OF vm]] dirsI [OF x d] by blast
    qed
    moreover have "distinct ps" "distinct ys"
      using inv s'(2) by (auto simp: env_inv_def dest: vm_invD(1) intro: alloc_inv_distinct)
    ultimately have "Suc (length ps) \<le> length ys"
      using s'(3,4) card_mono [of "set ys" "insert d (set ps)"] by (simp add: distinct_card)
    then show ?thesis using s'(1,2) len by (auto simp: env_pool_free_def)
  qed
qed


text \<open>A machine before the first environment: pages 1 to 1999 and all slots are free.\<close>

definition fresh_machine :: kstate where
  "fresh_machine = zero_state\<lparr>npages := 2000, page_free_list := Some 1,
     pages := (\<lambda>p. if p = 0 then zero_page else \<lparr>pp_link = if Suc p < 2000 then Some (Suc p) else None, pp_ref = 0\<rparr>),
     envs := (\<lambda>e. zero_env\<lparr>env_link := if Suc e < NENV then Some (Suc e) else None\<rparr>), env_free_list := Some 0\<rparr>"

lemma fresh_machine_inv: "env_inv fresh_machine {0} [1..<2000] [0..<NENV]"
proof -
  define N :: nat where "N = 2000"
  have sel: "npages fresh_machine = N" "page_free_list fresh_machine = Some 1"
    "pp_link (pages fresh_machine p) = (if p \<noteq> 0 \<and> Suc p < N then Some (Suc p) else None)"
    "pp_ref (pages fresh_machine p) = 0" "kern_pgdir fresh_machine = 0" "phys fresh_machine f i = 0"
    "env_link (envs fresh_machine e) = (if Suc e < NENV then Some (Suc e) else None)"
    "env_status (envs fresh_machine e) = ENV_FREE" "env_free_list fresh_machine = Some 0" for p f i e
    by (simp_all add: fresh_machine_def zero_state_def zero_page_def zero_env_def N_def)
  have N: "1 < N" "N \<le> 1048576" by (simp_all add: N_def)
  have "linked (\<lambda>p. pp_link (pages fresh_machine p)) (Some 1) [1..<N] =
      linked (\<lambda>i. if Suc i < N then Some (Suc i) else None) (Some 1) [1..<N]"
    by (rule linked_cong) (auto simp: sel)
  then have ai: "alloc_inv fresh_machine [1..<N]"
    using linked_upt [of N 1] N by (auto simp: alloc_inv_def free_list_def sel)
  have dirs: "dirs fresh_machine [0..<NENV] = {}" by (auto simp: dirs_def)
  have "linked (\<lambda>e. env_link (envs fresh_machine e)) (Some 0) [0..<NENV]"
    using linked_upt [of NENV 0] NENV_bounds by (simp add: sel)
  then have "env_free_ok fresh_machine [0..<NENV]" by (auto simp: env_free_ok_def sel)
  moreover have "env_dirs_ok fresh_machine [0..<NENV]" by (auto simp: env_dirs_ok_def)
  moreover have "kern_ok fresh_machine {0}" by (simp add: kern_ok_def sel)
  moreover have "vm_inv fresh_machine {0} {} [1..<N] (\<lambda>_. 0)"
    by (rule vm_invI) (use ai in \<open>auto simp: refs_def sel\<close>)
  moreover have "lean fresh_machine {0} {} [1..<N] (\<lambda>_. 0)" by (auto simp: lean_def sel)
  ultimately show ?thesis by (simp add: env_inv_def dirs N_def)
qed


subsection \<open>Ids are not reused at once\<close>

text \<open>C18: After an environment is freed and its slot is given to a new environment, the old id no
  longer names anything: \<open>envid2env\<close> answers \<open>E_BAD_ENV\<close>, so a stale id never reaches the new
  environment.\<close>

theorem stale_envid:
  assumes inv: "env_inv s K xs es" and e: "e < NENV" "e \<notin> set es"
  shows "\<exists>s' s''. env_free c e s = Some ((), s') \<and> env_alloc c par s' = Some (Inr e, s'') \<and>
    (\<forall>perm. envid2env c (env_id (envs s e)) perm s'' = Some (Inl E_BAD_ENV) \<or> env_id (envs s e) = 0)"
proof -
  obtain d where d: "env_pgdir (envs s e) = Some d" and x: "ENVX (env_id (envs s e)) = e"
    using inv e by (auto simp: env_inv_def env_dirs_ok_def)
  obtain s' ys where s': "env_free c e s = Some ((), s')" "env_inv s' K ys (e # es)" "d \<in> set ys"
    "env_id (envs s' e) = env_id (envs s e)"
    using env_free_ok_full [OF inv e d, of c] by blast
  then obtain d' ys' where ys: "ys = d' # ys'" by (cases ys) auto
  obtain s'' where "env_alloc c par s' = Some (Inr e, s'')" "env_id (envs s'' e) \<noteq> env_id (envs s' e)"
    using env_alloc_ok [OF s'(2) [unfolded ys], of c par] by blast
  then show ?thesis using s' x by (intro exI [of _ s'] exI [of _ s'']) (auto simp: envid2env_def Let_def)
qed

theorem stale_envid_witness:
  "\<exists>s' s''. env_free 0 0 small_envs = Some ((), s') \<and> env_alloc 0 0 s' = Some (Inr 0, s'') \<and>
     envid2env 0 0x1000 False s'' = Some (Inl E_BAD_ENV)"
  using stale_envid [OF small_envs_inv NENV_bounds(1), of 0 0] by (auto simp: small_envs_sel)

end
