(* ===== verification/Sched.thy ===== *)
theory Sched
  imports EnvPool
begin

text \<open>
  The scheduler, \<^verbatim>\<open>kern/sched.c\<close>, and \<^verbatim>\<open>env_destroy\<close>, which calls it: round-robin
  choice of the next environment, halting an idle CPU, and who owns which environment.
\<close>

subsection \<open>Choosing\<close>

definition runnable :: "kstate \<Rightarrow> nat \<Rightarrow> bool" where
  "runnable s i \<longleftrightarrow> env_status (envs s i) = ENV_RUNNABLE"

definition sched_halt :: "nat \<Rightarrow> kstate \<Rightarrow> 'a ctl kres" where
  "sched_halt c s =
     (if list_all (\<lambda>i. env_status (envs s i) \<notin> {ENV_RUNNABLE, ENV_RUNNING, ENV_DYING}) [0..<NENV]
      then do {
        (_, s) \<leftarrow> cprintf (''No runnable environments in the system!'' @ [CHR 0x0A]) [] s;
        Some (Monitor, s)
      }
      else do {
        let s = upd_cpu c (\<lambda>p. p\<lparr>cpu_env := None\<rparr>) s;
        let s = lcr3 c (page2pa (kern_pgdir s)) s;
        let s = upd_cpu c (\<lambda>p. p\<lparr>cpu_status := CPU_HALTED\<rparr>) s;
        (_, s) \<leftarrow> unlock_kernel c s;
        Some (Halted, s)
      })"

definition sched_yield :: "nat \<Rightarrow> kstate \<Rightarrow> 'a ctl kres" where
  "sched_yield c s =
     (let idle = curenv c s;
          id = (case idle of Some e \<Rightarrow> env_id (envs s e) | None \<Rightarrow> 0)
      in case find (runnable s) [ENVX id..<NENV] of
           Some i \<Rightarrow> env_run c i s
         | None \<Rightarrow> (case find (runnable s) [0..<ENVX id] of
             Some i \<Rightarrow> env_run c i s
           | None \<Rightarrow> (case idle of
               Some e \<Rightarrow> if env_status (envs s e) = ENV_RUNNING then env_run c e s else sched_halt c s
             | None \<Rightarrow> sched_halt c s)))"

definition env_destroy :: "nat \<Rightarrow> nat \<Rightarrow> kstate \<Rightarrow> unit ctl kres" where
  "env_destroy c e s =
     (if env_status (envs s e) = ENV_RUNNING \<and> curenv c s \<noteq> Some e
      then Some (Ret (), upd_env e (\<lambda>x. x\<lparr>env_status := ENV_DYING\<rparr>) s)
      else do {
        (_, s) \<leftarrow> env_free c e s;
        if curenv c s = Some e
        then sched_yield c (upd_cpu c (\<lambda>p. p\<lparr>cpu_env := None\<rparr>) s)
        else Some (Ret (), s)
      })"

subsection \<open>The circular order\<close>

definition cyc :: "nat \<Rightarrow> nat \<Rightarrow> nat" where
  "cyc p i = (if p \<le> i then i - p else i + NENV - p)"

lemma find_append: "find P (xs @ ys) = (case find P xs of None \<Rightarrow> find P ys | Some x \<Rightarrow> Some x)"
  by (induction xs) auto

text \<open>\<^verbatim>\<open>find\<close> on a segment gives the least index.\<close>

lemma find_upt_Some: "find P [a..<b] = Some i \<longleftrightarrow> a \<le> i \<and> i < b \<and> P i \<and> (\<forall>j. a \<le> j \<and> j < i \<longrightarrow> \<not> P j)"
proof (induction "b - a" arbitrary: a)
  case 0
  then show ?case by auto
next
  case (Suc k)
  then have ab: "a < b" "k = b - Suc a" by auto
  have "[a..<b] = a # [Suc a..<b]" using ab by (simp add: upt_conv_Cons)
  then have "find P [a..<b] = Some i \<longleftrightarrow> (if P a then a = i else Suc a \<le> i \<and> i < b \<and> P i \<and> (\<forall>j. Suc a \<le> j \<and> j < i \<longrightarrow> \<not> P j))"
    using Suc.hyps(1) [OF ab(2)] by simp
  also have "\<dots> \<longleftrightarrow> a \<le> i \<and> i < b \<and> P i \<and> (\<forall>j. a \<le> j \<and> j < i \<longrightarrow> \<not> P j)"
    using ab(1) unfolding Suc_le_eq by (cases "P a"; cases "a = i") (auto simp: le_less)
  finally show ?case .
qed

definition next_runnable :: "nat \<Rightarrow> kstate \<Rightarrow> nat option" where
  "next_runnable p s = find (runnable s) ([p..<NENV] @ [0..<p])"

lemma next_runnable_Some:
  assumes "next_runnable p s = Some i" "p < NENV"
  shows "i < NENV" "runnable s i" "\<And>j. j < NENV \<Longrightarrow> runnable s j \<Longrightarrow> cyc p i \<le> cyc p j"
proof -
  have c: "(p \<le> i \<and> i < NENV \<and> runnable s i \<and> (\<forall>j. p \<le> j \<and> j < i \<longrightarrow> \<not> runnable s j)) \<or>
      ((\<forall>j. p \<le> j \<and> j < NENV \<longrightarrow> \<not> runnable s j) \<and> i < p \<and> runnable s i \<and> (\<forall>j. j < i \<longrightarrow> \<not> runnable s j))"
    using assms(1)
    by (auto simp: next_runnable_def find_append find_upt_Some find_None_iff split: option.splits)
  show "i < NENV" "runnable s i" using c assms(2) by auto
  show "cyc p i \<le> cyc p j" if j: "j < NENV" "runnable s j" for j
    using c
  proof
    assume A: "p \<le> i \<and> i < NENV \<and> runnable s i \<and> (\<forall>j. p \<le> j \<and> j < i \<longrightarrow> \<not> runnable s j)"
    then have "\<not> (p \<le> j \<and> j < i)" using j(2) by blast
    then show ?thesis using A j(1) by (auto simp: cyc_def)
  next
    assume A: "(\<forall>j. p \<le> j \<and> j < NENV \<longrightarrow> \<not> runnable s j) \<and> i < p \<and> runnable s i \<and> (\<forall>j. j < i \<longrightarrow> \<not> runnable s j)"
    then have "\<not> p \<le> j" "\<not> j < i" using j by blast+
    then show ?thesis using A by (auto simp: cyc_def)
  qed
qed

lemma next_runnable_None: "next_runnable p s = None \<Longrightarrow> p < NENV \<Longrightarrow> i < NENV \<Longrightarrow> \<not> runnable s i"
  by (cases "p \<le> i") (auto simp: next_runnable_def find_None_iff not_le dest!: spec [of _ i])

lemma ENVX_less: "ENVX x < NENV"
  by (simp add: ENVX_nat NENV_def)

lemma sched_yield_alt:
  "sched_yield c s = (case next_runnable (ENVX (cur_id c s)) s of
     Some i \<Rightarrow> env_run c i s
   | None \<Rightarrow> (case curenv c s of
       Some e \<Rightarrow> if env_status (envs s e) = ENV_RUNNING then env_run c e s else sched_halt c s
     | None \<Rightarrow> sched_halt c s))"
  by (auto simp: sched_yield_def next_runnable_def find_append cur_id_def Let_def split: option.splits)

subsection \<open>Switching to an environment\<close>

definition switch_to :: "nat \<Rightarrow> nat \<Rightarrow> nat \<Rightarrow> kstate \<Rightarrow> kstate" where
  "switch_to c e d s = s\<lparr>klock := None,
     cpus := (cpus s)(c := (cpus s c)\<lparr>cpu_env := Some e, cpu_cr3 := page2pa d\<rparr>),
     envs := (\<lambda>x. if x = e then (envs s e)\<lparr>env_status := ENV_RUNNING, env_runs := env_runs (envs s e) + 1, env_cpunum := c\<rparr>
       else if curenv c s = Some x \<and> env_status (envs s x) = ENV_RUNNING then (envs s x)\<lparr>env_status := ENV_RUNNABLE\<rparr>
       else envs s x)\<rparr>"

lemma env_run_eq:
  assumes "klock s = Some c" "env_pgdir (envs s e) = Some d"
  shows "env_run c e s = Some (Run e, switch_to c e d s)"
  using assms
  by (auto simp: env_run_def env_pop_tf_def unlock_kernel_def lcr3_def curenv_def switch_to_def Let_def
      upd_env_def upd_cpu_def fun_eq_iff split: option.splits)

lemma switch_to_sel [simp]:
  "npages (switch_to c e d s) = npages s" "pages (switch_to c e d s) = pages s"
  "page_free_list (switch_to c e d s) = page_free_list s" "phys (switch_to c e d s) = phys s"
  "kern_pgdir (switch_to c e d s) = kern_pgdir s" "env_free_list (switch_to c e d s) = env_free_list s"
  "klock (switch_to c e d s) = None" "kcons (switch_to c e d s) = kcons s"
  "cpu_env (cpus (switch_to c e d s) c') = (if c' = c then Some e else cpu_env (cpus s c'))"
  "cpu_cr3 (cpus (switch_to c e d s) c') = (if c' = c then page2pa d else cpu_cr3 (cpus s c'))"
  "cpu_status (cpus (switch_to c e d s) c') = cpu_status (cpus s c')"
  "env_link (envs (switch_to c e d s) x) = env_link (envs s x)"
  "env_pgdir (envs (switch_to c e d s) x) = env_pgdir (envs s x)"
  "env_id (envs (switch_to c e d s) x) = env_id (envs s x)"
  "env_tf (envs (switch_to c e d s) x) = env_tf (envs s x)"
  "env_status (envs (switch_to c e d s) x) = (if x = e then ENV_RUNNING
     else if curenv c s = Some x \<and> env_status (envs s x) = ENV_RUNNING then ENV_RUNNABLE else env_status (envs s x))"
  by (simp_all add: switch_to_def)

text \<open>The table stays well formed as long as free slots stay free and used ones used.\<close>

lemma env_inv_cong:
  assumes "env_inv s K xs es" "phys s' = phys s" "npages s' = npages s" "pages s' = pages s"
    "page_free_list s' = page_free_list s" "kern_pgdir s' = kern_pgdir s" "env_free_list s' = env_free_list s"
    "\<And>e. env_link (envs s' e) = env_link (envs s e) \<and> env_pgdir (envs s' e) = env_pgdir (envs s e) \<and>
       env_id (envs s' e) = env_id (envs s e)"
    "\<And>e. e < NENV \<Longrightarrow> (env_status (envs s' e) = ENV_FREE) = (env_status (envs s e) = ENV_FREE)"
  shows "env_inv s' K xs es"
proof -
  have "dirs s' es = dirs s es" using assms(8) by (simp add: dirs_def)
  then show ?thesis
    using assms vm_inv_same [OF assms(2-5)]
    by (simp add: env_inv_def env_free_ok_def env_dirs_ok_def kern_ok_def cong: conj_cong)
qed

lemma env_inv_used:
  assumes "env_inv s K xs es" "e < NENV" "env_status (envs s e) \<noteq> ENV_FREE"
  obtains d where "env_pgdir (envs s e) = Some d" "d \<in> dirs s es" "ENVX (env_id (envs s e)) = e" "e \<notin> set es"
proof -
  have "e \<notin> set es" using assms by (auto simp: env_inv_def env_free_ok_def)
  moreover obtain d where "env_pgdir (envs s e) = Some d" "ENVX (env_id (envs s e)) = e"
    using assms \<open>e \<notin> set es\<close> by (auto simp: env_inv_def env_dirs_ok_def)
  ultimately show ?thesis using that dirsI [OF assms(2)] by blast
qed

subsection \<open>Who runs what\<close>

text \<open>
  No environment is on two CPUs, an environment on a CPU is running (or dying, when it has been
  destroyed meanwhile), and a running environment is on a CPU. While CPU \<open>c\<close> is in the kernel,
  its own environment may have any status.
\<close>

definition one_cpu :: "kstate \<Rightarrow> bool" where
  "one_cpu s \<longleftrightarrow> (\<forall>c1 c2 e. cpu_env (cpus s c1) = Some e \<and> cpu_env (cpus s c2) = Some e \<longrightarrow> c1 = c2)"

definition on_cpu_ok :: "kstate \<Rightarrow> nat \<Rightarrow> bool" where
  "on_cpu_ok s c \<longleftrightarrow> (\<forall>e. cpu_env (cpus s c) = Some e \<longrightarrow> e < NENV \<and> env_status (envs s e) \<in> {ENV_RUNNING, ENV_DYING})"

definition run_owned :: "kstate \<Rightarrow> bool" where
  "run_owned s \<longleftrightarrow> (\<forall>e < NENV. env_status (envs s e) = ENV_RUNNING \<longrightarrow> (\<exists>c. cpu_env (cpus s c) = Some e))"

definition user_mode :: "kstate \<Rightarrow> bool" where
  "user_mode s \<longleftrightarrow> one_cpu s \<and> (\<forall>c. on_cpu_ok s c) \<and> run_owned s"

definition kernel_mode :: "nat \<Rightarrow> kstate \<Rightarrow> bool" where
  "kernel_mode c s \<longleftrightarrow> one_cpu s \<and> (\<forall>c'. c' \<noteq> c \<longrightarrow> on_cpu_ok s c') \<and> run_owned s \<and>
     (\<forall>e. curenv c s = Some e \<longrightarrow> e < NENV)"

lemma user_kernel_mode: "user_mode s \<Longrightarrow> kernel_mode c s"
  by (auto simp: user_mode_def kernel_mode_def on_cpu_ok_def curenv_def)

lemma switch_to_user_mode:
  assumes km: "kernel_mode c s" and e: "e < NENV" and st: "runnable s e \<or> curenv c s = Some e"
  shows "user_mode (switch_to c e d s)"
proof -
  have own: "c' = c" if "cpu_env (cpus s c') = Some e" for c'
  proof (rule ccontr)
    assume ne: "c' \<noteq> c"
    have "env_status (envs s e) \<in> {ENV_RUNNING, ENV_DYING}"
      using km ne that by (auto simp: kernel_mode_def on_cpu_ok_def)
    then have "curenv c s = Some e" using st by (auto simp: runnable_def)
    then show False using km that ne by (auto simp: kernel_mode_def one_cpu_def curenv_def)
  qed
  have "one_cpu (switch_to c e d s)"
    using km own by (auto simp: one_cpu_def kernel_mode_def split: if_splits)
  moreover have "on_cpu_ok (switch_to c e d s) c'" for c'
  proof -
    have "curenv c s \<noteq> Some x" if "cpu_env (cpus s c') = Some x" "c' \<noteq> c" for x
      using km that by (auto simp: kernel_mode_def one_cpu_def curenv_def)
    then show ?thesis using km e by (auto simp: on_cpu_ok_def kernel_mode_def)
  qed
  moreover have "run_owned (switch_to c e d s)"
    unfolding run_owned_def
  proof (intro allI impI)
    fix x assume x: "x < NENV" "env_status (envs (switch_to c e d s) x) = ENV_RUNNING"
    show "\<exists>c'. cpu_env (cpus (switch_to c e d s) c') = Some x"
    proof (cases "x = e")
      case False
      then have "env_status (envs s x) = ENV_RUNNING" "curenv c s \<noteq> Some x" using x(2) by (auto split: if_splits)
      then obtain c' where "cpu_env (cpus s c') = Some x" "c' \<noteq> c"
        using km x(1) unfolding kernel_mode_def run_owned_def curenv_def by metis
      then show ?thesis by auto
    qed auto
  qed
  ultimately show ?thesis by (simp add: user_mode_def)
qed

subsection \<open>The scheduler\<close>

definition halted :: "nat \<Rightarrow> kstate \<Rightarrow> kstate" where
  "halted c s = s\<lparr>klock := None,
     cpus := (cpus s)(c := (cpus s c)\<lparr>cpu_env := None, cpu_cr3 := page2pa (kern_pgdir s), cpu_status := CPU_HALTED\<rparr>)\<rparr>"

lemma sched_halt_eq:
  "klock s = Some c \<Longrightarrow> \<exists>i < NENV. env_status (envs s i) \<in> {ENV_RUNNABLE, ENV_RUNNING, ENV_DYING} \<Longrightarrow>
     sched_halt c s = Some (Halted, halted c s)"
  by (auto simp: sched_halt_def list_all_iff Let_def lcr3_def unlock_kernel_def halted_def upd_cpu_def)

lemma sched_halt_idle:
  assumes "\<forall>i < NENV. env_status (envs s i) \<notin> {ENV_RUNNABLE, ENV_RUNNING, ENV_DYING}"
  shows "\<exists>k. sched_halt c s = Some (Monitor, s\<lparr>kcons := k\<rparr>)"
proof -
  have "ftypes (''No runnable environments in the system!'' @ [CHR 0x0A]) = []" by (simp add: fmt_simps)
  from cprintf_typed [OF this, of "[]"] obtain k where
    "cprintf (''No runnable environments in the system!'' @ [CHR 0x0A]) [] s = Some ((), s\<lparr>kcons := k\<rparr>)" by auto
  then show ?thesis using assms by (auto simp: sched_halt_def list_all_iff)
qed

lemma halted_user_mode:
  assumes "kernel_mode c s" "\<And>e. curenv c s = Some e \<Longrightarrow> env_status (envs s e) \<noteq> ENV_RUNNING"
  shows "user_mode (halted c s)"
proof -
  have sel: "cpu_env (cpus (halted c s) c') = (if c' = c then None else cpu_env (cpus s c'))" "envs (halted c s) = envs s" for c'
    by (auto simp: halted_def)
  have "run_owned (halted c s)"
    using assms unfolding run_owned_def kernel_mode_def sel curenv_def by (metis (full_types))
  then show ?thesis
    using assms(1) unfolding user_mode_def kernel_mode_def one_cpu_def on_cpu_ok_def sel by (auto split: if_splits)
qed

lemma sched_yield_cases:
  assumes lk: "klock s = Some c" and inv: "env_inv s K xs es" and km: "kernel_mode c s"
  shows "(\<exists>i d. i < NENV \<and> env_pgdir (envs s i) = Some d \<and>
      sched_yield c s = Some (Run i, switch_to c i d s) \<and>
      (next_runnable (ENVX (cur_id c s)) s = Some i \<and> runnable s i \<or>
       (\<forall>j < NENV. \<not> runnable s j) \<and> curenv c s = Some i \<and> env_status (envs s i) = ENV_RUNNING)) \<or>
    (\<forall>j < NENV. \<not> runnable s j) \<and> (\<forall>e. curenv c s = Some e \<longrightarrow> env_status (envs s e) \<noteq> ENV_RUNNING) \<and>
    sched_yield c s = sched_halt c s"
proof (cases "next_runnable (ENVX (cur_id c s)) s")
  case (Some i)
  note n = next_runnable_Some [OF Some ENVX_less]
  obtain d where d: "env_pgdir (envs s i) = Some d"
    using env_inv_used [OF inv n(1)] n(2) by (auto simp: runnable_def)
  then have "sched_yield c s = Some (Run i, switch_to c i d s)"
    by (simp add: sched_yield_alt Some env_run_eq [OF lk d])
  then show ?thesis using n d Some by blast
next
  case None
  note no = next_runnable_None [OF None ENVX_less]
  show ?thesis
  proof (cases "\<exists>e. curenv c s = Some e \<and> env_status (envs s e) = ENV_RUNNING")
    case True
    then obtain e where e: "curenv c s = Some e" "env_status (envs s e) = ENV_RUNNING" by blast
    then have lt: "e < NENV" using km by (simp add: kernel_mode_def)
    obtain d where d: "env_pgdir (envs s e) = Some d"
      using env_inv_used [OF inv lt] e(2) by auto
    then have "sched_yield c s = Some (Run e, switch_to c e d s)"
      by (simp add: sched_yield_alt None e env_run_eq [OF lk d])
    then show ?thesis using lt d e no by blast
  next
    case False
    then have "sched_yield c s = sched_halt c s"
      by (auto simp: sched_yield_alt None split: option.splits)
    then show ?thesis using False no by blast
  qed
qed

lemma switch_to_inv: "env_inv s K xs es \<Longrightarrow> e < NENV \<Longrightarrow> env_status (envs s e) \<noteq> ENV_FREE \<Longrightarrow> env_inv (switch_to c e d s) K xs es"
  by (erule env_inv_cong) auto

lemma sched_yield_full:
  assumes lk: "klock s = Some c" and inv: "env_inv s K xs es" and km: "kernel_mode c s"
  shows "\<exists>(r :: 'a ctl) s'. sched_yield c s = Some (r, s') \<and> env_inv s' K xs es \<and> (case r of
      Run e \<Rightarrow> user_mode s' \<and> klock s' = None \<and> cpu_env (cpus s' c) = Some e \<and> env_status (envs s' e) = ENV_RUNNING \<and>
        map_option page2pa (env_pgdir (envs s e)) = Some (cpu_cr3 (cpus s' c)) \<and>
        (runnable s e \<and> (\<forall>j < NENV. runnable s j \<longrightarrow> cyc (ENVX (cur_id c s)) e \<le> cyc (ENVX (cur_id c s)) j) \<or>
         curenv c s = Some e \<and> env_status (envs s e) = ENV_RUNNING \<and> (\<forall>j < NENV. \<not> runnable s j))
    | Halted \<Rightarrow> user_mode s' \<and> klock s' = None \<and> cpu_env (cpus s' c) = None \<and> cpu_status (cpus s' c) = CPU_HALTED \<and>
        envs s' = envs s \<and> (\<forall>j < NENV. \<not> runnable s j)
    | Monitor \<Rightarrow> \<forall>j < NENV. env_status (envs s j) \<in> {ENV_FREE, ENV_NOT_RUNNABLE}
    | Ret _ \<Rightarrow> False)"
  using sched_yield_cases [OF assms]
proof (elim disjE exE conjE)
  fix i d
  assume A: "i < NENV" "env_pgdir (envs s i) = Some d" "(sched_yield c s :: ('a ctl \<times> kstate) option) = Some (Run i, switch_to c i d s)"
    "next_runnable (ENVX (cur_id c s)) s = Some i" "runnable s i"
  have "user_mode (switch_to c i d s)" by (rule switch_to_user_mode) (use km A in auto)
  moreover have "env_inv (switch_to c i d s) K xs es" by (rule switch_to_inv) (use inv A in \<open>auto simp: runnable_def\<close>)
  moreover have "\<forall>j < NENV. runnable s j \<longrightarrow> cyc (ENVX (cur_id c s)) i \<le> cyc (ENVX (cur_id c s)) j"
    using next_runnable_Some(3) [OF A(4) ENVX_less] by blast
  ultimately show ?thesis using A(2,3,5) by (intro exI [of _ "Run i"] exI [of _ "switch_to c i d s"]) simp
next
  fix i d
  assume A: "i < NENV" "env_pgdir (envs s i) = Some d" "(sched_yield c s :: ('a ctl \<times> kstate) option) = Some (Run i, switch_to c i d s)"
    "\<forall>j < NENV. \<not> runnable s j" "curenv c s = Some i" "env_status (envs s i) = ENV_RUNNING"
  have "user_mode (switch_to c i d s)" by (rule switch_to_user_mode) (use km A in auto)
  moreover have "env_inv (switch_to c i d s) K xs es" by (rule switch_to_inv) (use inv A in auto)
  ultimately show ?thesis using A by (intro exI [of _ "Run i"] exI [of _ "switch_to c i d s"]) simp
next
  assume A: "\<forall>j < NENV. \<not> runnable s j" "\<forall>e. curenv c s = Some e \<longrightarrow> env_status (envs s e) \<noteq> ENV_RUNNING"
    "(sched_yield c s :: ('a ctl \<times> kstate) option) = sched_halt c s"
  show ?thesis
  proof (cases "\<exists>i < NENV. env_status (envs s i) \<in> {ENV_RUNNABLE, ENV_RUNNING, ENV_DYING}")
    case True
    have "env_inv (halted c s) K xs es" by (rule env_inv_cong [OF inv]) (simp_all add: halted_def)
    moreover have "klock (halted c s) = None" "cpu_env (cpus (halted c s) c) = None"
      "cpu_status (cpus (halted c s) c) = CPU_HALTED" "envs (halted c s) = envs s"
      by (simp_all add: halted_def)
    ultimately show ?thesis
      using sched_halt_eq [OF lk True] halted_user_mode [OF km] A
      by (intro exI [of _ Halted] exI [of _ "halted c s"]) auto
  next
    case False
    then obtain k where k: "(sched_halt c s :: ('a ctl \<times> kstate) option) = Some (Monitor, s\<lparr>kcons := k\<rparr>)"
      using sched_halt_idle [of s c] by blast
    have "env_inv (s\<lparr>kcons := k\<rparr>) K xs es" by (rule env_inv_cong [OF inv]) simp_all
    moreover have "env_status (envs s j) \<in> {ENV_FREE, ENV_NOT_RUNNABLE}" if "j < NENV" for j
      using False that by (cases "env_status (envs s j)") auto
    ultimately show ?thesis using k A(3) by auto
  qed
qed


definition locked_envs :: kstate where
  "locked_envs = small_envs\<lparr>klock := Some 0\<rparr>"

lemma locked_envs_ok: "klock locked_envs = Some 0" "env_inv locked_envs {0, 1} [5] [1..<NENV]" "kernel_mode 0 locked_envs"
  "runnable locked_envs 0"
proof -
  show "env_inv locked_envs {0, 1} [5] [1..<NENV]"
    by (rule env_inv_cong [OF small_envs_inv]) (simp_all add: locked_envs_def)
  have "cpu_env (cpus locked_envs c) = None" for c
    by (simp add: locked_envs_def small_envs_def small_vm_def zero_state_def)
  then show "kernel_mode 0 locked_envs"
    by (simp add: kernel_mode_def one_cpu_def on_cpu_ok_def run_owned_def curenv_def locked_envs_def small_envs_sel)
qed (simp_all add: locked_envs_def runnable_def small_envs_sel)


subsection \<open>Everybody gets a turn\<close>

text \<open>\<open>n\<close> times in a row, CPU \<open>c\<close> enters the kernel and yields; the environments it runs.\<close>

fun turns :: "nat \<Rightarrow> nat \<Rightarrow> kstate \<Rightarrow> (nat list \<times> kstate) option" where
  "turns c 0 s = Some ([], s)"
| "turns c (Suc n) s = do {
     (_, s) \<leftarrow> lock_kernel c s;
     (r, s) \<leftarrow> (sched_yield c s :: unit ctl kres);
     case r of
       Run e \<Rightarrow> do { (es, s) \<leftarrow> turns c n s; Some (e # es, s) }
     | _ \<Rightarrow> None
   }"

lemma cyc_less:
  assumes "p < NENV" "i < NENV" "j < NENV" "cyc p i \<le> cyc p j" "i \<noteq> p" "i \<noteq> j"
  shows "cyc i j < cyc p j"
  using assms by (auto simp: cyc_def split: if_splits)

lemma lock_ok:
  assumes "klock s = None" "env_inv s K xs es" "user_mode s"
  shows "lock_kernel c s = Some ((), s\<lparr>klock := Some c\<rparr>)" "env_inv (s\<lparr>klock := Some c\<rparr>) K xs es"
    "kernel_mode c (s\<lparr>klock := Some c\<rparr>)"
proof -
  show "env_inv (s\<lparr>klock := Some c\<rparr>) K xs es" by (rule env_inv_cong [OF assms(2)]) simp_all
  show "kernel_mode c (s\<lparr>klock := Some c\<rparr>)"
    using user_kernel_mode [OF assms(3), of c]
    by (simp add: kernel_mode_def one_cpu_def on_cpu_ok_def run_owned_def curenv_def)
qed (simp add: lock_kernel_def assms(1))

lemma round_robin:
  assumes "klock s = None" "env_inv s K xs es" "user_mode s"
    "cpu_env (cpus s c) = Some e" "env_status (envs s e) = ENV_RUNNING" "j < NENV" "runnable s j"
  shows "\<exists>n us s'. n \<le> cyc e j \<and> turns c n s = Some (us @ [j], s') \<and> user_mode s' \<and> env_inv s' K xs es"
  using assms
proof (induction "cyc e j" arbitrary: s e rule: less_induct)
  case less
  let ?s = "s\<lparr>klock := Some c\<rparr>"
  note lk = lock_ok [OF less.prems(1-3), of c]
  have e: "e < NENV" using less.prems(3,4) by (auto simp: user_mode_def on_cpu_ok_def)
  then have "ENVX (env_id (envs s e)) = e"
    using env_inv_used [OF less.prems(2), of e] less.prems(5) by auto
  then have cur: "curenv c ?s = Some e" "ENVX (cur_id c ?s) = e"
    using less.prems(4) by (simp_all add: curenv_def cur_id_def)
  have run: "runnable ?s x = runnable s x" for x by (simp add: runnable_def)
  obtain i d where i: "i < NENV" "env_pgdir (envs ?s i) = Some d"
    "(sched_yield c ?s :: unit ctl kres) = Some (Run i, switch_to c i d ?s)"
    "next_runnable e ?s = Some i" "runnable s i"
    using sched_yield_cases [OF _ lk(2,3), where 'a = unit] less.prems(6,7) by (auto simp: run cur(2))
  let ?s1 = "switch_to c i d ?s"
  have um: "user_mode ?s1" by (rule switch_to_user_mode [OF lk(3) i(1)]) (simp add: run i(5))
  have inv: "env_inv ?s1 K xs es" by (rule switch_to_inv [OF lk(2) i(1)]) (use i(5) in \<open>simp add: runnable_def\<close>)
  have ij: "cyc e i \<le> cyc e j" using next_runnable_Some(3) [OF i(4) e less.prems(6)] less.prems(7) run by simp
  have ne: "i \<noteq> e" "j \<noteq> e" using i(5) less.prems(5,7) by (auto simp: runnable_def)
  have pos: "0 < cyc e j" using ne(2) less.prems(6) e by (auto simp: cyc_def)
  show ?case
  proof (cases "i = j")
    case True
    have "turns c 1 s = Some ([] @ [j], ?s1)" using lk(1) i(3) True by simp
    then show ?thesis using um inv pos by (intro exI [of _ 1] exI [of _ "[]"] exI [of _ ?s1]) simp
  next
    case False
    have lt: "cyc i j < cyc e j" by (rule cyc_less) (use e i(1) less.prems(6) ij ne False in auto)
    have "runnable ?s1 j" using False less.prems(7) cur(1) ne by (auto simp: runnable_def)
    from less.hyps [OF lt _ inv um _ _ less.prems(6) this]
    obtain n us s' where n: "n \<le> cyc i j" "turns c n ?s1 = Some (us @ [j], s')" "user_mode s'" "env_inv s' K xs es"
      by auto
    have "turns c (Suc n) s = Some ((i # us) @ [j], s')" using lk(1) i(3) n(2) by simp
    then show ?thesis using n lt by (intro exI [of _ "Suc n"] exI [of _ "i # us"] exI [of _ s']) simp
  qed
qed

text \<open>Two environments, 0 running on CPU 0 and 1 runnable.\<close>

lemma two_envs:
  obtains s where "klock s = None" "env_inv s {0, 1} [] [2..<NENV]" "user_mode s" "cpu_env (cpus s 0) = Some 0"
    "env_status (envs s 0) = ENV_RUNNING" "runnable s 1" "env_pgdir (envs s 0) = Some 2"
    "env_id (envs s 0) = 0x1000" "cpu_cr3 (cpus s 0) = page2pa 2"
    "env_parent_id (envs s 1) = 0x1000" "ENVX (env_id (envs s 1)) = 1" "env_id (envs s 1) \<noteq> 0"
    "\<And>c. c \<noteq> 0 \<Longrightarrow> cpu_env (cpus s c) = None" "env_ipc_recving (envs s 0) = False"
proof -
  have up: "[1..<NENV] = 1 # [2..<NENV]" using NENV_bounds by (simp add: upt_conv_Cons numeral_2_eq_2)
  obtain s1 where s1: "env_inv s1 {0, 1} [] [2..<NENV]" "env_status (envs s1 1) = ENV_RUNNABLE"
    "envs s1 0 = envs small_envs 0" "cpus s1 = cpus small_envs" "env_parent_id (envs s1 1) = 0x1000"
    "ENVX (env_id (envs s1 1)) = 1" "0 < sint (env_id (envs s1 1))"
    using env_alloc_cases [OF small_envs_inv, of 0 "0x1000", unfolded up list.case] by (auto simp: One_nat_def)
  let ?s = "s1\<lparr>klock := Some 0\<rparr>"
  have none: "cpu_env (cpus s1 c) = None" for c
    by (simp add: s1(4) small_envs_def small_vm_def zero_state_def)
  have nr: "env_status (envs s1 e) \<noteq> ENV_RUNNING" if "e < NENV" for e
  proof (cases "e = 0 \<or> e = 1")
    case True
    then show ?thesis using s1(2,3) by (auto simp: small_envs_sel)
  next
    case False
    then have "e \<in> set [2..<NENV]" using that by auto
    then show ?thesis using s1(1) that by (auto simp: env_inv_def env_free_ok_def)
  qed
  have km: "kernel_mode 0 ?s"
    using none nr by (simp add: kernel_mode_def one_cpu_def on_cpu_ok_def run_owned_def curenv_def)
  have inv: "env_inv ?s {0, 1} [] [2..<NENV]" by (rule env_inv_cong [OF s1(1)]) simp_all
  have e0: "runnable ?s 0" "env_pgdir (envs ?s 0) = Some 2" "env_id (envs ?s 0) = 0x1000"
    using s1(3) by (simp_all add: runnable_def small_envs_sel)
  let ?t = "switch_to 0 0 2 ?s"
  have "user_mode ?t" by (rule switch_to_user_mode [OF km NENV_bounds(1)]) (use e0 in simp)
  moreover have "env_inv ?t {0, 1} [] [2..<NENV]"
    by (rule switch_to_inv [OF inv NENV_bounds(1)]) (use e0 in \<open>simp add: runnable_def\<close>)
  ultimately show ?thesis
  proof (intro that [of ?t])
    show "env_parent_id (envs ?t 1) = 0x1000" "env_ipc_recving (envs ?t 0) = False"
      using s1(3,5) none by (simp_all add: switch_to_def curenv_def small_envs_def zero_env_def)
    show "env_id (envs ?t 1) \<noteq> 0" using s1(7) by auto
  qed (use e0 s1(2,6) none in \<open>simp_all add: runnable_def curenv_def\<close>)
qed

text \<open>C6: Round robin is fair: an environment \<open>j\<close> that is runnable while CPU \<open>c\<close> runs \<open>e\<close> is run by that CPU
  after at most as many yields as there are slots from \<open>e\<close> to \<open>j\<close> in circular order, fewer than
  the size of the table.\<close>

theorem sched_fair:
  assumes "klock s = None" "env_inv s K xs es" "user_mode s"
    "cpu_env (cpus s c) = Some e" "env_status (envs s e) = ENV_RUNNING" "j < NENV" "runnable s j"
  shows "\<exists>n us s'. n \<le> cyc e j \<and> turns c n s = Some (us @ [j], s') \<and> user_mode s' \<and> env_inv s' K xs es"
  using assms by (rule round_robin)

theorem sched_fair_witness:
  "\<exists>s n us s'. n \<le> 1 \<and> turns 0 n s = Some (us @ [1], s') \<and> user_mode s'"
proof -
  obtain s where s: "klock s = None" "env_inv s {0, 1} [] [2..<NENV]" "user_mode s" "cpu_env (cpus s 0) = Some 0"
    "env_status (envs s 0) = ENV_RUNNING" "runnable s 1" by (rule two_envs)
  from sched_fair [OF s(1-5) NENV_bounds(2) s(6)] show ?thesis
    by (auto simp: cyc_def)
qed

subsection \<open>Destroying an environment\<close>

lemma kernel_mode_free:
  assumes km: "kernel_mode c s" and no: "\<forall>c'. c' \<noteq> c \<longrightarrow> cpu_env (cpus s c') \<noteq> Some e"
    and cp: "\<forall>c'. cpu_env (cpus s' c') = (if c' = c \<and> cpu_env (cpus s c) = Some e then None else cpu_env (cpus s c'))"
    and ev: "\<forall>x. x \<noteq> e \<longrightarrow> envs s' x = envs s x" and fr: "env_status (envs s' e) = ENV_FREE"
  shows "kernel_mode c s'" "\<forall>c'. cpu_env (cpus s' c') \<noteq> Some e"
proof -
  show no': "\<forall>c'. cpu_env (cpus s' c') \<noteq> Some e" using no cp by auto
  have ow: "cpu_env (cpus s' c') = Some x \<longleftrightarrow> cpu_env (cpus s c') = Some x \<and> x \<noteq> e" for c' x
    using cp no by (auto split: if_splits)
  have "one_cpu s'" using km by (simp add: one_cpu_def ow kernel_mode_def)
  moreover have "on_cpu_ok s' c'" if "c' \<noteq> c" for c'
  proof -
    have "on_cpu_ok s c'" using km that by (simp add: kernel_mode_def)
    then show ?thesis using ev by (auto simp: on_cpu_ok_def ow)
  qed
  moreover have "run_owned s'"
  proof -
    have "\<exists>c'. cpu_env (cpus s' c') = Some x" if "x < NENV" "env_status (envs s' x) = ENV_RUNNING" for x
    proof -
      have "x \<noteq> e" using that fr by auto
      then have "env_status (envs s x) = ENV_RUNNING" using ev that by simp
      then show ?thesis using km that(1) \<open>x \<noteq> e\<close> by (auto simp: kernel_mode_def run_owned_def ow)
    qed
    then show ?thesis by (simp add: run_owned_def)
  qed
  ultimately show "kernel_mode c s'" using km by (simp add: kernel_mode_def curenv_def ow)
qed

lemma env_destroy_ok:
  assumes lk: "klock s = Some c" and inv: "env_inv s K xs es" and km: "kernel_mode c s"
    and e: "e < NENV" "env_status (envs s e) \<noteq> ENV_FREE"
    and dy: "env_status (envs s e) = ENV_DYING \<longrightarrow> (\<forall>c'. c' \<noteq> c \<longrightarrow> cpu_env (cpus s c') \<noteq> Some e)"
  shows "if env_status (envs s e) = ENV_RUNNING \<and> curenv c s \<noteq> Some e
    then \<exists>s'. env_destroy c e s = Some (Ret (), s') \<and> klock s' = Some c \<and> env_inv s' K xs es \<and> kernel_mode c s' \<and>
      env_status (envs s' e) = ENV_DYING \<and> (\<forall>x. x \<noteq> e \<longrightarrow> envs s' x = envs s x) \<and> cpus s' = cpus s
    else \<exists>s' xs'. klock s' = Some c \<and> env_inv s' K xs' (e # es) \<and> kernel_mode c s' \<and> set xs \<subseteq> set xs' \<and>
      (\<forall>x. x \<noteq> e \<longrightarrow> envs s' x = envs s x) \<and> (\<forall>c'. cpu_env (cpus s' c') \<noteq> Some e) \<and>
      (curenv c s \<noteq> Some e \<longrightarrow> curenv c s' = curenv c s) \<and>
      env_destroy c e s = (if curenv c s = Some e then sched_yield c s' else Some (Ret (), s'))"
proof (cases "env_status (envs s e) = ENV_RUNNING \<and> curenv c s \<noteq> Some e")
  case True
  let ?s = "upd_env e (\<lambda>x. x\<lparr>env_status := ENV_DYING\<rparr>) s"
  have "env_inv ?s K xs es" by (rule env_inv_cong [OF inv]) (use e in auto)
  moreover have "kernel_mode c ?s"
    using km by (auto simp: kernel_mode_def one_cpu_def on_cpu_ok_def run_owned_def curenv_def)
  ultimately show ?thesis using True lk by (simp add: env_destroy_def)
next
  case False
  obtain d where d: "env_pgdir (envs s e) = Some d" "e \<notin> set es" by (rule env_inv_used [OF inv e])
  obtain s1 ys where s1: "env_free c e s = Some ((), s1)" "env_inv s1 K ys (e # es)" "set xs \<subseteq> set ys"
    "\<forall>x. x \<noteq> e \<longrightarrow> envs s1 x = envs s x" "klock s1 = klock s" "\<forall>c'. cpu_env (cpus s1 c') = cpu_env (cpus s c')"
    using env_free_ok_full [OF inv e(1) d(2,1), of c] by blast
  define s2 where "s2 = (if curenv c s = Some e then upd_cpu c (\<lambda>p. p\<lparr>cpu_env := None\<rparr>) s1 else s1)"
  have s2: "klock s2 = Some c" "envs s2 = envs s1"
    "\<forall>c'. cpu_env (cpus s2 c') = (if c' = c \<and> cpu_env (cpus s c) = Some e then None else cpu_env (cpus s c'))"
    using s1(5,6) lk by (auto simp: s2_def curenv_def)
  have i2: "env_inv s2 K ys (e # es)" by (rule env_inv_cong [OF s1(2)]) (simp_all add: s2_def)
  then have fr: "env_status (envs s2 e) = ENV_FREE" using e(1) by (auto simp: env_inv_def env_free_ok_def)
  have no: "\<forall>c'. c' \<noteq> c \<longrightarrow> cpu_env (cpus s c') \<noteq> Some e"
  proof (intro allI impI notI)
    fix c' assume A: "c' \<noteq> c" "cpu_env (cpus s c') = Some e"
    then have "env_status (envs s e) = ENV_RUNNING" using km dy by (auto simp: kernel_mode_def on_cpu_ok_def)
    with False have "cpu_env (cpus s c) = Some e" by (simp add: curenv_def)
    with A km show False unfolding kernel_mode_def one_cpu_def by blast
  qed
  note k2 = kernel_mode_free [OF km no s2(3) _ fr]
  have ev: "\<forall>x. x \<noteq> e \<longrightarrow> envs s2 x = envs s x" using s1(4) s2(2) by simp
  have cu: "curenv c s1 = curenv c s" using s1(6) by (simp add: curenv_def)
  have "env_destroy c e s = (if curenv c s = Some e then sched_yield c s2 else Some (Ret (), s2))"
    using False by (auto simp: env_destroy_def s1(1) cu s2_def)
  moreover have "curenv c s \<noteq> Some e \<longrightarrow> curenv c s2 = curenv c s" using cu by (simp add: s2_def)
  ultimately show ?thesis
    using k2 [OF ev] i2 s1(3) s2(1) ev unfolding if_not_P [OF False] by (intro exI [of _ s2] exI [of _ ys]) blast
qed

text \<open>C20: An environment that is destroyed while another CPU runs it is only marked as dying, and the
  marking does not protect it: destroyed a second time it is freed on the spot, so its page
  directory is on the free list while the other CPU still runs on it.\<close>

theorem env_destroy_twice:
  assumes inv: "env_inv s K xs es" and c: "c' \<noteq> c" "cpu_env (cpus s c') = Some e" "one_cpu s"
    and e: "e < NENV" "env_status (envs s e) = ENV_RUNNING" "env_pgdir (envs s e) = Some d"
    and cr3: "cpu_cr3 (cpus s c') = page2pa d"
  shows "\<exists>s1 s2 xs'. env_destroy c e s = Some (Ret (), s1) \<and> env_status (envs s1 e) = ENV_DYING \<and>
    env_destroy c e s1 = Some (Ret (), s2) \<and> env_status (envs s2 e) = ENV_FREE \<and> env_inv s2 K xs' (e # es) \<and>
    d \<in> set xs' \<and> cpu_env (cpus s2 c') = Some e \<and> cpu_cr3 (cpus s2 c') = page2pa d"
proof -
  have cur: "curenv c s \<noteq> Some e" using c by (auto simp: one_cpu_def curenv_def)
  let ?s = "upd_env e (\<lambda>x. x\<lparr>env_status := ENV_DYING\<rparr>) s"
  have s1: "env_destroy c e s = Some (Ret (), ?s)" using e cur by (simp add: env_destroy_def)
  have i1: "env_inv ?s K xs es" by (rule env_inv_cong [OF inv]) (use e in auto)
  have "e \<notin> set es" using inv e by (auto simp: env_inv_def env_free_ok_def)
  then obtain s2 ys where s2: "env_free c e ?s = Some ((), s2)" "env_inv s2 K ys (e # es)" "d \<in> set ys"
    "cpus s2 c' = cpus ?s c'" "\<forall>c'. cpu_env (cpus s2 c') = cpu_env (cpus ?s c')"
    using env_free_ok_full [OF i1 e(1), of d c] e(3) c(1) by auto
  have "env_destroy c e ?s = Some (Ret (), s2)"
    using s2(1,5) cur by (simp add: env_destroy_def curenv_def)
  moreover have "env_status (envs s2 e) = ENV_FREE" using s2(2) e(1) by (auto simp: env_inv_def env_free_ok_def)
  ultimately show ?thesis using s1 s2 c(2) cr3 by (intro exI [of _ ?s] exI [of _ s2] exI [of _ ys]) simp
qed

theorem env_destroy_twice_witness:
  "\<exists>s s1 s2 xs'. user_mode s \<and> env_destroy 1 0 s = Some (Ret (), s1) \<and> env_destroy 1 0 s1 = Some (Ret (), s2) \<and>
     env_inv s2 {0, 1} xs' (0 # [2..<NENV]) \<and> 2 \<in> set xs' \<and> cpu_cr3 (cpus s2 0) = page2pa 2"
proof -
  obtain s where s: "env_inv s {0, 1} [] [2..<NENV]" "user_mode s" "cpu_env (cpus s 0) = Some 0"
    "env_status (envs s 0) = ENV_RUNNING" "env_pgdir (envs s 0) = Some 2" "cpu_cr3 (cpus s 0) = page2pa 2"
    by (rule two_envs)
  have "one_cpu s" using s(2) by (simp add: user_mode_def)
  from env_destroy_twice [OF s(1) _ s(3) this NENV_bounds(1) s(4-6), of 1] s(2) show ?thesis by auto
qed

end
