(* ===== verification/Syscall.thy ===== *)
theory Syscall
  imports Sched
begin

text \<open>
  System calls, \<^verbatim>\<open>kern/syscall.c\<close>, and the user pointer assertion of \<^verbatim>\<open>kern/pmap.c\<close>.
  A handler may not come back to its caller: its result is a \<^typ>\<open>'a ctl\<close>. Return values are
  32-bit words, errors the negated error numbers.
\<close>

subsection \<open>Sequencing\<close>

definition ctl_bind :: "'a ctl kres \<Rightarrow> ('a \<Rightarrow> kstate \<Rightarrow> 'b ctl kres) \<Rightarrow> 'b ctl kres" where
  "ctl_bind m f = (case m of
     None \<Rightarrow> None
   | Some (r, s) \<Rightarrow> (case r of Ret a \<Rightarrow> f a s | Run e \<Rightarrow> Some (Run e, s) | Halted \<Rightarrow> Some (Halted, s)
       | Monitor \<Rightarrow> Some (Monitor, s)))"

lemma ctl_bind_simps [simp]:
  "ctl_bind (Some (Ret a, s)) f = f a s" "ctl_bind None f = None"
  "ctl_bind (Some (Run e, s)) f = Some (Run e, s)" "ctl_bind (Some (Halted, s)) f = Some (Halted, s)"
  "ctl_bind (Some (Monitor, s)) f = Some (Monitor, s)"
  by (simp_all add: ctl_bind_def)

definition neg_errno :: "err \<Rightarrow> u32" where
  "neg_errno e = - errno e"

definition ret_err :: "err \<Rightarrow> kstate \<Rightarrow> u32 ctl kres" where
  "ret_err e s = Some (Ret (neg_errno e), s)"

subsection \<open>User pointers\<close>

definition user_mem_assert :: "nat \<Rightarrow> nat \<Rightarrow> u32 \<Rightarrow> u32 \<Rightarrow> u32 \<Rightarrow> kstate \<Rightarrow> unit ctl kres" where
  "user_mem_assert c e va len perm s = do {
     (r, s) \<leftarrow> user_mem_check e va len (perm OR PTE_U) s;
     case r of
       Inr _ \<Rightarrow> Some (Ret (), s)
     | Inl _ \<Rightarrow> do {
         (_, s) \<leftarrow> cprintf (''[%08x] user_mem_check assertion failure for va %08x'' @ [CHR 0x0A])
           [VInt (env_id (envs s e)), VInt (user_mem_check_addr s)] s;
         env_destroy c e s
       }
   }"

text \<open>
  The characters that the loop of the \<^verbatim>\<open>s\<close> directive reads and prints, for a precision \<open>prec\<close> (any
  length when negative). Each round reads the next byte before it looks at the precision.
\<close>

partial_function (option) user_string :: "nat \<Rightarrow> u32 \<Rightarrow> int \<Rightarrow> kstate \<Rightarrow> string option" where
  [code]: "user_string d p prec s = do {
     b \<leftarrow> read_byte d p s;
     if b \<noteq> 0 \<and> (prec < 0 \<or> prec - 1 \<ge> 0) then do {
       rest \<leftarrow> user_string d (p + 1) (if prec < 0 then prec else prec - 1) s;
       Some (char_of (unat b) # rest)
     }
     else Some []
   }"

definition read_Trapframe :: "nat \<Rightarrow> u32 \<Rightarrow> kstate \<Rightarrow> Trapframe option" where
  "read_Trapframe d va s = do {
     edi \<leftarrow> read_word d va s; esi \<leftarrow> read_word d (va + 4) s; ebp \<leftarrow> read_word d (va + 8) s;
     oesp \<leftarrow> read_word d (va + 12) s; ebx \<leftarrow> read_word d (va + 16) s; edx \<leftarrow> read_word d (va + 20) s;
     ecx \<leftarrow> read_word d (va + 24) s; eax \<leftarrow> read_word d (va + 28) s; es \<leftarrow> read_word d (va + 32) s;
     ds \<leftarrow> read_word d (va + 36) s; trapno \<leftarrow> read_word d (va + 40) s; er \<leftarrow> read_word d (va + 44) s;
     eip \<leftarrow> read_word d (va + 48) s; cs \<leftarrow> read_word d (va + 52) s; eflags \<leftarrow> read_word d (va + 56) s;
     esp \<leftarrow> read_word d (va + 60) s; ss \<leftarrow> read_word d (va + 64) s;
     Some \<lparr>tf_regs = \<lparr>reg_edi = edi, reg_esi = esi, reg_ebp = ebp, reg_oesp = oesp, reg_ebx = ebx,
         reg_edx = edx, reg_ecx = ecx, reg_eax = eax\<rparr>, tf_es = ucast es, tf_ds = ucast ds,
       tf_trapno = trapno, tf_err = er, tf_eip = eip, tf_cs = ucast cs, tf_eflags = eflags,
       tf_esp = esp, tf_ss = ucast ss\<rparr>
   }"

definition sizeof_Trapframe :: u32 where "sizeof_Trapframe = 68"

subsection \<open>Console\<close>

definition sys_cputs :: "nat \<Rightarrow> u32 \<Rightarrow> u32 \<Rightarrow> kstate \<Rightarrow> unit ctl kres" where
  "sys_cputs c str len s = do {
     cur \<leftarrow> curenv c s;
     ctl_bind (user_mem_assert c cur str len (PTE_P OR PTE_U) s) (\<lambda>_ s. do {
       d \<leftarrow> env_pgdir (envs s cur);
       text \<leftarrow> (if str = 0 then Some None else map_option Some (user_string d str (sint len) s));
       (_, s) \<leftarrow> cprintf ''%.*s'' [VInt len, VStr text] s;
       Some (Ret (), s)
     })
   }"

definition sys_cgetc :: "nat \<Rightarrow> kstate \<Rightarrow> u32 ctl kres" where
  "sys_cgetc c s = do { (ch, k) \<leftarrow> cons_getc (kcons s); Some (Ret ch, s\<lparr>kcons := k\<rparr>) }"

subsection \<open>Environments\<close>

definition sys_getenvid :: "nat \<Rightarrow> kstate \<Rightarrow> u32 ctl kres" where
  "sys_getenvid c s = do { cur \<leftarrow> curenv c s; Some (Ret (env_id (envs s cur)), s) }"

definition sys_env_destroy :: "nat \<Rightarrow> envid_t \<Rightarrow> kstate \<Rightarrow> u32 ctl kres" where
  "sys_env_destroy c envid s = do {
     r \<leftarrow> envid2env c envid True s;
     case r of
       Inl er \<Rightarrow> ret_err er s
     | Inr e' \<Rightarrow> do {
         cur \<leftarrow> curenv c s;
         e \<leftarrow> e';
         (_, s) \<leftarrow> (if e = cur
            then cprintf (''[%08x] exiting gracefully'' @ [CHR 0x0A]) [VInt (env_id (envs s cur))] s
            else cprintf (''[%08x] destroying %08x'' @ [CHR 0x0A]) [VInt (env_id (envs s cur)), VInt (env_id (envs s e))] s);
         ctl_bind (env_destroy c e s) (\<lambda>_ s. Some (Ret 0, s))
       }
   }"

definition sys_yield :: "nat \<Rightarrow> kstate \<Rightarrow> unit ctl kres" where
  "sys_yield c s = sched_yield c s"

definition sys_exofork :: "nat \<Rightarrow> kstate \<Rightarrow> u32 ctl kres" where
  "sys_exofork c s = do {
     cur \<leftarrow> curenv c s;
     (r, s) \<leftarrow> env_alloc c (env_id (envs s cur)) s;
     case r of
       Inl er \<Rightarrow> ret_err er s
     | Inr e \<Rightarrow> do {
         let s = upd_env e (\<lambda>x. x\<lparr>env_status := ENV_NOT_RUNNABLE\<rparr>) s;
         let tf = env_tf (envs s cur);
         let s = upd_env e (\<lambda>x. x\<lparr>env_tf := tf\<lparr>tf_regs := (tf_regs tf)\<lparr>reg_eax := 0\<rparr>\<rparr>\<rparr>) s;
         Some (Ret (env_id (envs s e)), s)
       }
   }"

fun status_of :: "u32 \<Rightarrow> env_status option" where
  "status_of st = (if st = 2 then Some ENV_RUNNABLE else if st = 4 then Some ENV_NOT_RUNNABLE else None)"

definition sys_env_set_status :: "nat \<Rightarrow> envid_t \<Rightarrow> u32 \<Rightarrow> kstate \<Rightarrow> u32 ctl kres" where
  "sys_env_set_status c envid status s = (case status_of status of
     None \<Rightarrow> ret_err E_INVAL s
   | Some st \<Rightarrow> do {
       r \<leftarrow> envid2env c envid True s;
       case r of
         Inl er \<Rightarrow> ret_err er s
       | Inr e' \<Rightarrow> do { e \<leftarrow> e'; Some (Ret 0, upd_env e (\<lambda>x. x\<lparr>env_status := st\<rparr>) s) }
     })"

text \<open>The frame is read through the address space of the caller.\<close>

definition sys_env_set_trapframe :: "nat \<Rightarrow> envid_t \<Rightarrow> u32 \<Rightarrow> kstate \<Rightarrow> u32 ctl kres" where
  "sys_env_set_trapframe c envid tf s = do {
     r \<leftarrow> envid2env c envid True s;
     case r of
       Inl _ \<Rightarrow> ret_err E_BAD_ENV s
     | Inr e' \<Rightarrow> do {
         e \<leftarrow> e';
         ctl_bind (user_mem_assert c e tf sizeof_Trapframe PTE_W s) (\<lambda>_ s. do {
           cur \<leftarrow> curenv c s;
           d \<leftarrow> env_pgdir (envs s cur);
           t \<leftarrow> read_Trapframe d tf s;
           Some (Ret 0, upd_env e (\<lambda>x. x\<lparr>env_tf := t\<lparr>tf_cs := tf_cs t OR 3,
             tf_eflags := (tf_eflags t OR FL_IF) AND NOT FL_IOPL_MASK\<rparr>\<rparr>) s)
         })
       }
   }"

definition sys_env_set_pgfault_upcall :: "nat \<Rightarrow> envid_t \<Rightarrow> u32 \<Rightarrow> kstate \<Rightarrow> u32 ctl kres" where
  "sys_env_set_pgfault_upcall c envid func s = do {
     r \<leftarrow> envid2env c envid False s;
     case r of
       Inl er \<Rightarrow> ret_err er s
     | Inr e' \<Rightarrow> do { e \<leftarrow> e'; Some (Ret 0, upd_env e (\<lambda>x. x\<lparr>env_pgfault_upcall := func\<rparr>) s) }
   }"

subsection \<open>Memory\<close>

definition bad_perm :: "u32 \<Rightarrow> bool" where
  "bad_perm perm \<longleftrightarrow> perm AND (PTE_P OR PTE_U) \<noteq> (PTE_P OR PTE_U) \<or>
     perm AND NOT (PTE_P OR PTE_U) AND NOT (PTE_AVAIL OR PTE_W) \<noteq> 0"

definition bad_va :: "u32 \<Rightarrow> bool" where
  "bad_va va \<longleftrightarrow> va \<ge> UTOP \<or> va mod PGSIZE \<noteq> 0"

definition int_of_res :: "(err + unit) \<Rightarrow> u32" where
  "int_of_res r = (case r of Inl er \<Rightarrow> neg_errno er | Inr _ \<Rightarrow> 0)"

definition sys_page_alloc :: "nat \<Rightarrow> envid_t \<Rightarrow> u32 \<Rightarrow> u32 \<Rightarrow> kstate \<Rightarrow> u32 ctl kres" where
  "sys_page_alloc c envid va perm s =
     (if bad_perm perm then ret_err E_INVAL s
      else if bad_va va then ret_err E_INVAL s
      else do {
        r \<leftarrow> envid2env c envid False s;
        case r of
          Inl er \<Rightarrow> ret_err er s
        | Inr e' \<Rightarrow> do {
            (p, s) \<leftarrow> page_alloc ALLOC_ZERO s;
            case p of
              None \<Rightarrow> ret_err E_NO_MEM s
            | Some page \<Rightarrow> do {
                e \<leftarrow> e';
                pgdir \<leftarrow> env_pgdir (envs s e);
                (r, s) \<leftarrow> page_insert c pgdir page va perm s;
                (_, s) \<leftarrow> (if isl r then page_free page s else Some ((), s));
                Some (Ret (int_of_res r), s)
              }
          }
      })"

definition sys_page_map :: "nat \<Rightarrow> envid_t \<Rightarrow> u32 \<Rightarrow> envid_t \<Rightarrow> u32 \<Rightarrow> u32 \<Rightarrow> kstate \<Rightarrow> u32 ctl kres" where
  "sys_page_map c srcenvid srcva dstenvid dstva perm s =
     (if bad_perm perm then ret_err E_INVAL s
      else if bad_va srcva \<or> bad_va dstva then ret_err E_INVAL s
      else do {
        r \<leftarrow> envid2env c srcenvid False s;
        case r of
          Inl er \<Rightarrow> ret_err er s
        | Inr src' \<Rightarrow> do {
            src \<leftarrow> src';
            srcdir \<leftarrow> env_pgdir (envs s src);
            (l, s) \<leftarrow> page_lookup srcdir srcva s;
            case l of
              None \<Rightarrow> ret_err E_INVAL s
            | Some (page, pte) \<Rightarrow>
                if rd_pte pte s AND PTE_W = 0 \<and> perm AND PTE_W \<noteq> 0 then ret_err E_INVAL s
                else do {
                  r \<leftarrow> envid2env c dstenvid False s;
                  case r of
                    Inl er \<Rightarrow> ret_err er s
                  | Inr dst' \<Rightarrow> do {
                      dst \<leftarrow> dst';
                      dstdir \<leftarrow> env_pgdir (envs s dst);
                      (r, s) \<leftarrow> page_insert c dstdir page dstva (perm OR PTE_P OR PTE_U) s;
                      (_, s) \<leftarrow> (if isl r then page_free page s else Some ((), s));
                      Some (Ret (int_of_res r), s)
                    }
                }
          }
      })"

definition sys_page_unmap :: "nat \<Rightarrow> envid_t \<Rightarrow> u32 \<Rightarrow> kstate \<Rightarrow> u32 ctl kres" where
  "sys_page_unmap c envid va s =
     (if bad_va va then ret_err E_INVAL s
      else do {
        r \<leftarrow> envid2env c envid False s;
        case r of
          Inl er \<Rightarrow> ret_err er s
        | Inr e' \<Rightarrow> do {
            e \<leftarrow> e';
            pgdir \<leftarrow> env_pgdir (envs s e);
            (_, s) \<leftarrow> page_remove c pgdir va s;
            Some (Ret 0, s)
          }
      })"

subsection \<open>Messages\<close>

definition ipc_deliver :: "nat \<Rightarrow> nat \<Rightarrow> u32 \<Rightarrow> kstate \<Rightarrow> u32 ctl kres" where
  "ipc_deliver c e value s = do {
     let s = upd_env e (\<lambda>x. x\<lparr>env_ipc_recving := False\<rparr>) s;
     cur \<leftarrow> curenv c s;
     let from = env_id (envs s cur);
     Some (Ret 0, upd_env e (\<lambda>x. x\<lparr>env_ipc_from := from, env_ipc_value := value,
       env_tf := (env_tf x)\<lparr>tf_regs := (tf_regs (env_tf x))\<lparr>reg_eax := 0\<rparr>\<rparr>, env_status := ENV_RUNNABLE\<rparr>) s)
   }"

definition sys_ipc_try_send :: "nat \<Rightarrow> envid_t \<Rightarrow> u32 \<Rightarrow> u32 \<Rightarrow> u32 \<Rightarrow> kstate \<Rightarrow> u32 ctl kres" where
  "sys_ipc_try_send c envid value srcva perm s = do {
     r \<leftarrow> envid2env c envid False s;
     case r of
       Inl _ \<Rightarrow> ret_err E_BAD_ENV s
     | Inr e' \<Rightarrow> do {
         e \<leftarrow> e';
         if \<not> env_ipc_recving (envs s e) then ret_err E_IPC_NOT_RECV s
         else do {
           let s = upd_env e (\<lambda>x. x\<lparr>env_ipc_perm := 0\<rparr>) s;
           if srcva < UTOP \<and> env_ipc_dstva (envs s e) < UTOP
           then ctl_bind (sys_page_map c 0 srcva envid (env_ipc_dstva (envs s e)) perm s) (\<lambda>error s.
             if error \<noteq> 0 then Some (Ret error, s)
             else ipc_deliver c e value (upd_env e (\<lambda>x. x\<lparr>env_ipc_perm := perm\<rparr>) s))
           else ipc_deliver c e value s
         }
       }
   }"

definition sys_ipc_recv :: "nat \<Rightarrow> u32 \<Rightarrow> kstate \<Rightarrow> u32 ctl kres" where
  "sys_ipc_recv c dstva s = do {
     r \<leftarrow> envid2env c 0 False s;
     e \<leftarrow> (case r of Inl _ \<Rightarrow> None | Inr e' \<Rightarrow> e');
     if dstva < UTOP \<and> dstva mod PGSIZE \<noteq> 0 then ret_err E_INVAL s
     else do {
       let s = (if dstva < UTOP then upd_env e (\<lambda>x. x\<lparr>env_ipc_dstva := dstva\<rparr>) s else s);
       let s = upd_env e (\<lambda>x. x\<lparr>env_ipc_recving := True, env_status := ENV_NOT_RUNNABLE\<rparr>) s;
       ctl_bind (sched_yield c s :: unit ctl kres) (\<lambda>_ s. Some (Ret 0, s))
     }
   }"

subsection \<open>Dispatch\<close>

definition syscall :: "nat \<Rightarrow> u32 \<Rightarrow> u32 \<Rightarrow> u32 \<Rightarrow> u32 \<Rightarrow> u32 \<Rightarrow> u32 \<Rightarrow> kstate \<Rightarrow> u32 ctl kres" where
  "syscall c syscallno a1 a2 a3 a4 a5 s =
     (if syscallno = 0 then ctl_bind (sys_cputs c a1 a2 s) (\<lambda>_ s. Some (Ret 0, s))
      else if syscallno = 1 then sys_cgetc c s
      else if syscallno = 2 then sys_getenvid c s
      else if syscallno = 3 then sys_env_destroy c a1 s
      else if syscallno = 11 then ctl_bind (sys_yield c s) (\<lambda>_ s. Some (Ret 0, s))
      else if syscallno = 7 then sys_exofork c s
      else if syscallno = 8 then sys_env_set_status c a1 a2 s
      else if syscallno = 4 then sys_page_alloc c a1 a2 a3 s
      else if syscallno = 5 then sys_page_map c a1 a2 a3 a4 a5 s
      else if syscallno = 6 then sys_page_unmap c a1 a2 s
      else if syscallno = 12 then sys_ipc_try_send c a1 a2 a3 a4 s
      else if syscallno = 13 then sys_ipc_recv c a1 s
      else if syscallno = 10 then sys_env_set_pgfault_upcall c a1 a2 s
      else if syscallno = 9 then sys_env_set_trapframe c a1 a2 s
      else ret_err E_INVAL s)"

end
