(* ===== verification/SyscallSpec.thy ===== *)
theory SyscallSpec
  imports Syscall
begin

text \<open>
  What the system calls promise: which calls fail and how, what the others do to the address
  spaces and the environment table, and that both stay well formed.
\<close>

subsection \<open>Naming environments\<close>

text \<open>The environment an envid names, 0 being the caller.\<close>

definition resolve :: "nat \<Rightarrow> envid_t \<Rightarrow> kstate \<Rightarrow> nat option" where
  "resolve c envid s = (if envid = 0 then curenv c s
     else if env_status (envs s (ENVX envid)) \<noteq> ENV_FREE \<and> env_id (envs s (ENVX envid)) = envid then Some (ENVX envid) else None)"

text \<open>The caller may act on itself and its children.\<close>

definition permitted :: "nat \<Rightarrow> nat \<Rightarrow> kstate \<Rightarrow> bool" where
  "permitted cur e s \<longleftrightarrow> e = cur \<or> env_parent_id (envs s e) = env_id (envs s cur)"

lemma envid2env_eq:
  assumes "curenv c s = Some cur"
  shows "envid2env c envid perm s = (case resolve c envid s of
      None \<Rightarrow> Some (Inl E_BAD_ENV)
    | Some e \<Rightarrow> if envid \<noteq> 0 \<and> perm \<and> \<not> permitted cur e s then Some (Inl E_BAD_ENV) else Some (Inr (Some e)))"
  using assms by (auto simp: envid2env_def resolve_def permitted_def Let_def)

text \<open>A state in which CPU \<open>c\<close> serves a system call of environment \<open>cur\<close>.\<close>

definition serving :: "nat \<Rightarrow> nat \<Rightarrow> kstate \<Rightarrow> nat set \<Rightarrow> nat list \<Rightarrow> nat list \<Rightarrow> bool" where
  "serving c cur s K xs es \<longleftrightarrow> klock s = Some c \<and> env_inv s K xs es \<and> kernel_mode c s \<and>
     curenv c s = Some cur \<and> env_status (envs s cur) = ENV_RUNNING"

lemma servingD:
  assumes "serving c cur s K xs es"
  shows "klock s = Some c" "env_inv s K xs es" "kernel_mode c s" "curenv c s = Some cur"
    "env_status (envs s cur) = ENV_RUNNING" "cur < NENV"
  using assms by (auto simp: serving_def kernel_mode_def)

lemma resolve_used:
  assumes "serving c cur s K xs es" "resolve c envid s = Some e"
  shows "e < NENV" "env_status (envs s e) \<noteq> ENV_FREE"
  using assms servingD [OF assms(1)] ENVX_less [of envid] by (auto simp: resolve_def split: if_splits)

lemma resolve_dir:
  assumes "serving c cur s K xs es" "resolve c envid s = Some e"
  obtains d where "env_pgdir (envs s e) = Some d" "d \<in> dirs s es"
  using env_inv_used [OF servingD(2) [OF assms(1)] resolve_used [OF assms]] by metis

subsection \<open>Taking and returning a page\<close>

lemma take_page_vm:
  assumes inv: "vm_inv s K D (p # xs) ex"
  shows "vm_inv (take_page fl p s) K D xs ex"
    and "\<And>d v. d \<in> D \<Longrightarrow> v < UPN \<Longrightarrow> upte (take_page fl p s) d v = upte s d v"
    and "\<And>d i. d \<in> D \<Longrightarrow> utab (take_page fl p s) d i = utab s d i"
    and "\<And>q. refs (take_page fl p s) D q = refs s D q"
    and "\<And>q. structural (take_page fl p s) D q = structural s D q"
proof -
  let ?s = "take_page fl p s"
  have t: "refs s D p = 0" "p < npages s" "p \<notin> K" using free_page_unused [OF inv, of p] by auto
  note un = refs_zeroD [OF vm_invD(2) [OF inv] t(1)]
  have f: "phys ?s q = phys s q" if "q \<noteq> p" for q using that by auto
  show ut: "utab ?s d i = utab s d i" if "d \<in> D" for d i
  proof -
    have "d \<noteq> p" using un(1) that by blast
    then show ?thesis by (simp add: utab_def)
  qed
  show up: "upte ?s d v = upte s d v" if "d \<in> D" "v < UPN" for d v
  proof -
    have "t' \<noteq> p" if "utab s d (v div 1024) = Some t'" for t'
      using un(2) [OF \<open>d \<in> D\<close> div_UPN [OF \<open>v < UPN\<close>]] that by auto
    then show ?thesis using ut [OF that(1)] by (auto simp: upte_def split: option.splits)
  qed
  have m: "maps_to ?s d q = maps_to s d q" "tables_at ?s d q = tables_at s d q" if "d \<in> D" for d q
    using up [OF that] ut [OF that] by (auto simp: maps_to_def tables_at_def)
  show r: "refs ?s D q = refs s D q" for q using m by (simp add: refs_def)
  show st: "structural ?s D q = structural s D q" for q using ut by (simp add: structural_def cong: bex_cong)
  show "vm_inv ?s K D xs ex"
  proof (rule vm_invI)
    show "alloc_inv ?s xs" by (rule take_page_inv [OF vm_invD(1) [OF inv]])
    show "t' < npages ?s \<and> t' \<notin> K \<and> t' \<notin> D" if "d \<in> D" "i < UPDX" "utab ?s d i = Some t'" for d i t'
      using vm_invD(7) [OF inv that(1,2)] that ut by simp
    show "d1 = d2 \<and> i1 = i2" if "d1 \<in> D" "d2 \<in> D" "i1 < UPDX" "i2 < UPDX"
      "utab ?s d1 i1 = Some t'" "utab ?s d2 i2 = Some t'" for d1 d2 i1 i2 t'
      using vm_invD(8) [OF inv that(1-4)] that ut by simp
    show "PGNUM (upte ?s d v) < npages ?s \<and> PGNUM (upte ?s d v) \<notin> K \<and> \<not> structural ?s D (PGNUM (upte ?s d v))"
      if "d \<in> D" "v < UPN" "PTE_VALID (upte ?s d v)" for d v
      using vm_invD(9) [OF inv that(1,2)] that up st by simp
    show "unat (pp_ref (pages ?s q)) = refs ?s D q + ex q" if "q < npages ?s" "q \<notin> K" for q
      using vm_invD(10) [OF inv, of q] that r by auto
  qed (use vm_invD(2-5) [OF inv] in auto)
qed

lemma free_back:
  assumes inv: "vm_inv s K D xs ex" and p: "p < npages s" "p \<notin> K" "p \<notin> set xs" "refs s D p + ex p = 0"
    and l: "lean_but s K D xs ex p"
  shows "\<exists>s'. page_free p s = Some ((), s') \<and> keeps s s' \<and> phys s' = phys s \<and> vm_inv s' K D (p # xs) ex \<and>
    lean s' K D (p # xs) ex"
proof -
  have z: "pp_ref (pages s p) = 0" using vm_invD(10) [OF inv p(1,2)] p(4) by (simp add: unat_eq_0)
  obtain s' where s': "page_free p s = Some ((), s')" "alloc_inv s' (p # xs)" "phys s' = phys s"
    "\<forall>q. pp_ref (pages s' q) = pp_ref (pages s q)"
    using page_free_inv [OF vm_invD(1) [OF inv] p(3,1) z] by blast
  have k: "keeps s s'" using s'(1) by (auto simp: page_free_def keeps_def split: if_splits)
  have "vm_inv s' K D (p # xs) ex"
    by (rule vm_inv_pages [OF inv s'(3) _ s'(2)]) (use k vm_invD(3,10) [OF inv] p s'(4) in \<open>auto simp: keeps_def\<close>)
  moreover have "lean s' K D (p # xs) ex"
    using l k phys_congs(3) [OF s'(3)] by (auto simp: lean_def lean_but_def keeps_def)
  ultimately show ?thesis using s'(1,3) k by blast
qed

lemma env_inv_keeps:
  assumes inv: "env_inv s K xs es" and k: "keeps s s'" and vm: "vm_inv s' K (dirs s es) ys (\<lambda>_. 0)"
    and l: "lean s' K (dirs s es) ys (\<lambda>_. 0)" and ph: "phys s' (kern_pgdir s) = phys s (kern_pgdir s)"
  shows "env_inv s' K ys es" "dirs s' es = dirs s es"
proof -
  show d: "dirs s' es = dirs s es" using k by (simp add: dirs_def keeps_def)
  show "env_inv s' K ys es"
    using inv vm l ph k unfolding env_inv_def d
    by (simp add: env_free_ok_def env_dirs_ok_def kern_ok_def keeps_def)
qed

lemma serving_keeps:
  assumes "serving c cur s K xs es" "keeps s s'" "env_inv s' K ys es"
  shows "serving c cur s' K ys es"
  using assms by (simp add: serving_def keeps_def kernel_mode_def one_cpu_def on_cpu_ok_def run_owned_def curenv_def)

text \<open>Inserting a page keeps everything.\<close>

lemma env_insert_ok:
  assumes inv: "env_inv s0 K zs es" and k: "keeps s0 s" and kp: "phys s (kern_pgdir s0) = phys s0 (kern_pgdir s0)"
    and vm: "vm_inv s K (dirs s0 es) xs (\<lambda>_. 0)" and d: "d \<in> dirs s0 es" and va: "va < UTOP"
    and pp: "pp < npages s" "pp \<notin> K" "pp \<notin> set xs" "\<not> structural s (dirs s0 es) pp"
    and perm: "perm AND NOT 0xFFF = 0" and small: "refs s (dirs s0 es) pp < 65535"
    and l: "lean_but s K (dirs s0 es) xs (\<lambda>_. 0) pp" and mem: "xs \<noteq> [] \<or> utab s d (PDX va) \<noteq> None"
  shows "\<exists>s' ys. page_insert c d pp va perm s = Some (Inr (), s') \<and> env_inv s' K ys es \<and> keeps s0 s' \<and>
    dirs s' es = dirs s0 es \<and> (\<forall>d' \<in> dirs s0 es. \<forall>v < UPN. upte s' d' v =
       (if d' = d \<and> v = PGNUM va then page2pa pp OR perm OR PTE_P else upte s d' v)) \<and>
    (\<forall>f. f \<notin> set xs \<and> \<not> structural s (dirs s0 es) f \<longrightarrow> phys s' f = phys s f)"
proof (rule insert_ok [OF vm d va pp perm _ mem, of c])
  show "refs s (dirs s0 es) pp + 0 < 65535" using small by simp
next
  fix s' ys
  assume A: "page_insert c d pp va perm s = Some (Inr (), s')" "vm_inv s' K (dirs s0 es) ys (\<lambda>_. 0)" "keeps s s'"
    "\<And>d' v. d' \<in> dirs s0 es \<Longrightarrow> v < UPN \<Longrightarrow> upte s' d' v =
       (if d' = d \<and> v = PGNUM va then page2pa pp OR perm OR PTE_P else upte s d' v)"
    "\<And>f. f \<notin> set xs \<Longrightarrow> \<not> structural s (dirs s0 es) f \<Longrightarrow> phys s' f = phys s f"
    "lean_but s K (dirs s0 es) xs (\<lambda>_. 0) pp \<Longrightarrow> lean_but s' K (dirs s0 es) ys (\<lambda>_. 0) pp"
    "0 < refs s' (dirs s0 es) pp"
  have k': "keeps s0 s'" by (rule keeps_trans [OF k A(3)])
  have "lean s' K (dirs s0 es) ys (\<lambda>_. 0)" using A(6) [OF l] A(7) by (auto simp: lean_def lean_but_def)
  moreover have "phys s' (kern_pgdir s0) = phys s0 (kern_pgdir s0)"
  proof -
    have kk: "kern_pgdir s0 \<in> K" using inv by (simp add: env_inv_def kern_ok_def)
    have "\<not> structural s (dirs s0 es) (kern_pgdir s0)"
      using vm_invD(4,7) [OF vm] kk by (auto simp: structural_def)
    moreover have "kern_pgdir s0 \<notin> set xs" using vm_invD(3) [OF vm] kk by auto
    ultimately show ?thesis using A(5) kp by simp
  qed
  ultimately show ?thesis
    using env_inv_keeps [OF inv k' A(2)] A(1,4,5) k' by (intro exI [of _ s'] exI [of _ ys]) simp
qed



subsection \<open>Memory calls\<close>

lemma good_perm: "\<not> bad_perm perm \<Longrightarrow> perm AND NOT 0xFFF = 0"
proof -
  assume "\<not> bad_perm perm"
  then have "perm AND NOT (PTE_P OR PTE_U) AND NOT (PTE_AVAIL OR PTE_W) = 0" by (simp add: bad_perm_def)
  then have "perm AND NOT 0xE07 = 0" by (simp add: pte_bits and.assoc)
  then have "(perm AND NOT 0xE07) AND NOT 0xFFF = 0" by simp
  then show ?thesis by (simp add: and.assoc)
qed

lemma good_perm_user: "\<not> bad_perm perm \<Longrightarrow> perm OR PTE_P OR PTE_U = perm"
proof -
  assume "\<not> bad_perm perm"
  then have "perm AND (PTE_P OR PTE_U) = PTE_P OR PTE_U" by (simp add: bad_perm_def)
  then have "perm OR (PTE_P OR PTE_U) = perm OR (perm AND (PTE_P OR PTE_U))" by simp
  also have "\<dots> = perm" by (rule bit_word_eqI) (auto simp: bit_or_iff bit_and_iff)
  finally show ?thesis by (simp add: or.assoc)
qed

lemma good_va: "\<not> bad_va va \<Longrightarrow> va < UTOP" by (auto simp: bad_va_def not_le)

definition maps_new :: "kstate \<Rightarrow> nat list \<Rightarrow> nat \<Rightarrow> u32 \<Rightarrow> u32 \<Rightarrow> kstate \<Rightarrow> bool" where
  "maps_new s es d va x s' \<longleftrightarrow> dirs s' es = dirs s es \<and>
     (\<forall>d' \<in> dirs s es. \<forall>v < UPN. upte s' d' v = (if d' = d \<and> v = PGNUM va then x else upte s d' v))"

lemma sys_page_alloc_ok:
  assumes sv: "serving c cur s K xs es"
  shows "if bad_perm perm \<or> bad_va va then sys_page_alloc c envid va perm s = ret_err E_INVAL s
    else case resolve c envid s of
      None \<Rightarrow> sys_page_alloc c envid va perm s = ret_err E_BAD_ENV s
    | Some e \<Rightarrow> (case xs of
        [] \<Rightarrow> sys_page_alloc c envid va perm s = ret_err E_NO_MEM s
      | p # xs' \<Rightarrow> if xs' = [] \<and> utab s (the (env_pgdir (envs s e))) (PDX va) = None
          then \<exists>s'. sys_page_alloc c envid va perm s = ret_err E_NO_MEM s' \<and> serving c cur s' K xs es \<and> envs s' = envs s \<and>
            (\<forall>d \<in> dirs s es. \<forall>v < UPN. upte s' d v = upte s d v)
          else \<exists>s' ys. sys_page_alloc c envid va perm s = Some (Ret 0, s') \<and> serving c cur s' K ys es \<and> envs s' = envs s \<and>
            maps_new s es (the (env_pgdir (envs s e))) va (page2pa p OR perm OR PTE_P) s' \<and> phys s' p = (\<lambda>_. 0))"
proof (cases "bad_perm perm \<or> bad_va va")
  case True
  then show ?thesis by (auto simp: sys_page_alloc_def)
next
  case False
  then have ok: "\<not> bad_perm perm" "\<not> bad_va va" by auto
  note cur = servingD(4) [OF sv]
  show ?thesis
  proof (cases "resolve c envid s")
    case None
    then show ?thesis using ok by (simp add: sys_page_alloc_def envid2env_eq [OF cur])
  next
    case (Some e)
    note res = Some
    have inv: "env_inv s K xs es" by (rule servingD(2) [OF sv])
    have vm: "vm_inv s K (dirs s es) xs (\<lambda>_. 0)" and le: "lean s K (dirs s es) xs (\<lambda>_. 0)"
      using inv by (auto simp: env_inv_def)
    obtain d where d: "env_pgdir (envs s e) = Some d" "d \<in> dirs s es" by (rule resolve_dir [OF sv Some])
    have id: "envid2env c envid False s = Some (Inr (Some e))" using Some by (simp add: envid2env_eq [OF cur])
    show ?thesis
    proof (cases xs)
      case Nil
      then have "page_alloc ALLOC_ZERO s = Some (None, s)" using vm_invD(1) [OF vm] by (simp add: page_alloc_Nil)
      then show ?thesis using ok Some Nil by (simp add: sys_page_alloc_def id)
    next
      case (Cons p xs')
      have vm': "vm_inv s K (dirs s es) (p # xs') (\<lambda>_. 0)" using vm Cons by simp
      let ?s1 = "take_page ALLOC_ZERO p s"
      note tp = take_page_vm [OF vm', where fl = ALLOC_ZERO]
      have al: "page_alloc ALLOC_ZERO s = Some (Some p, ?s1)" by (rule page_alloc_Cons [OF vm_invD(1) [OF vm']])
      have p: "refs s (dirs s es) p = 0" "p < npages s" "p \<notin> K" using free_page_unused [OF vm', of p] by auto
      have px: "p \<notin> set xs'" using alloc_inv_distinct [OF vm_invD(1) [OF vm']] by simp
      have nst: "\<not> structural s (dirs s es) p" by (rule refs_zero_structural [OF vm_invD(2) [OF vm] p(1)])
      have k1: "keeps s ?s1" by (simp add: keeps_def)
      have kk: "kern_pgdir s \<noteq> p" using inv p(3) by (auto simp: env_inv_def kern_ok_def)
      have lb: "lean_but ?s1 K (dirs s es) xs' (\<lambda>_. 0) p"
        using le tp(4) Cons by (auto simp: lean_def lean_but_def)
      show ?thesis
      proof (cases "xs' = [] \<and> utab s d (PDX va) = None")
        case True
        have "page_insert c d p va perm ?s1 = Some (Inl E_NO_MEM, ?s1)"
          using insert_no_memory [of ?s1 K "dirs s es" "\<lambda>_. 0" d va] tp(1,3) True d(2) by auto
        moreover obtain s' where s': "page_free p ?s1 = Some ((), s')" "keeps ?s1 s'" "phys s' = phys ?s1"
          "vm_inv s' K (dirs s es) (p # xs') (\<lambda>_. 0)" "lean s' K (dirs s es) (p # xs') (\<lambda>_. 0)"
          using free_back [OF tp(1) _ p(3) px _ lb] p tp(4) by auto
        moreover have "keeps s s'" by (rule keeps_trans [OF k1 s'(2)])
        moreover have "env_inv s' K xs es"
          using env_inv_keeps(1) [OF inv \<open>keeps s s'\<close> s'(4,5)] s'(3) kk Cons by simp
        moreover have "upte s' d' v = upte s d' v" if "d' \<in> dirs s es" "v < UPN" for d' v
          using tp(2) [OF that] phys_congs(2) [OF s'(3)] by simp
        moreover have "envs s' = envs s" using \<open>keeps s s'\<close> by (simp add: keeps_def)
        ultimately show ?thesis
          using ok Some Cons True d serving_keeps [OF sv \<open>keeps s s'\<close>]
          by (auto simp: sys_page_alloc_def id al ret_err_def int_of_res_def)
      next
        case F: False
        have "\<exists>s' ys. page_insert c d p va perm ?s1 = Some (Inr (), s') \<and> env_inv s' K ys es \<and> keeps s s' \<and>
          dirs s' es = dirs s es \<and> (\<forall>d' \<in> dirs s es. \<forall>v < UPN. upte s' d' v =
            (if d' = d \<and> v = PGNUM va then page2pa p OR perm OR PTE_P else upte ?s1 d' v)) \<and>
          (\<forall>f. f \<notin> set xs' \<and> \<not> structural ?s1 (dirs s es) f \<longrightarrow> phys s' f = phys ?s1 f)"
          by (rule env_insert_ok [OF inv k1 _ tp(1) d(2) good_va [OF ok(2)] _ p(3) px _ good_perm [OF ok(1)] _ lb])
            (use kk p nst tp(3-5) F d(2) in auto)
        then obtain s' ys where s': "page_insert c d p va perm ?s1 = Some (Inr (), s')" "env_inv s' K ys es" "keeps s s'"
          "dirs s' es = dirs s es" "\<forall>d' \<in> dirs s es. \<forall>v < UPN. upte s' d' v =
            (if d' = d \<and> v = PGNUM va then page2pa p OR perm OR PTE_P else upte ?s1 d' v)"
          "\<forall>f. f \<notin> set xs' \<and> \<not> structural ?s1 (dirs s es) f \<longrightarrow> phys s' f = phys ?s1 f"
          by blast
        have "phys s' p = (\<lambda>_. 0)" using s'(6) px nst tp(5) by (simp add: ALLOC_ZERO_def)
        moreover have "maps_new s es d va (page2pa p OR perm OR PTE_P) s'"
          using s'(4,5) tp(2) by (simp add: maps_new_def)
        moreover have "sys_page_alloc c envid va perm s = Some (Ret 0, s')"
          using ok s'(1) d by (simp add: sys_page_alloc_def id al int_of_res_def)
        moreover have "envs s' = envs s" using s'(3) by (simp add: keeps_def)
        ultimately show ?thesis
          using ok Some Cons F d serving_keeps [OF sv s'(3,2)] by auto
      qed
    qed
  qed
qed

lemma mapped_page:
  assumes vm: "vm_inv s K D xs ex" and d: "d \<in> D" and v: "v < UPN" and x: "PTE_VALID (upte s d v)"
  shows "PGNUM (upte s d v) < npages s" "PGNUM (upte s d v) \<notin> K" "PGNUM (upte s d v) \<notin> set xs"
    "\<not> structural s D (PGNUM (upte s d v))" "0 < refs s D (PGNUM (upte s d v))"
proof -
  show a: "PGNUM (upte s d v) < npages s" "PGNUM (upte s d v) \<notin> K" "\<not> structural s D (PGNUM (upte s d v))"
    using vm_invD(9) [OF vm d v x] by auto
  show r: "0 < refs s D (PGNUM (upte s d v))"
    using refs_zeroD(3) [OF vm_invD(2) [OF vm] _ d v x] by blast
  show "PGNUM (upte s d v) \<notin> set xs" using free_page_unused(1) [OF vm] r by force
qed

lemma sys_page_map_ok:
  assumes sv: "serving c cur s K xs es"
    and small: "\<forall>p. refs s (dirs s es) p < 65535"
  shows "if bad_perm perm \<or> bad_va srcva \<or> bad_va dstva
    then sys_page_map c src srcva dst dstva perm s = ret_err E_INVAL s
    else case resolve c src s of
      None \<Rightarrow> sys_page_map c src srcva dst dstva perm s = ret_err E_BAD_ENV s
    | Some e \<Rightarrow> let x = upte s (the (env_pgdir (envs s e))) (PGNUM srcva) in
        if \<not> PTE_VALID x \<or> x AND PTE_W = 0 \<and> perm AND PTE_W \<noteq> 0
        then sys_page_map c src srcva dst dstva perm s = ret_err E_INVAL s
        else case resolve c dst s of
          None \<Rightarrow> sys_page_map c src srcva dst dstva perm s = ret_err E_BAD_ENV s
        | Some e' \<Rightarrow> let d = the (env_pgdir (envs s e')) in
            if xs = [] \<and> utab s d (PDX dstva) = None
            then sys_page_map c src srcva dst dstva perm s = None
            else \<exists>s' ys. sys_page_map c src srcva dst dstva perm s = Some (Ret 0, s') \<and> serving c cur s' K ys es \<and>
              keeps s s' \<and> maps_new s es d dstva (page2pa (PGNUM x) OR perm OR PTE_P) s'"
proof (cases "bad_perm perm \<or> bad_va srcva \<or> bad_va dstva")
  case True
  then show ?thesis by (auto simp: sys_page_map_def)
next
  case False
  then have ok: "\<not> bad_perm perm" "\<not> bad_va srcva" "\<not> bad_va dstva" by auto
  note cur = servingD(4) [OF sv]
  have inv: "env_inv s K xs es" by (rule servingD(2) [OF sv])
  have vm: "vm_inv s K (dirs s es) xs (\<lambda>_. 0)" and le: "lean s K (dirs s es) xs (\<lambda>_. 0)"
    using inv by (auto simp: env_inv_def)
  show ?thesis
  proof (cases "resolve c src s")
    case None
    then show ?thesis using ok by (simp add: sys_page_map_def envid2env_eq [OF cur])
  next
    case (Some e)
    obtain sd where sd: "env_pgdir (envs s e) = Some sd" "sd \<in> dirs s es" by (rule resolve_dir [OF sv Some])
    have id: "envid2env c src False s = Some (Inr (Some e))" using Some by (simp add: envid2env_eq [OF cur])
    define x where "x = upte s sd (PGNUM srcva)"
    have v: "PGNUM srcva < UPN" using good_va [OF ok(2)] by (simp add: UTOP_less)
    have lk: "page_lookup sd srcva s = Some (if PTE_VALID x then Some (PGNUM x, (the (utab s sd (PDX srcva)), PTX srcva)) else None, s)"
      unfolding x_def by (rule lookup_eq [OF vm sd(2) good_va [OF ok(2)]])
    show ?thesis
    proof (cases "PTE_VALID x")
      case False
      then show ?thesis using ok Some sd by (simp add: sys_page_map_def id lk flip: x_def)
    next
      case val: True
      have rd: "rd_pte (the (utab s sd (PDX srcva)), PTX srcva) s = x"
        using val by (auto simp: x_def rd_pte_def upte_def vpn_div vpn_mod split: option.splits)
      show ?thesis
      proof (cases "x AND PTE_W = 0 \<and> perm AND PTE_W \<noteq> 0")
        case True
        then show ?thesis using ok Some sd val by (simp add: sys_page_map_def id lk rd flip: x_def)
      next
        case wr: False
        note mp = mapped_page [OF vm sd(2) v val [unfolded x_def], folded x_def]
        show ?thesis
        proof (cases "resolve c dst s")
          case None
          then show ?thesis using ok Some sd val wr
            by (auto simp: sys_page_map_def id lk rd envid2env_eq [OF cur, of dst] simp flip: x_def)
        next
          case dst: (Some e')
          obtain d where d: "env_pgdir (envs s e') = Some d" "d \<in> dirs s es" by (rule resolve_dir [OF sv dst])
          have id': "envid2env c dst False s = Some (Inr (Some e'))" using dst by (simp add: envid2env_eq [OF cur])
          have run: "sys_page_map c src srcva dst dstva perm s = do {
              (r, s) \<leftarrow> page_insert c d (PGNUM x) dstva perm s;
              (_, s) \<leftarrow> (if isl r then page_free (PGNUM x) s else Some ((), s));
              Some (Ret (int_of_res r), s) }"
            using ok val wr by (auto simp: sys_page_map_def id lk rd id' d(1) sd(1) good_perm_user)
          show ?thesis
          proof (cases "xs = [] \<and> utab s d (PDX dstva) = None")
            case True
            have "pp_ref (pages s (PGNUM x)) \<noteq> 0"
              using vm_invD(10) [OF vm mp(1,2)] mp(5) by auto
            then have "page_free (PGNUM x) s = None" by (simp add: page_free_def)
            moreover have "page_insert c d (PGNUM x) dstva perm s = Some (Inl E_NO_MEM, s)"
              using insert_no_memory vm True by blast
            ultimately show ?thesis using ok Some sd val wr dst d True run by (auto simp flip: x_def)
          next
            case F: False
            have "\<exists>s' ys. page_insert c d (PGNUM x) dstva perm s = Some (Inr (), s') \<and> env_inv s' K ys es \<and> keeps s s' \<and>
              dirs s' es = dirs s es \<and> (\<forall>d' \<in> dirs s es. \<forall>v < UPN. upte s' d' v =
                (if d' = d \<and> v = PGNUM dstva then page2pa (PGNUM x) OR perm OR PTE_P else upte s d' v)) \<and>
              (\<forall>f. f \<notin> set xs \<and> \<not> structural s (dirs s es) f \<longrightarrow> phys s' f = phys s f)"
              by (rule env_insert_ok [OF inv _ _ vm d(2) good_va [OF ok(3)] mp(1-4) good_perm [OF ok(1)]])
                (use small le F in \<open>auto simp: lean_def lean_but_def\<close>)
            then obtain s' ys where s': "page_insert c d (PGNUM x) dstva perm s = Some (Inr (), s')" "env_inv s' K ys es"
              "keeps s s'" "maps_new s es d dstva (page2pa (PGNUM x) OR perm OR PTE_P) s'"
              unfolding maps_new_def by blast
            have "sys_page_map c src srcva dst dstva perm s = Some (Ret 0, s')" by (simp add: run s'(1) int_of_res_def)
            moreover have "serving c cur s' K ys es" by (rule serving_keeps [OF sv s'(3,2)])
            ultimately have "\<exists>s' ys. sys_page_map c src srcva dst dstva perm s = Some (Ret 0, s') \<and> serving c cur s' K ys es \<and>
                keeps s s' \<and> maps_new s es d dstva (page2pa (PGNUM x) OR perm OR PTE_P) s'"
              using s'(3,4) by blast
            then show ?thesis using False Some sd(1) val wr dst d(1) F
              by (simp only: option.case option.sel Let_def x_def [symmetric] if_False simp_thms)
          qed
        qed
      qed
    qed
  qed
qed

lemma remove_lean:
  assumes inv: "env_inv s K xs es" and d: "d \<in> dirs s es" and va: "va < UTOP"
  shows "\<exists>s' ys. page_remove c d va s = Some ((), s') \<and> env_inv s' K ys es \<and> keeps s s' \<and>
    (\<forall>d' \<in> dirs s es. \<forall>v < UPN. upte s' d' v = (if d' = d \<and> v = PGNUM va \<and> PTE_VALID (upte s d v) then 0 else upte s d' v))"
proof (cases "PTE_VALID (upte s d (PGNUM va))")
  case True
  have vm: "vm_inv s K (dirs s es) xs (\<lambda>_. 0)" and le: "lean s K (dirs s es) xs (\<lambda>_. 0)"
    and kk: "kern_pgdir s \<in> K" using inv by (auto simp: env_inv_def kern_ok_def)
  obtain s' ys where s': "page_remove c d va s = Some ((), s')" "vm_inv s' K (dirs s es) ys (\<lambda>_. 0)"
    "lean s' K (dirs s es) ys (\<lambda>_. 0)" "keeps s s'"
    "\<forall>d' \<in> dirs s es. \<forall>v < UPN. upte s' d' v = (if d' = d \<and> v = PGNUM va then 0 else upte s d' v)"
    "\<forall>f \<in> K. phys s' f = phys s f"
    using remove_mapped [OF vm d va True le, of c] by blast
  have "env_inv s' K ys es" by (rule env_inv_keeps(1) [OF inv s'(4,2,3)]) (use s'(6) kk in simp)
  with s' True show ?thesis by (intro exI [of _ s'] exI [of _ ys]) auto
next
  case False
  have vm: "vm_inv s K (dirs s es) xs (\<lambda>_. 0)" using inv by (simp add: env_inv_def)
  show ?thesis using remove_absent [OF vm d va False] inv False by auto
qed

lemma sys_page_unmap_ok:
  assumes sv: "serving c cur s K xs es"
  shows "if bad_va va then sys_page_unmap c envid va s = ret_err E_INVAL s
    else case resolve c envid s of
      None \<Rightarrow> sys_page_unmap c envid va s = ret_err E_BAD_ENV s
    | Some e \<Rightarrow> \<exists>s' ys. sys_page_unmap c envid va s = Some (Ret 0, s') \<and> serving c cur s' K ys es \<and> envs s' = envs s \<and>
        \<not> PTE_VALID (upte s' (the (env_pgdir (envs s e))) (PGNUM va)) \<and>
        (\<forall>d \<in> dirs s es. \<forall>v < UPN. d \<noteq> the (env_pgdir (envs s e)) \<or> v \<noteq> PGNUM va \<longrightarrow> upte s' d v = upte s d v)"
proof (cases "bad_va va")
  case True
  then show ?thesis by (simp add: sys_page_unmap_def)
next
  case ok: False
  note cur = servingD(4) [OF sv]
  show ?thesis
  proof (cases "resolve c envid s")
    case None
    then show ?thesis using ok by (simp add: sys_page_unmap_def envid2env_eq [OF cur])
  next
    case (Some e)
    obtain d where d: "env_pgdir (envs s e) = Some d" "d \<in> dirs s es" by (rule resolve_dir [OF sv Some])
    obtain s' ys where s': "page_remove c d va s = Some ((), s')" "env_inv s' K ys es" "keeps s s'"
      "\<forall>d' \<in> dirs s es. \<forall>v < UPN. upte s' d' v = (if d' = d \<and> v = PGNUM va \<and> PTE_VALID (upte s d v) then 0 else upte s d' v)"
      using remove_lean [OF servingD(2) [OF sv] d(2) good_va [OF ok], of c] by blast
    have "PGNUM va < UPN" using good_va [OF ok] by (simp add: UTOP_less)
    then have "\<not> PTE_VALID (upte s' d (PGNUM va))" using s'(4) d(2) by (auto simp: PTE_VALID_def PTE_P_def)
    moreover have "envs s' = envs s" using s'(3) by (simp add: keeps_def)
    ultimately show ?thesis
      using ok Some d s' serving_keeps [OF sv s'(3,2)]
      by (auto simp: sys_page_unmap_def envid2env_eq [OF cur])
  qed
qed

subsection \<open>Environment calls\<close>

lemma cur_resolve: "serving c cur s K xs es \<Longrightarrow> resolve c 0 s = Some cur"
  using servingD(4) by (simp add: resolve_def)

text \<open>Changes of environments that keep links, directories, ids and who is free.\<close>

lemma serving_upd:
  assumes sv: "serving c cur s K xs es" and f: "\<And>x. env_link (f x) = env_link x \<and> env_pgdir (f x) = env_pgdir x \<and>
      env_id (f x) = env_id x" "env_status (f (envs s e)) = env_status (envs s e)"
  shows "serving c cur (upd_env e f s) K xs es"
proof -
  have "env_inv (upd_env e f s) K xs es"
    by (rule env_inv_cong [OF servingD(2) [OF sv]]) (use f in auto)
  moreover have "kernel_mode c (upd_env e f s)"
    using servingD(3) [OF sv] f(2) by (auto simp: kernel_mode_def one_cpu_def on_cpu_ok_def run_owned_def curenv_def)
  ultimately show ?thesis using sv f(2) by (auto simp: serving_def curenv_def)
qed

lemma sys_env_set_status_ok:
  assumes sv: "serving c cur s K xs es"
  shows "sys_env_set_status c envid status s = (case status_of status of
      None \<Rightarrow> ret_err E_INVAL s
    | Some st \<Rightarrow> (case resolve c envid s of
        None \<Rightarrow> ret_err E_BAD_ENV s
      | Some e \<Rightarrow> if permitted cur e s then Some (Ret 0, upd_env e (\<lambda>x. x\<lparr>env_status := st\<rparr>) s)
          else ret_err E_BAD_ENV s))"
proof -
  have "permitted cur e s" if "resolve c 0 s = Some e" for e using that cur_resolve [OF sv] by (simp add: permitted_def)
  then show ?thesis
    using envid2env_eq [OF servingD(4) [OF sv], of envid True]
    by (cases "envid = 0") (auto simp: sys_env_set_status_def simp del: status_of.simps split: option.splits)
qed

lemma sys_exofork_ok:
  assumes sv: "serving c cur s K xs es"
  shows "case es of
      [] \<Rightarrow> sys_exofork c s = ret_err E_NO_FREE_ENV s
    | e # es' \<Rightarrow> (case xs of
        [] \<Rightarrow> sys_exofork c s = ret_err E_NO_MEM s
      | d # xs' \<Rightarrow> \<exists>s'. sys_exofork c s = Some (Ret (env_id (envs s' e)), s') \<and> serving c cur s' K xs' es' \<and>
          env_status (envs s' e) = ENV_NOT_RUNNABLE \<and> env_parent_id (envs s' e) = env_id (envs s cur) \<and>
          ENVX (env_id (envs s' e)) = e \<and> 0 < sint (env_id (envs s' e)) \<and>
          env_tf (envs s' e) = (env_tf (envs s cur))\<lparr>tf_regs := (tf_regs (env_tf (envs s cur)))\<lparr>reg_eax := 0\<rparr>\<rparr> \<and>
          env_pgdir (envs s' e) = Some d \<and> (\<forall>v < UPN. upte s' d v = 0) \<and>
          (\<forall>e'. e' \<noteq> e \<longrightarrow> envs s' e' = envs s e') \<and>
          (\<forall>d' \<in> dirs s es. \<forall>v < UPN. upte s' d' v = upte s d' v))"
proof -
  note cur = servingD(4) [OF sv]
  have ex: "sys_exofork c s = do {
      (r, s1) \<leftarrow> env_alloc c (env_id (envs s cur)) s;
      case r of
        Inl er \<Rightarrow> ret_err er s1
      | Inr e \<Rightarrow> do {
          let s2 = upd_env e (\<lambda>x. x\<lparr>env_status := ENV_NOT_RUNNABLE\<rparr>) s1;
          let tf = env_tf (envs s2 cur);
          let s3 = upd_env e (\<lambda>x. x\<lparr>env_tf := tf\<lparr>tf_regs := (tf_regs tf)\<lparr>reg_eax := 0\<rparr>\<rparr>\<rparr>) s2;
          Some (Ret (env_id (envs s3 e)), s3)
        }}" by (simp add: sys_exofork_def cur)
  note al = env_alloc_cases [OF servingD(2) [OF sv], of c "env_id (envs s cur)"]
  show ?thesis
  proof (cases es)
    case Nil
    then show ?thesis using al by (simp add: ex)
  next
    case (Cons e es')
    note es = Cons
    have ce: "cur \<noteq> e"
      using servingD(2,5,6) [OF sv] Cons by (auto simp: env_inv_def env_free_ok_def)
    show ?thesis
    proof (cases xs)
      case Nil
      then show ?thesis using al es by (simp add: ex)
    next
      case (Cons d xs')
      obtain s1 where s1: "env_alloc c (env_id (envs s cur)) s = Some (Inr e, s1)" "env_inv s1 K xs' es'"
        "ENVX (env_id (envs s1 e)) = e" "0 < sint (env_id (envs s1 e))" "env_parent_id (envs s1 e) = env_id (envs s cur)"
        "env_status (envs s1 e) = ENV_RUNNABLE" "env_pgdir (envs s1 e) = Some d" "\<forall>v < UPN. upte s1 d v = 0"
        "\<forall>e'. e' \<noteq> e \<longrightarrow> envs s1 e' = envs s e'" "cpus s1 = cpus s" "klock s1 = klock s"
        "\<forall>d' \<in> dirs s es. \<forall>v < UPN. upte s1 d' v = upte s d' v"
        using al es Cons by auto
      let ?tf = "(env_tf (envs s cur))\<lparr>tf_regs := (tf_regs (env_tf (envs s cur)))\<lparr>reg_eax := 0\<rparr>\<rparr>"
      let ?s = "upd_env e (\<lambda>x. x\<lparr>env_tf := ?tf\<rparr>) (upd_env e (\<lambda>x. x\<lparr>env_status := ENV_NOT_RUNNABLE\<rparr>) s1)"
      have run: "sys_exofork c s = Some (Ret (env_id (envs ?s e)), ?s)"
        using s1(1,9) ce by (simp add: ex Let_def)
      have "env_inv ?s K xs' es'" by (rule env_inv_cong [OF s1(2)]) (auto simp: s1(6))
      moreover have "kernel_mode c ?s"
      proof -
        have free: "env_status (envs s e) = ENV_FREE" "e < NENV"
          using servingD(2) [OF sv] es by (auto simp: env_inv_def env_free_ok_def)
        have no: "cpu_env (cpus s c') \<noteq> Some e" for c'
        proof
          assume A: "cpu_env (cpus s c') = Some e"
          show False
          proof (cases "c' = c")
            case True
            then show False using A cur ce by (simp add: curenv_def)
          next
            case False
            then show False using servingD(3) [OF sv] A free(1) by (auto simp: kernel_mode_def on_cpu_ok_def)
          qed
        qed
        have "on_cpu_ok ?s c'" if "c' \<noteq> c" for c'
        proof -
          have "on_cpu_ok s c'" using servingD(3) [OF sv] that by (simp add: kernel_mode_def)
          then show ?thesis using no s1(9,10) by (auto simp: on_cpu_ok_def)
        qed
        moreover have "run_owned ?s"
          using servingD(3) [OF sv] s1(9,10) by (auto simp: run_owned_def kernel_mode_def split: if_splits)
        ultimately show ?thesis
          using servingD(3) [OF sv] s1(10) by (auto simp: kernel_mode_def one_cpu_def curenv_def)
      qed
      ultimately have "serving c cur ?s K xs' es'"
        using sv s1(9-11) ce by (simp add: serving_def curenv_def)
      moreover have "upte ?s = upte s1" by (rule phys_congs) simp
      ultimately show ?thesis
        unfolding es Cons list.case
        by (intro exI [of _ ?s] conjI) (use run s1 es in simp_all)
    qed
  qed
qed

subsection \<open>Messages\<close>

text \<open>What a successful send leaves in the receiver.\<close>

definition delivered :: "u32 \<Rightarrow> u32 \<Rightarrow> Env \<Rightarrow> envid_t \<Rightarrow> Env" where
  "delivered value perm x from = x\<lparr>env_ipc_recving := False, env_ipc_from := from, env_ipc_value := value,
     env_ipc_perm := perm, env_tf := (env_tf x)\<lparr>tf_regs := (tf_regs (env_tf x))\<lparr>reg_eax := 0\<rparr>\<rparr>, env_status := ENV_RUNNABLE\<rparr>"

lemma ipc_deliver_eq:
  assumes "curenv c s = Some cur"
  shows "ipc_deliver c e value s = Some (Ret 0, upd_env e (\<lambda>x. x\<lparr>env_ipc_recving := False, env_ipc_from := env_id (envs s cur),
     env_ipc_value := value, env_tf := (env_tf x)\<lparr>tf_regs := (tf_regs (env_tf x))\<lparr>reg_eax := 0\<rparr>\<rparr>, env_status := ENV_RUNNABLE\<rparr>) s)"
  using assms by (auto simp: ipc_deliver_def curenv_def upd_env_def Let_def)

lemma delivered_eq:
  "x\<lparr>env_ipc_perm := p, env_ipc_recving := False, env_ipc_from := from, env_ipc_value := value,
     env_tf := (env_tf x)\<lparr>tf_regs := (tf_regs (env_tf x))\<lparr>reg_eax := 0\<rparr>\<rparr>, env_status := ENV_RUNNABLE\<rparr> =
   delivered value p x from"
  by (cases x) (simp add: delivered_def)

definition ipc_page :: "nat \<Rightarrow> u32 \<Rightarrow> kstate \<Rightarrow> u32" where
  "ipc_page cur srcva s = upte s (the (env_pgdir (envs s cur))) (PGNUM srcva)"

lemma sys_ipc_try_send_ok:
  assumes sv: "serving c cur s K xs es" and small: "\<forall>p. refs s (dirs s es) p < 65535"
  shows "case resolve c envid s of
      None \<Rightarrow> sys_ipc_try_send c envid value srcva perm s = ret_err E_BAD_ENV s
    | Some e \<Rightarrow> let dstva = env_ipc_dstva (envs s e); x = ipc_page cur srcva s; d = the (env_pgdir (envs s e)) in
        if \<not> env_ipc_recving (envs s e) then sys_ipc_try_send c envid value srcva perm s = ret_err E_IPC_NOT_RECV s
        else if \<not> (srcva < UTOP \<and> dstva < UTOP)
        then sys_ipc_try_send c envid value srcva perm s =
          Some (Ret 0, upd_env e (\<lambda>y. delivered value 0 y (env_id (envs s cur))) s)
        else if bad_perm perm \<or> bad_va srcva \<or> bad_va dstva \<or> \<not> PTE_VALID x \<or> x AND PTE_W = 0 \<and> perm AND PTE_W \<noteq> 0
        then sys_ipc_try_send c envid value srcva perm s = ret_err E_INVAL (upd_env e (\<lambda>y. y\<lparr>env_ipc_perm := 0\<rparr>) s)
        else if xs = [] \<and> utab s d (PDX dstva) = None
        then sys_ipc_try_send c envid value srcva perm s = None
        else \<exists>s' ys. sys_ipc_try_send c envid value srcva perm s = Some (Ret 0, s') \<and> env_inv s' K ys es \<and>
          envs s' = (envs s)(e := delivered value perm (envs s e) (env_id (envs s cur))) \<and> cpus s' = cpus s \<and>
          klock s' = klock s \<and> maps_new s es d dstva (page2pa (PGNUM x) OR perm OR PTE_P) s'"
proof (cases "resolve c envid s")
  case None
  then show ?thesis by (simp add: sys_ipc_try_send_def envid2env_eq [OF servingD(4) [OF sv]])
next
  case (Some e)
  note cur = servingD(4) [OF sv]
  have used: "e < NENV" "env_status (envs s e) \<noteq> ENV_FREE" using resolve_used [OF sv Some] by auto
  let ?s1 = "upd_env e (\<lambda>y. y\<lparr>env_ipc_perm := 0\<rparr>) s"
  let ?dst = "env_ipc_dstva (envs s e)" and ?x = "ipc_page cur srcva s" and ?d = "the (env_pgdir (envs s e))"
  have sv1: "serving c cur ?s1 K xs es" by (rule serving_upd [OF sv]) simp_all
  have cur1: "curenv c ?s1 = Some cur" by (rule servingD(4) [OF sv1])
  have dirs1: "dirs ?s1 es = dirs s es" by (auto simp: dirs_def)
  have ph1: "upte ?s1 = upte s" "utab ?s1 = utab s" "refs ?s1 = refs s" using phys_congs [of ?s1 s] by simp_all
  have "resolve c envid ?s1 = resolve c envid s" by (simp add: resolve_def curenv_def)
  then have res1: "resolve c envid ?s1 = Some e" using Some by simp
  have res0: "resolve c 0 ?s1 = Some cur" by (rule cur_resolve [OF sv1])
  have pd: "env_pgdir (envs ?s1 y) = env_pgdir (envs s y)" for y by simp
  have run: "sys_ipc_try_send c envid value srcva perm s =
      (if \<not> env_ipc_recving (envs s e) then ret_err E_IPC_NOT_RECV s
       else if srcva < UTOP \<and> ?dst < UTOP
       then ctl_bind (sys_page_map c 0 srcva envid ?dst perm ?s1) (\<lambda>error s.
         if error \<noteq> 0 then Some (Ret error, s)
         else ipc_deliver c e value (upd_env e (\<lambda>x. x\<lparr>env_ipc_perm := perm\<rparr>) s))
       else ipc_deliver c e value ?s1)"
    using Some by (simp add: sys_ipc_try_send_def envid2env_eq [OF cur] Let_def)
  note pm = sys_page_map_ok [OF sv1, of perm srcva ?dst 0 envid, unfolded res0 res1 option.case dirs1 ph1 pd Let_def]
  have inval: "ctl_bind (ret_err E_INVAL ?s1) f = ret_err E_INVAL ?s1"
    if "\<And>a. a \<noteq> 0 \<Longrightarrow> f a ?s1 = Some (Ret a, ?s1)" for f :: "u32 \<Rightarrow> kstate \<Rightarrow> u32 ctl kres"
    using that by (simp add: ret_err_def neg_errno_def)
  show ?thesis
  proof (cases "env_ipc_recving (envs s e) \<and> srcva < UTOP \<and> ?dst < UTOP")
    case False
    have "ipc_deliver c e value ?s1 = Some (Ret 0, upd_env e (\<lambda>y. delivered value 0 y (env_id (envs s cur))) s)"
      unfolding ipc_deliver_eq [OF cur1] by (auto simp: upd_env_def delivered_eq)
    then show ?thesis using False Some run by (auto simp: Let_def)
  next
    case tr: True
    show ?thesis
    proof (cases "bad_perm perm \<or> bad_va srcva \<or> bad_va ?dst \<or> \<not> PTE_VALID ?x \<or> ?x AND PTE_W = 0 \<and> perm AND PTE_W \<noteq> 0")
      case True
      then have "sys_page_map c 0 srcva envid ?dst perm ?s1 = ret_err E_INVAL ?s1"
        using pm small by (auto simp: ipc_page_def split: if_splits)
      then show ?thesis using Some run tr True inval by (simp add: Let_def)
    next
      case ok: False
      show ?thesis
      proof (cases "xs = [] \<and> utab s ?d (PDX ?dst) = None")
        case True
        then have "sys_page_map c 0 srcva envid ?dst perm ?s1 = None"
          using pm small ok by (auto simp: ipc_page_def)
        then show ?thesis using Some run tr ok True by (auto simp: Let_def)
      next
        case F: False
        obtain s2 ys where s2: "sys_page_map c 0 srcva envid ?dst perm ?s1 = Some (Ret 0, s2)" "serving c cur s2 K ys es"
          "keeps ?s1 s2" "maps_new ?s1 es ?d ?dst (page2pa (PGNUM ?x) OR perm OR PTE_P) s2"
          using pm small ok F by (auto simp: ipc_page_def)
        let ?s3 = "upd_env e (\<lambda>x. x\<lparr>env_ipc_perm := perm\<rparr>) s2"
        have cur3: "curenv c ?s3 = Some cur" using servingD(4) [OF s2(2)] by (simp add: curenv_def)
        have cp: "cpus s2 = cpus s" "klock s2 = klock s" and ev: "envs s2 = envs ?s1" using s2(3) by (simp_all add: keeps_def)
        let ?s4 = "upd_env e (\<lambda>x. x\<lparr>env_ipc_recving := False, env_ipc_from := env_id (envs ?s3 cur),
          env_ipc_value := value, env_tf := (env_tf x)\<lparr>tf_regs := (tf_regs (env_tf x))\<lparr>reg_eax := 0\<rparr>\<rparr>, env_status := ENV_RUNNABLE\<rparr>) ?s3"
        have "sys_ipc_try_send c envid value srcva perm s = Some (Ret 0, ?s4)"
          using tr s2(1) by (simp add: run ipc_deliver_eq [OF cur3] Let_def)
        moreover have "env_inv ?s4 K ys es"
          by (rule env_inv_cong [OF servingD(2) [OF s2(2)]]) (use ev used in auto)
        moreover have "envs ?s4 = (envs s)(e := delivered value perm (envs s e) (env_id (envs s cur)))"
          using ev by (auto simp: delivered_def fun_eq_iff)
        moreover have "maps_new s es ?d ?dst (page2pa (PGNUM ?x) OR perm OR PTE_P) ?s4"
        proof -
          have "dirs ?s4 es = dirs s2 es" by (auto simp: dirs_def)
          moreover have "upte ?s4 = upte s2" using phys_congs(2) [of ?s4 s2] by simp
          ultimately show ?thesis using s2(4) dirs1 ph1 by (simp add: maps_new_def)
        qed
        ultimately show ?thesis
          using Some tr ok F cp unfolding Let_def by (auto intro!: exI [of _ ?s4] exI [of _ ys])
      qed
    qed
  qed
qed

definition blocked :: "nat \<Rightarrow> u32 \<Rightarrow> kstate \<Rightarrow> kstate" where
  "blocked cur dstva s = upd_env cur (\<lambda>x. x\<lparr>env_ipc_recving := True, env_status := ENV_NOT_RUNNABLE,
     env_ipc_dstva := (if dstva < UTOP then dstva else env_ipc_dstva x)\<rparr>) s"

lemma sys_ipc_recv_eq:
  assumes sv: "serving c cur s K xs es"
  shows "sys_ipc_recv c dstva s = (if dstva < UTOP \<and> dstva mod PGSIZE \<noteq> 0 then ret_err E_INVAL s
    else ctl_bind (sched_yield c (blocked cur dstva s) :: unit ctl kres) (\<lambda>_ s. Some (Ret 0, s)))"
proof -
  have "upd_env cur (\<lambda>x. x\<lparr>env_ipc_recving := True, env_status := ENV_NOT_RUNNABLE\<rparr>)
      (if dstva < UTOP then upd_env cur (\<lambda>x. x\<lparr>env_ipc_dstva := dstva\<rparr>) s else s) = blocked cur dstva s"
    by (cases "envs s cur") (auto simp: blocked_def upd_env_def)
  then show ?thesis
    using servingD(4) [OF sv] by (simp add: sys_ipc_recv_def envid2env_def Let_def)
qed

lemma blocked_ok:
  assumes sv: "serving c cur s K xs es"
  shows "klock (blocked cur dstva s) = Some c" "env_inv (blocked cur dstva s) K xs es" "kernel_mode c (blocked cur dstva s)"
    "curenv c (blocked cur dstva s) = Some cur"
proof -
  show "klock (blocked cur dstva s) = Some c" "curenv c (blocked cur dstva s) = Some cur"
    using servingD(1,4) [OF sv] by (simp_all add: blocked_def curenv_def)
  show "env_inv (blocked cur dstva s) K xs es"
    by (rule env_inv_cong [OF servingD(2) [OF sv]]) (use servingD(5) [OF sv] in \<open>auto simp: blocked_def\<close>)
  have no: "cpu_env (cpus s c') \<noteq> Some cur" if "c' \<noteq> c" for c'
    using that servingD(3,4) [OF sv] by (auto simp: kernel_mode_def one_cpu_def curenv_def)
  then show "kernel_mode c (blocked cur dstva s)"
    using servingD(3) [OF sv] by (auto simp: kernel_mode_def one_cpu_def on_cpu_ok_def run_owned_def curenv_def blocked_def)
qed

lemma sys_ipc_recv_ok:
  assumes sv: "serving c cur s K xs es" and al: "dstva < UTOP \<longrightarrow> dstva mod PGSIZE = 0"
  shows "\<exists>r s'. sys_ipc_recv c dstva s = Some (r, s') \<and> (\<forall>v. r \<noteq> Ret v) \<and> env_inv s' K xs es \<and>
    (r \<noteq> Monitor \<longrightarrow> user_mode s' \<and> klock s' = None) \<and> (\<forall>e. r = Run e \<longrightarrow> e \<noteq> cur \<and> cpu_env (cpus s' c) = Some e) \<and>
    envs s' cur = (envs s cur)\<lparr>env_ipc_recving := True, env_status := ENV_NOT_RUNNABLE,
      env_ipc_dstva := (if dstva < UTOP then dstva else env_ipc_dstva (envs s cur))\<rparr>"
proof -
  let ?b = "blocked cur dstva s"
  note b = blocked_ok [OF sv, of dstva]
  have eb: "envs ?b cur = (envs s cur)\<lparr>env_ipc_recving := True, env_status := ENV_NOT_RUNNABLE,
      env_ipc_dstva := (if dstva < UTOP then dstva else env_ipc_dstva (envs s cur))\<rparr>"
    by (simp add: blocked_def)
  have nr: "\<not> runnable ?b cur" "env_status (envs ?b cur) \<noteq> ENV_RUNNING" by (simp_all add: eb runnable_def)
  have run: "sys_ipc_recv c dstva s = ctl_bind (sched_yield c ?b :: unit ctl kres) (\<lambda>_ s. Some (Ret 0, s))"
    using al by (auto simp: sys_ipc_recv_eq [OF sv])
  show ?thesis
    using sched_yield_cases [OF b(1-3), where 'a = unit]
  proof (elim disjE exE conjE)
    fix i d
    assume A: "i < NENV" "(sched_yield c ?b :: unit ctl kres) = Some (Run i, switch_to c i d ?b)" "runnable ?b i"
    then have ne: "i \<noteq> cur" using nr by auto
    have "user_mode (switch_to c i d ?b)" by (rule switch_to_user_mode [OF b(3) A(1)]) (use A(3) in simp)
    moreover have "env_inv (switch_to c i d ?b) K xs es"
      by (rule switch_to_inv [OF b(2) A(1)]) (use A(3) in \<open>simp add: runnable_def\<close>)
    moreover have "envs (switch_to c i d ?b) cur = envs ?b cur" using ne nr(2) by (simp add: switch_to_def)
    ultimately show ?thesis using A(2) ne by (simp add: run eb)
  next
    fix i
    assume "curenv c ?b = Some i" "env_status (envs ?b i) = ENV_RUNNING"
    then show ?thesis using b(4) nr(2) by simp
  next
    assume A: "(sched_yield c ?b :: unit ctl kres) = sched_halt c ?b" "\<forall>e. curenv c ?b = Some e \<longrightarrow> env_status (envs ?b e) \<noteq> ENV_RUNNING"
    show ?thesis
    proof (cases "\<exists>i < NENV. env_status (envs ?b i) \<in> {ENV_RUNNABLE, ENV_RUNNING, ENV_DYING}")
      case True
      have "user_mode (halted c ?b)" by (rule halted_user_mode [OF b(3)]) (use A(2) in blast)
      moreover have "env_inv (halted c ?b) K xs es" by (rule env_inv_cong [OF b(2)]) (simp_all add: halted_def)
      moreover have "envs (halted c ?b) = envs ?b" "klock (halted c ?b) = None" by (simp_all add: halted_def)
      ultimately show ?thesis
        using A(1) sched_halt_eq [OF b(1) True, where 'a = unit] by (simp add: run eb)
    next
      case False
      then obtain k where k: "(sched_halt c ?b :: unit ctl kres) = Some (Monitor, ?b\<lparr>kcons := k\<rparr>)"
        using sched_halt_idle [of ?b c, where 'a = unit] by blast
      have "env_inv (?b\<lparr>kcons := k\<rparr>) K xs es" by (rule env_inv_cong [OF b(2)]) simp_all
      then show ?thesis using A(1) k by (simp add: run eb)
    qed
  qed
qed

subsection \<open>A small machine in a system call\<close>

definition small_serving :: kstate where
  "small_serving = (switch_to 0 0 2 locked_envs)\<lparr>klock := Some 0\<rparr>"

definition other_slots :: "nat list" where
  "other_slots = [1..<NENV]"

lemma small_serving_ok: "serving 0 0 small_serving {0, 1} [5] other_slots"
proof -
  have um: "user_mode (switch_to 0 0 2 locked_envs)"
    by (rule switch_to_user_mode [OF locked_envs_ok(3) NENV_bounds(1)]) (simp add: locked_envs_ok(4))
  have inv: "env_inv (switch_to 0 0 2 locked_envs) {0, 1} [5] [1..<NENV]"
    by (rule switch_to_inv [OF locked_envs_ok(2) NENV_bounds(1)]) (use locked_envs_ok(4) in \<open>simp add: runnable_def\<close>)
  note l = lock_ok [OF _ inv um, of 0]
  show ?thesis unfolding serving_def using l by (simp add: small_serving_def curenv_def other_slots_def)
qed

lemma small_serving_sel:
  "upte small_serving = upte small_vm" "utab small_serving = utab small_vm" "env_pgdir (envs small_serving 0) = Some 2"
  "dirs small_serving other_slots = {2}" "refs small_serving = refs small_vm" "resolve 0 0 small_serving = Some 0"
proof -
  have ph: "phys small_serving = phys small_vm" by (simp add: small_serving_def locked_envs_def small_envs_def)
  show "upte small_serving = upte small_vm" "utab small_serving = utab small_vm" "refs small_serving = refs small_vm"
    using phys_congs [OF ph] by simp_all
  have pd: "env_pgdir (envs small_serving e) = env_pgdir (envs small_envs e)" for e
    by (simp add: small_serving_def locked_envs_def)
  show "env_pgdir (envs small_serving 0) = Some 2" by (simp add: pd small_envs_sel)
  show "dirs small_serving other_slots = {2}" using small_envs_dirs by (simp add: dirs_def pd other_slots_def)
  show "resolve 0 0 small_serving = Some 0" by (simp add: resolve_def small_serving_def curenv_def)
qed

subsection \<open>Printing user strings\<close>

lemma char_of_nz: "b \<noteq> 0 \<Longrightarrow> char_of (unat (b :: u8)) \<noteq> NUL"
proof
  assume b: "b \<noteq> 0" "char_of (unat b) = NUL"
  then have "of_char (char_of (unat b)) = (of_char NUL :: nat)" by simp
  moreover have "unat b < 256" using unsigned_less [of b] by simp
  ultimately have "unat b = 0" by (simp add: NUL_def)
  with b show False by (simp add: unat_eq_0)
qed

lemma user_string_bound:
  assumes "user_string d p prec s = Some tx"
  shows "NUL \<notin> set tx \<and> (prec \<ge> 0 \<longrightarrow> int (length tx) \<le> prec)"
proof (rule user_string.raw_induct [OF _ assms])
  fix us :: "nat \<Rightarrow> u32 \<Rightarrow> int \<Rightarrow> kstate \<Rightarrow> string option" and d p prec s r
  assume IH: "\<And>d p prec s r. us d p prec s = Some r \<Longrightarrow> NUL \<notin> set r \<and> (0 \<le> prec \<longrightarrow> int (length r) \<le> prec)"
    and eq: "do { b \<leftarrow> read_byte d p s;
       if b \<noteq> 0 \<and> (prec < 0 \<or> 0 \<le> prec - 1) then do {
         rest \<leftarrow> us d (p + 1) (if prec < 0 then prec else prec - 1) s;
         Some (char_of (unat b) # rest) }
       else Some [] } = Some r"
  from eq obtain b where b: "read_byte d p s = Some b" by (cases "read_byte d p s") auto
  show "NUL \<notin> set r \<and> (0 \<le> prec \<longrightarrow> int (length r) \<le> prec)"
  proof (cases "b \<noteq> 0 \<and> (prec < 0 \<or> prec - 1 \<ge> 0)")
    case True
    then obtain rest where r: "us d (p + 1) (if prec < 0 then prec else prec - 1) s = Some rest" "r = char_of (unat b) # rest"
      using eq b by (auto split: Option.bind_splits)
    from IH [OF r(1)] show ?thesis using r(2) True char_of_nz [of b] by (auto split: if_splits)
  next
    case False
    then show ?thesis using eq b by auto
  qed
qed

lemma put_chars_all:
  "NUL \<notin> set tx \<Longrightarrow> prec < 0 \<or> int (length tx) \<le> prec \<Longrightarrow> w \<le> 0 \<Longrightarrow>
     put_chars p False prec w tx st = fold p (map sch tx) st"
proof (induction tx arbitrary: prec w st)
  case Nil
  then show ?case by simp
next
  case (Cons c tx)
  have "prec < 0 \<or> prec - 1 \<ge> 0" using Cons.prems(2) by auto
  moreover have "put_chars p False (if prec < 0 then prec else prec - 1) (w - 1) tx (p (sch c) st) = fold p (map sch tx) (p (sch c) st)"
    by (rule Cons.IH) (use Cons.prems in auto)
  ultimately show ?case using Cons.prems(1) by auto
qed

lemma vprintfmt_star_s:
  assumes "NUL \<notin> set tx" "sint len < 0 \<or> int (length tx) \<le> sint len"
  shows "vprintfmt p ''%.*s'' [VInt len, VStr (Some tx)] st = Some (fold p (map sch tx) st)"
  using put_chars_all [OF assms, of 0 p st]
  by (simp add: conv_known_def convert_def is_digit_def less_eq_char_def process_precision_def fspec0_def put_str_def)

lemma sys_cputs_ok:
  assumes cur: "curenv c s = Some cur" "env_pgdir (envs s cur) = Some d" and str: "str \<noteq> 0"
    and ok: "user_mem_check cur str len (PTE_P OR PTE_U OR PTE_U) s = Some (Inr (), s)"
  shows "sys_cputs c str len s = (case user_string d str (sint len) s of
      None \<Rightarrow> None
    | Some tx \<Rightarrow> Some (Ret (), s\<lparr>kcons := fold cputchar (map sch tx) (kcons s)\<rparr>))"
proof (cases "user_string d str (sint len) s")
  case None
  then show ?thesis using cur str ok by (simp add: sys_cputs_def user_mem_assert_def)
next
  case (Some tx)
  have "vprintfmt (\<lambda>c out. out @ [c]) ''%.*s'' [VInt len, VStr (Some tx)] [] = Some (fold (\<lambda>c out. out @ [c]) (map sch tx) [])"
    by (rule vprintfmt_star_s) (use user_string_bound [OF Some] in auto)
  moreover have "fold (\<lambda>c out. out @ [c]) xs ys = ys @ xs" for xs ys :: "u32 list" by (induction xs arbitrary: ys) auto
  ultimately have "cprintf ''%.*s'' [VInt len, VStr (Some tx)] s = Some ((), s\<lparr>kcons := fold cputchar (map sch tx) (kcons s)\<rparr>)"
    by (intro cprintf_out) simp
  then show ?thesis using cur str ok Some by (simp add: sys_cputs_def user_mem_assert_def)
qed

lemma user_string_faults:
  assumes "\<forall>i < n. \<exists>b. b \<noteq> 0 \<and> read_byte d (p + of_nat i) s = Some b" "read_byte d (p + of_nat n) s = None"
  shows "user_string d p (int n) s = None"
  using assms
proof (induction n arbitrary: p)
  case 0
  then show ?case by (subst user_string.simps) simp
next
  case (Suc n)
  from Suc.prems(1) obtain b where b: "b \<noteq> 0" "read_byte d p s = Some b" by fastforce
  have "user_string d (p + 1) (int n) s = None"
  proof (rule Suc.IH)
    show "\<forall>i < n. \<exists>b. b \<noteq> 0 \<and> read_byte d (p + 1 + of_nat i) s = Some b"
    proof (intro allI impI)
      fix i assume "i < n"
      then have "Suc i < Suc n" by simp
      from Suc.prems(1) [rule_format, OF this] show "\<exists>b. b \<noteq> 0 \<and> read_byte d (p + 1 + of_nat i) s = Some b"
        by (simp add: add.assoc)
    qed
    show "read_byte d (p + 1 + of_nat n) s = None" using Suc.prems(2) by (simp add: add.assoc)
  qed
  then show ?case using b by (subst user_string.simps) simp
qed

subsection \<open>What each call promises\<close>


lemma small_args: "\<not> bad_perm 7" "\<not> bad_va 0x801000" "\<not> bad_va 0x800000" "\<not> bad_va 0xC00000"
  by (simp_all add: bad_perm_def bad_va_def pte_bits layout_defs)




text \<open>C8: \<open>sys_exofork\<close> creates a child that is not runnable, in the first free slot, with the caller as parent,
  a copy of the caller's registers except that \<open>eax\<close> is 0, so that the child sees 0 returned, and an
  empty user address space; the caller gets the child's id, which names it and is positive. It fails with
  \<open>E_NO_FREE_ENV\<close> or \<open>E_NO_MEM\<close> exactly when there is no slot or no page.\<close>

theorem sys_exofork_spec:
  assumes sv: "serving c cur s K xs es"
  shows "case es of
      [] \<Rightarrow> sys_exofork c s = ret_err E_NO_FREE_ENV s
    | e # es' \<Rightarrow> (case xs of
        [] \<Rightarrow> sys_exofork c s = ret_err E_NO_MEM s
      | d # xs' \<Rightarrow> \<exists>s'. sys_exofork c s = Some (Ret (env_id (envs s' e)), s') \<and> serving c cur s' K xs' es' \<and>
          env_status (envs s' e) = ENV_NOT_RUNNABLE \<and> env_parent_id (envs s' e) = env_id (envs s cur) \<and>
          ENVX (env_id (envs s' e)) = e \<and> 0 < sint (env_id (envs s' e)) \<and>
          env_tf (envs s' e) = (env_tf (envs s cur))\<lparr>tf_regs := (tf_regs (env_tf (envs s cur)))\<lparr>reg_eax := 0\<rparr>\<rparr> \<and>
          env_pgdir (envs s' e) = Some d \<and> (\<forall>v < UPN. upte s' d v = 0) \<and>
          (\<forall>e'. e' \<noteq> e \<longrightarrow> envs s' e' = envs s e') \<and>
          (\<forall>d' \<in> dirs s es. \<forall>v < UPN. upte s' d' v = upte s d' v))"
  using assms by (rule sys_exofork_ok)

theorem sys_exofork_spec_witness:
  "\<exists>s'. sys_exofork 0 small_serving = Some (Ret (env_id (envs s' 1)), s') \<and> ENVX (env_id (envs s' 1)) = 1 \<and>
     serving 0 0 s' {0, 1} [] [2..<NENV]"
proof -
  have "other_slots = 1 # [2..<NENV]" using NENV_bounds by (simp add: other_slots_def upt_conv_Cons numeral_2_eq_2)
  from sys_exofork_spec [OF small_serving_ok, unfolded this list.case] show ?thesis by blast
qed



definition small_listening :: kstate where
  "small_listening = upd_env 0 (\<lambda>x. x\<lparr>env_ipc_recving := True, env_ipc_dstva := UTOP\<rparr>) small_serving"

lemma small_listening_ok:
  "serving 0 0 small_listening {0, 1} [5] other_slots" "\<forall>p. refs small_listening (dirs small_listening other_slots) p < 65535"
  "resolve 0 0 small_listening = Some 0"
proof -
  show "serving 0 0 small_listening {0, 1} [5] other_slots"
    unfolding small_listening_def by (rule serving_upd [OF small_serving_ok]) auto
  have "phys small_listening = phys small_serving" by (simp add: small_listening_def)
  then have "refs small_listening = refs small_serving" using phys_congs by blast
  moreover have "env_pgdir (envs small_listening e) = env_pgdir (envs small_serving e)" for e
    by (simp add: small_listening_def)
  then have "dirs small_listening es = dirs small_serving es" for es by (simp add: dirs_def)
  ultimately show "\<forall>p. refs small_listening (dirs small_listening other_slots) p < 65535"
    by (simp add: small_serving_sel small_vm_refs)
  show "resolve 0 0 small_listening = Some 0"
    using small_serving_sel(6) by (simp add: small_listening_def resolve_def curenv_def)
qed




lemma user_string_reads:
  assumes "\<forall>i < length bs. bs ! i \<noteq> 0 \<and> read_byte d (p + of_nat i) s = Some (bs ! i)"
    "read_byte d (p + of_nat (length bs)) s = Some b" "b = 0 \<or> k = 0"
  shows "user_string d p (int (length bs) + int k) s = Some (map (char_of \<circ> unat) bs)"
  using assms
proof (induction bs arbitrary: p)
  case Nil
  then show ?case by (subst user_string.simps) auto
next
  case (Cons b0 bs)
  from Cons.prems(1) have b0: "b0 \<noteq> 0" "read_byte d p s = Some b0" by (force dest: spec [of _ 0])+
  have "user_string d (p + 1) (int (length bs) + int k) s = Some (map (char_of \<circ> unat) bs)"
  proof (rule Cons.IH [OF _ _ Cons.prems(3)])
    show "\<forall>i < length bs. bs ! i \<noteq> 0 \<and> read_byte d (p + 1 + of_nat i) s = Some (bs ! i)"
      using Cons.prems(1) by (force dest: spec [of _ "Suc _"] simp: add.assoc)
    show "read_byte d (p + 1 + of_nat (length bs)) s = Some b" using Cons.prems(2) by (simp add: add.assoc)
  qed
  then show ?case using b0 by (subst user_string.simps) (simp add: add.commute add.left_commute)
qed

lemma sch_byte: "sch (char_of (unat (b :: u8))) = scast b"
proof -
  have "(of_char (char_of (unat b)) :: u8) = of_nat (of_char (char_of (unat b) :: char))" by (simp only: of_nat_of_char)
  also have "\<dots> = of_nat (unat b mod 256)" by simp
  also have "unat b mod 256 = unat b" using unsigned_less [of b, where 'a = nat] by simp
  finally show ?thesis by (simp add: sch_def)
qed





text \<open>C19: \<open>sys_env_set_status\<close> does not look at the old status: a parent may make a child \<open>RUNNABLE\<close> that another CPU
  is running. If nothing else is runnable, its next \<open>sys_yield\<close> runs the child a second time, so
  that one environment runs on two CPUs.\<close>

theorem set_status_two_cpus:
  assumes sv: "serving c cur s K xs es" and e: "resolve c envid s = Some e" "permitted cur e s" "e \<noteq> cur"
    and c': "c' \<noteq> c" "cpu_env (cpus s c') = Some e" and only: "\<forall>x < NENV. x \<noteq> e \<longrightarrow> \<not> runnable s x"
  shows "\<exists>s1 s2. sys_env_set_status c envid 2 s = Some (Ret 0, s1) \<and>
    (sys_yield c s1 :: unit ctl kres) = Some (Run e, s2) \<and>
    cpu_env (cpus s2 c) = Some e \<and> cpu_env (cpus s2 c') = Some e"
proof -
  let ?s = "upd_env e (\<lambda>x. x\<lparr>env_status := ENV_RUNNABLE\<rparr>) s"
  have en: "e < NENV" by (rule resolve_used [OF sv e(1)])
  obtain d where d: "env_pgdir (envs s e) = Some d" by (rule resolve_dir [OF sv e(1)])
  have 1: "sys_env_set_status c envid 2 s = Some (Ret 0, ?s)" using sys_env_set_status_ok [OF sv] e by simp
  have run: "runnable ?s x \<longleftrightarrow> x = e" if "x < NENV" for x using only that by (auto simp: runnable_def)
  have px: "ENVX (cur_id c ?s) < NENV" by (rule ENVX_less)
  have "next_runnable (ENVX (cur_id c ?s)) ?s = Some e"
  proof (cases "next_runnable (ENVX (cur_id c ?s)) ?s")
    case None
    from next_runnable_None [OF this px en] show ?thesis using run [OF en] by simp
  next
    case (Some i)
    from next_runnable_Some(1,2) [OF this px] have "i = e" using run by blast
    then show ?thesis using Some by simp
  qed
  moreover have "klock ?s = Some c" using servingD(1) [OF sv] by simp
  ultimately have "(sys_yield c ?s :: unit ctl kres) = Some (Run e, switch_to c e d ?s)"
    using d by (simp add: sys_yield_def sched_yield_alt env_run_eq)
  then show ?thesis using 1 c' by (intro exI [of _ ?s] exI [of _ "switch_to c e d ?s"]) simp
qed

text \<open>Environment 0 in a system call on CPU 0 while CPU 1 runs its child.\<close>

lemma parent_and_child:
  obtains s envid where "serving 0 0 s {0, 1} [] [2..<NENV]" "resolve 0 envid s = Some 1" "permitted 0 1 s"
    "cpu_env (cpus s 1) = Some 1" "\<forall>x < NENV. x \<noteq> 1 \<longrightarrow> \<not> runnable s x"
proof -
  obtain s where s: "klock s = None" "env_inv s {0, 1} [] [2..<NENV]" "user_mode s" "cpu_env (cpus s 0) = Some 0"
    "env_status (envs s 0) = ENV_RUNNING" "runnable s 1" "env_id (envs s 0) = 0x1000" "env_parent_id (envs s 1) = 0x1000"
    "ENVX (env_id (envs s 1)) = 1" "env_id (envs s 1) \<noteq> 0" "\<forall>c. c \<noteq> 0 \<longrightarrow> cpu_env (cpus s c) = None"
    by (rule two_envs) blast
  note l = lock_ok [OF s(1-3), of 1]
  define t where "t = switch_to 1 1 (the (env_pgdir (envs s 1))) (s\<lparr>klock := Some 1\<rparr>)"
  have r: "runnable (s\<lparr>klock := Some 1\<rparr>) 1" using s(6) by (simp add: runnable_def)
  have um: "user_mode t" unfolding t_def by (rule switch_to_user_mode [OF l(3) NENV_bounds(2)]) (use r in simp)
  have inv: "env_inv t {0, 1} [] [2..<NENV]"
    unfolding t_def by (rule switch_to_inv [OF l(2) NENV_bounds(2)]) (use r in \<open>simp add: runnable_def\<close>)
  have sel: "klock t = None" "cpu_env (cpus t 0) = Some 0" "cpu_env (cpus t 1) = Some 1" "env_status (envs t 0) = ENV_RUNNING"
    "env_status (envs t 1) = ENV_RUNNING" "env_id (envs t e) = env_id (envs s e)"
    "env_parent_id (envs t 1) = env_parent_id (envs s 1)" "env_status (envs t e) = ENV_RUNNABLE \<longrightarrow> env_status (envs s e) = ENV_RUNNABLE" for e
    using s(4,5) s(11) by (simp_all add: t_def curenv_def switch_to_def)
  note l2 = lock_ok [OF sel(1) inv um, of 0]
  let ?u = "t\<lparr>klock := Some 0\<rparr>"
  have "serving 0 0 ?u {0, 1} [] [2..<NENV]" using l2(2,3) sel(2,4) by (simp add: serving_def curenv_def)
  moreover have "resolve 0 (env_id (envs s 1)) ?u = Some 1" using s(9,10) sel(5,6) by (simp add: resolve_def)
  moreover have "permitted 0 1 ?u" using s(7,8) sel(6,7) by (simp add: permitted_def)
  moreover have "\<forall>x < NENV. x \<noteq> 1 \<longrightarrow> \<not> runnable ?u x"
  proof (intro allI impI notI)
    fix x assume x: "x < NENV" "x \<noteq> 1" "runnable ?u x"
    then have "env_status (envs s x) = ENV_RUNNABLE" using sel(8) by (simp add: runnable_def)
    moreover have "env_status (envs s x) = ENV_FREE" if "x \<noteq> 0"
      using s(2) that x by (auto simp: env_inv_def env_free_ok_def)
    ultimately show False using s(5) by (cases "x = 0") auto
  qed
  ultimately show ?thesis using sel(3) by (intro that [of ?u]) simp_all
qed

theorem set_status_two_cpus_witness:
  "\<exists>s envid s1 s2. sys_env_set_status 0 envid 2 s = Some (Ret 0, s1) \<and>
    (sys_yield 0 s1 :: unit ctl kres) = Some (Run 1, s2) \<and> \<not> one_cpu s2"
proof -
  obtain s envid where s: "serving 0 0 s {0, 1} [] [2..<NENV]" "resolve 0 envid s = Some 1" "permitted 0 1 s"
    "cpu_env (cpus s 1) = Some 1" "\<forall>x < NENV. x \<noteq> 1 \<longrightarrow> \<not> runnable s x" by (rule parent_and_child)
  from set_status_two_cpus [OF s(1-3) _ _ s(4,5)] obtain s1 s2 where "sys_env_set_status 0 envid 2 s = Some (Ret 0, s1)"
    "(sys_yield 0 s1 :: unit ctl kres) = Some (Run 1, s2)" "cpu_env (cpus s2 0) = Some 1" "cpu_env (cpus s2 1) = Some 1"
    by auto
  moreover from this(3,4) have "\<not> one_cpu s2" unfolding one_cpu_def by (metis zero_neq_one)
  ultimately show ?thesis by blast
qed

end
