(* ===== verification/SyscallSafe.thy ===== *)
theory SyscallSafe
  imports SyscallSpec
begin

text \<open>
  The invariant of the kernel over all system calls: what is true of the machine whenever a handler stops.
\<close>

subsection \<open>Every system call keeps the kernel consistent\<close>

text \<open>What holds when a handler stops: the lock is still held if it returned, and released if the CPU went
  to user mode or idles.\<close>

definition consistent :: "nat \<Rightarrow> 'a ctl \<Rightarrow> kstate \<Rightarrow> bool" where
  "consistent c r s \<longleftrightarrow> (\<exists>K xs es. env_inv s K xs es) \<and> (case r of
     Ret _ \<Rightarrow> klock s = Some c \<and> kernel_mode c s
   | Run e \<Rightarrow> klock s = None \<and> user_mode s \<and> cpu_env (cpus s c) = Some e
   | Halted \<Rightarrow> klock s = None \<and> user_mode s
   | Monitor \<Rightarrow> True)"

definition safe :: "nat \<Rightarrow> 'a ctl kres \<Rightarrow> bool" where
  "safe c m \<longleftrightarrow> (\<forall>r s. m = Some (r, s) \<longrightarrow> consistent c r s)"

lemma safe_None [simp]: "safe c None" by (simp add: safe_def)
lemma safe_Some [simp]: "safe c (Some (r, s)) \<longleftrightarrow> consistent c r s" by (simp add: safe_def)
lemma safe_ret_err [simp]: "safe c (ret_err er s) \<longleftrightarrow> consistent c (Ret (neg_errno er)) s" by (simp add: ret_err_def)

lemma consistent_Ret: "consistent c (Ret a) s \<longleftrightarrow> (\<exists>K xs es. env_inv s K xs es) \<and> klock s = Some c \<and> kernel_mode c s"
  by (auto simp: consistent_def)

lemma safe_bind:
  assumes m: "safe c m" and f: "\<And>a s. m = Some (Ret a, s) \<Longrightarrow> consistent c (Ret a) s \<Longrightarrow> safe c (f a s)"
  shows "safe c (ctl_bind m f)"
proof (cases m)
  case None
  then show ?thesis by simp
next
  case (Some x)
  then obtain r s where x: "m = Some (r, s)" by (cases x) auto
  with m have c: "consistent c r s" by simp
  show ?thesis
  proof (cases r)
    case (Ret a)
    then show ?thesis using f [of a s] x c by simp
  qed (use x c in \<open>simp_all add: consistent_def\<close>)
qed

lemma serving_consistent: "serving c cur s K xs es \<Longrightarrow> consistent c (Ret a) s"
  using servingD(1-3) by (fastforce simp: consistent_Ret)

lemma sched_yield_safe:
  assumes "consistent c (Ret a) s" shows "safe c (sched_yield c s :: 'b ctl kres)"
proof -
  obtain K xs es where A: "klock s = Some c" "env_inv s K xs es" "kernel_mode c s" using assms by (auto simp: consistent_Ret)
  from sched_yield_full [OF A, where 'a = 'b] show ?thesis
    by (fastforce simp: consistent_def split: ctl.splits)
qed

text \<open>Environments other than the caller that it may act on are on no CPU.\<close>

definition children_idle :: "nat \<Rightarrow> nat \<Rightarrow> kstate \<Rightarrow> bool" where
  "children_idle c cur s \<longleftrightarrow> (\<forall>e c'. env_parent_id (envs s e) = env_id (envs s cur) \<and> e \<noteq> cur \<longrightarrow> cpu_env (cpus s c') \<noteq> Some e)"

lemma env_destroy_safe:
  assumes co: "consistent c (Ret a) s" and e: "e < NENV" "env_status (envs s e) \<noteq> ENV_FREE"
    and no: "\<forall>c'. c' \<noteq> c \<longrightarrow> cpu_env (cpus s c') \<noteq> Some e"
  shows "safe c (env_destroy c e s)"
proof -
  obtain K xs es where A: "klock s = Some c" "env_inv s K xs es" "kernel_mode c s" using co by (auto simp: consistent_Ret)
  show ?thesis
  proof (cases "env_status (envs s e) = ENV_RUNNING \<and> curenv c s \<noteq> Some e")
    case True
    with env_destroy_ok [OF A e] no obtain s' where "env_destroy c e s = Some (Ret (), s')" "klock s' = Some c"
      "env_inv s' K xs es" "kernel_mode c s'" by auto
    then show ?thesis by (auto simp: consistent_Ret)
  next
    case False
    with env_destroy_ok [OF A e] no obtain s' xs' where s': "klock s' = Some c" "env_inv s' K xs' (e # es)" "kernel_mode c s'"
      "env_destroy c e s = (if curenv c s = Some e then sched_yield c s' else Some (Ret (), s'))"
      unfolding if_not_P [OF False] by blast
    then have "consistent c (Ret ()) s'" by (auto simp: consistent_Ret)
    then show ?thesis using s'(4) sched_yield_safe [of c "()" s', where 'b = unit] by simp
  qed
qed

lemma consistent_upd:
  assumes co: "consistent c (Ret a) s" and f: "\<And>x. env_link (f x) = env_link x \<and> env_pgdir (f x) = env_pgdir x \<and>
      env_id (f x) = env_id x \<and> env_status (f x) = env_status x"
  shows "consistent c (Ret b) (upd_env e f s)"
proof -
  obtain K xs es where A: "klock s = Some c" "env_inv s K xs es" "kernel_mode c s" using co by (auto simp: consistent_Ret)
  have "env_inv (upd_env e f s) K xs es" by (rule env_inv_cong [OF A(2)]) (use f in auto)
  moreover have "kernel_mode c (upd_env e f s)"
    using A(3) f by (auto simp: kernel_mode_def one_cpu_def on_cpu_ok_def run_owned_def curenv_def)
  ultimately show ?thesis using A(1) by (auto simp: consistent_Ret)
qed

lemma consistent_kcons [simp]: "consistent c r (s\<lparr>kcons := k\<rparr>) \<longleftrightarrow> consistent c r s"
proof -
  have "env_inv (s\<lparr>kcons := k\<rparr>) K xs es \<longleftrightarrow> env_inv s K xs es" for K xs es
    using env_inv_cong [of s K xs es "s\<lparr>kcons := k\<rparr>"] env_inv_cong [of "s\<lparr>kcons := k\<rparr>" K xs es s] by auto
  then show ?thesis
    by (simp add: consistent_def kernel_mode_def user_mode_def one_cpu_def on_cpu_ok_def run_owned_def curenv_def split: ctl.splits)
qed

lemma consistent_addr [simp]: "consistent c r (s\<lparr>user_mem_check_addr := k\<rparr>) \<longleftrightarrow> consistent c r s"
proof -
  have "env_inv (s\<lparr>user_mem_check_addr := k\<rparr>) K xs es \<longleftrightarrow> env_inv s K xs es" for K xs es
    using env_inv_cong [of s K xs es "s\<lparr>user_mem_check_addr := k\<rparr>"] env_inv_cong [of "s\<lparr>user_mem_check_addr := k\<rparr>" K xs es s] by auto
  then show ?thesis
    by (simp add: consistent_def kernel_mode_def user_mode_def one_cpu_def on_cpu_ok_def run_owned_def curenv_def split: ctl.splits)
qed

lemma cprintf_kcons: "cprintf fmt ap s = Some (u, s') \<Longrightarrow> \<exists>k. s' = s\<lparr>kcons := k\<rparr>"
  using cprintf_frame by blast


lemma cur_alone:
  assumes "serving c cur s K xs es" "c' \<noteq> c" shows "cpu_env (cpus s c') \<noteq> Some cur"
  using assms servingD(3,4) [OF assms(1)] by (auto simp: kernel_mode_def one_cpu_def curenv_def)

lemma allowed_alone:
  assumes sv: "serving c cur s K xs es" and idle: "children_idle c cur s" and p: "permitted cur e s" and c': "c' \<noteq> c"
  shows "cpu_env (cpus s c') \<noteq> Some e"
  using cur_alone [OF sv c'] idle p by (auto simp: children_idle_def permitted_def)


lemma user_mem_check_loop_frame:
  assumes "user_mem_check_loop d va perm p q s = Some x"
  shows "\<exists>a. snd x = s\<lparr>user_mem_check_addr := a\<rparr>"
proof (rule user_mem_check_loop.raw_induct [OF _ assms])
  fix f :: "nat \<Rightarrow> u32 \<Rightarrow> u32 \<Rightarrow> u32 \<Rightarrow> u32 \<Rightarrow> kstate \<Rightarrow> (err + unit) kres" and d va perm p q s x
  assume IH: "\<And>d va perm p q s y. f d va perm p q s = Some y \<Longrightarrow> \<exists>a. snd y = s\<lparr>user_mem_check_addr := a\<rparr>"
    and run: "(if p < q then do {
        (pte, s) \<leftarrow> pgdir_walk d p False s;
        if p \<ge> ULIM \<or> pte = None \<or> (rd_pte (the pte) s OR perm OR PTE_P) \<noteq> rd_pte (the pte) s
        then Some (Inl E_FAULT, s\<lparr>user_mem_check_addr := (if p < va then va else p)\<rparr>)
        else f d va perm (p + PGSIZE) q s
      } else Some (Inr (), s)) = Some x"
  show "\<exists>a. snd x = s\<lparr>user_mem_check_addr := a\<rparr>"
  proof (cases "p < q")
    case False
    then have "snd x = s\<lparr>user_mem_check_addr := user_mem_check_addr s\<rparr>" using run by auto
    then show ?thesis ..
  next
    case True
    with run obtain pte s1 where w: "pgdir_walk d p False s = Some (pte, s1)" by (auto split: Option.bind_splits)
    then have s1: "s1 = s" by (rule walk_False_same)
    show ?thesis
    proof (cases "p \<ge> ULIM \<or> pte = None \<or> (rd_pte (the pte) s OR perm OR PTE_P) \<noteq> rd_pte (the pte) s")
      case True
      then show ?thesis using run \<open>p < q\<close> w s1 by auto
    next
      case False
      then have "f d va perm (p + PGSIZE) q s = Some x" using run \<open>p < q\<close> w s1 by (cases pte) auto
      then show ?thesis by (rule IH)
    qed
  qed
qed

lemma user_mem_check_frame:
  "user_mem_check e va len perm s = Some (r, s') \<Longrightarrow> \<exists>a. s' = s\<lparr>user_mem_check_addr := a\<rparr>"
  using user_mem_check_loop_frame [where x = "(r, s')"] by (fastforce simp: user_mem_check_def split: Option.bind_splits)

lemma safe_cprintf:
  assumes "\<And>k. safe c (f (s\<lparr>kcons := k\<rparr>))"
  shows "safe c (cprintf fmt ap s \<bind> (\<lambda>(_, s). f s))"
proof (cases "cprintf fmt ap s")
  case (Some y)
  then have "cprintf fmt ap s = Some ((), snd y)" by (cases y) simp
  moreover from cprintf_frame [OF this] have "safe c (f (snd y))" using assms by metis
  ultimately show ?thesis by simp
qed simp

lemma user_mem_assert_safe:
  assumes co: "consistent c (Ret a) s" and e: "e < NENV" "env_status (envs s e) \<noteq> ENV_FREE"
    and no: "\<forall>c'. c' \<noteq> c \<longrightarrow> cpu_env (cpus s c') \<noteq> Some e"
  shows "safe c (user_mem_assert c e va len perm s)"
proof (cases "user_mem_check e va len (perm OR PTE_U) s")
  case None
  then show ?thesis by (simp add: user_mem_assert_def)
next
  case (Some x)
  then obtain r a where x: "user_mem_check e va len (perm OR PTE_U) s = Some (r, s\<lparr>user_mem_check_addr := a\<rparr>)"
    using user_mem_check_frame by (cases x) fast
  show ?thesis
  proof (cases r)
    case (Inr u)
    then show ?thesis using x co by (simp add: user_mem_assert_def) (simp add: consistent_Ret)
  next
    case (Inl er)
    have "safe c (env_destroy c e (s\<lparr>user_mem_check_addr := a, kcons := k\<rparr>))" for k
      by (rule env_destroy_safe) (use co e no in \<open>simp_all\<close>)
    then show ?thesis using x Inl by (simp add: user_mem_assert_def safe_cprintf)
  qed
qed


lemma cprintf_consistent: "cprintf fmt ap s = Some (u, s') \<Longrightarrow> consistent c r s \<Longrightarrow> consistent c r s'"
  using cprintf_frame consistent_kcons by metis

lemma sys_cputs_safe:
  assumes sv: "serving c cur s K xs es" shows "safe c (sys_cputs c str len s)"
proof -
  have e: "cur < NENV" "env_status (envs s cur) \<noteq> ENV_FREE" using servingD(5,6) [OF sv] by auto
  have "safe c (user_mem_assert c cur str len (PTE_P OR PTE_U) s)"
    by (rule user_mem_assert_safe [OF serving_consistent [OF sv] e]) (use cur_alone [OF sv] in blast)
  then have "safe c (ctl_bind (user_mem_assert c cur str len (PTE_P OR PTE_U) s) (\<lambda>_ s. do {
       d \<leftarrow> env_pgdir (envs s cur);
       text \<leftarrow> (if str = 0 then Some None else map_option Some (user_string d str (sint len) s));
       cprintf ''%.*s'' [VInt len, VStr text] s \<bind> (\<lambda>(_, s). Some (Ret (), s))
     }))"
    by (rule safe_bind) (auto split: Option.bind_split dest: cprintf_consistent)
  then show ?thesis using servingD(4) [OF sv] by (simp add: sys_cputs_def case_prod_unfold)
qed

lemma sys_cgetc_safe:
  assumes sv: "serving c cur s K xs es" shows "safe c (sys_cgetc c s)"
proof (cases "cons_getc (kcons s)")
  case (Some x)
  then show ?thesis using serving_consistent [OF sv] by (cases x) (simp add: sys_cgetc_def)
qed (simp add: sys_cgetc_def)

lemma sys_env_destroy_safe:
  assumes sv: "serving c cur s K xs es" and idle: "children_idle c cur s"
  shows "safe c (sys_env_destroy c envid s)"
proof (cases "resolve c envid s")
  case None
  then show ?thesis using serving_consistent [OF sv]
    by (simp add: sys_env_destroy_def envid2env_eq [OF servingD(4) [OF sv]])
next
  case (Some e)
  show ?thesis
  proof (cases "envid \<noteq> 0 \<and> \<not> permitted cur e s")
    case True
    then show ?thesis using serving_consistent [OF sv] Some
      by (simp add: sys_env_destroy_def envid2env_eq [OF servingD(4) [OF sv]])
  next
    case False
    have "permitted cur e s" using False Some cur_resolve [OF sv] by (auto simp: permitted_def)
    from allowed_alone [OF sv idle this] have no: "\<forall>c'. c' \<noteq> c \<longrightarrow> cpu_env (cpus s c') \<noteq> Some e" by blast
    have "safe c (env_destroy c e (s\<lparr>kcons := k\<rparr>))" for k
      by (rule env_destroy_safe [of c 0]) (use serving_consistent [OF sv] resolve_used [OF sv Some] no in \<open>simp_all\<close>)
    then have d: "safe c (ctl_bind (env_destroy c e (s\<lparr>kcons := k\<rparr>)) (\<lambda>_ s. Some (Ret (0 :: u32), s)))" for k
      by (rule safe_bind) (simp add: consistent_Ret)
    show ?thesis
    proof (cases "e = cur")
      case True
      then show ?thesis using False Some d [unfolded True]
        by (simp add: sys_env_destroy_def envid2env_eq [OF servingD(4) [OF sv]] servingD(4) [OF sv])
           (intro conjI impI safe_cprintf; simp)
    next
      case ne: False
      then show ?thesis using False Some d
        by (simp add: sys_env_destroy_def envid2env_eq [OF servingD(4) [OF sv]] servingD(4) [OF sv])
           (intro conjI impI safe_cprintf; simp)
    qed
  qed
qed

lemma consistent_val: "consistent c (Ret a) s \<Longrightarrow> consistent c (Ret b) s"
  by (simp add: consistent_Ret)

lemma sys_env_set_status_safe:
  assumes sv: "serving c cur s K xs es" and idle: "children_idle c cur s"
  shows "safe c (sys_env_set_status c envid status s)"
proof (cases "status_of status = None \<or> resolve c envid s = None \<or> \<not> permitted cur (the (resolve c envid s)) s")
  case True
  then show ?thesis using sys_env_set_status_ok [OF sv, of envid status] serving_consistent [OF sv]
    by (auto split: option.splits simp del: status_of.simps)
next
  case False
  then obtain st e where st: "status_of status = Some st" "resolve c envid s = Some e" "permitted cur e s" by auto
  have ne: "st \<in> {ENV_RUNNABLE, ENV_NOT_RUNNABLE}" using st(1) by (auto split: if_splits)
  have e: "e < NENV" "env_status (envs s e) \<noteq> ENV_FREE" by (rule resolve_used [OF sv st(2)])+
  have off: "cpu_env (cpus s c') \<noteq> Some e" if "c' \<noteq> c" for c' by (rule allowed_alone [OF sv idle st(3) that])
  let ?s = "upd_env e (\<lambda>x. x\<lparr>env_status := st\<rparr>) s"
  have "env_inv ?s K xs es" by (rule env_inv_cong [OF servingD(2) [OF sv]]) (use e ne in auto)
  moreover have "kernel_mode c ?s"
    using servingD(3) [OF sv] off ne by (auto simp: kernel_mode_def one_cpu_def on_cpu_ok_def run_owned_def curenv_def)
  ultimately have "consistent c (Ret 0) ?s" using servingD(1) [OF sv] by (auto simp: consistent_Ret)
  then show ?thesis using sys_env_set_status_ok [OF sv, of envid status] st by simp
qed


lemma sys_env_set_trapframe_safe:
  assumes sv: "serving c cur s K xs es" and idle: "children_idle c cur s"
  shows "safe c (sys_env_set_trapframe c envid tf s)"
proof (cases "resolve c envid s")
  case None
  then show ?thesis using serving_consistent [OF sv]
    by (simp add: sys_env_set_trapframe_def envid2env_eq [OF servingD(4) [OF sv]])
next
  case (Some e)
  show ?thesis
  proof (cases "envid \<noteq> 0 \<and> \<not> permitted cur e s")
    case True
    then show ?thesis using serving_consistent [OF sv] Some
      by (simp add: sys_env_set_trapframe_def envid2env_eq [OF servingD(4) [OF sv]])
  next
    case False
    have "permitted cur e s" using False Some cur_resolve [OF sv] by (auto simp: permitted_def)
    from allowed_alone [OF sv idle this] have no: "\<forall>c'. c' \<noteq> c \<longrightarrow> cpu_env (cpus s c') \<noteq> Some e" by blast
    have "safe c (user_mem_assert c e tf sizeof_Trapframe PTE_W s)"
      by (rule user_mem_assert_safe [OF serving_consistent [OF sv] resolve_used [OF sv Some] no])
    then have "safe c (ctl_bind (user_mem_assert c e tf sizeof_Trapframe PTE_W s) (\<lambda>_ s. do {
           cur \<leftarrow> curenv c s;
           d \<leftarrow> env_pgdir (envs s cur);
           t \<leftarrow> read_Trapframe d tf s;
           Some (Ret (0 :: u32), upd_env e (\<lambda>x. x\<lparr>env_tf := t\<lparr>tf_cs := tf_cs t OR 3,
             tf_eflags := (tf_eflags t OR FL_IF) AND NOT FL_IOPL_MASK\<rparr>\<rparr>) s)
         }))"
      by (rule safe_bind) (auto split: Option.bind_split intro!: consistent_upd)
    then show ?thesis using False Some
      by (auto simp: sys_env_set_trapframe_def envid2env_eq [OF servingD(4) [OF sv]])
  qed
qed

lemma sys_env_set_pgfault_upcall_safe:
  assumes sv: "serving c cur s K xs es" shows "safe c (sys_env_set_pgfault_upcall c envid func s)"
  using serving_consistent [OF sv]
  by (cases "resolve c envid s")
     (auto simp: sys_env_set_pgfault_upcall_def envid2env_eq [OF servingD(4) [OF sv]] intro!: consistent_upd)

lemma sys_page_alloc_safe:
  assumes sv: "serving c cur s K xs es" shows "safe c (sys_page_alloc c envid va perm s)"
  using sys_page_alloc_ok [OF sv, of perm va envid] serving_consistent [OF sv]
  by (auto split: if_splits option.splits list.splits intro: serving_consistent)

lemma sys_page_map_safe:
  assumes sv: "serving c cur s K xs es" and small: "\<forall>p. refs s (dirs s es) p < 65535"
  shows "safe c (sys_page_map c src srcva dst dstva perm s)"
  using sys_page_map_ok [OF sv small, of perm srcva dstva src dst] serving_consistent [OF sv]
  by (auto simp: Let_def safe_def ret_err_def split: if_splits option.splits intro: serving_consistent)

lemma sys_page_unmap_safe:
  assumes sv: "serving c cur s K xs es" shows "safe c (sys_page_unmap c envid va s)"
  using sys_page_unmap_ok [OF sv, of va envid] serving_consistent [OF sv]
  by (auto split: if_splits option.splits intro: serving_consistent)

lemma sys_exofork_safe:
  assumes sv: "serving c cur s K xs es" shows "safe c (sys_exofork c s)"
  using sys_exofork_ok [OF sv] serving_consistent [OF sv]
  by (auto split: list.splits intro: serving_consistent)

lemma consistent_status:
  assumes sv: "serving c cur s K xs es" and e: "resolve c envid s = Some e" and off: "\<forall>c'. c' \<noteq> c \<longrightarrow> cpu_env (cpus s c') \<noteq> Some e"
    and t: "env_inv t K ys es" "cpus t = cpus s" "klock t = klock s"
      "\<And>x. x \<noteq> e \<Longrightarrow> envs t x = envs s x" "env_status (envs t e) = ENV_RUNNABLE"
  shows "consistent c (Ret v) t"
proof -
  have en: "e < NENV" by (rule resolve_used [OF sv e])
  have st: "env_status (envs t x) = (if x = e then ENV_RUNNABLE else env_status (envs s x))" for x using t(4,5) by simp
  have km: "one_cpu s" "\<forall>c'. c' \<noteq> c \<longrightarrow> on_cpu_ok s c'" "run_owned s" "\<forall>e. curenv c s = Some e \<longrightarrow> e < NENV"
    using servingD(3) [OF sv] by (auto simp: kernel_mode_def)
  have "on_cpu_ok t c'" if "c' \<noteq> c" for c'
  proof -
    have "on_cpu_ok s c'" using km(2) that by blast
    then show ?thesis using off that unfolding on_cpu_ok_def t(2) st by auto
  qed
  moreover have "run_owned t" using km(3) unfolding run_owned_def t(2) st by auto
  ultimately have "kernel_mode c t" using km(1,4) by (simp add: kernel_mode_def one_cpu_def curenv_def t(2))
  then show ?thesis using t(1,3) servingD(1) [OF sv] by (auto simp: consistent_Ret)
qed


text \<open>No environment that waits for a message is on another CPU.\<close>

definition receivers_idle :: "nat \<Rightarrow> kstate \<Rightarrow> bool" where
  "receivers_idle c s \<longleftrightarrow> (\<forall>e c'. env_ipc_recving (envs s e) \<and> c' \<noteq> c \<longrightarrow> cpu_env (cpus s c') \<noteq> Some e)"

lemma sys_ipc_try_send_safe:
  assumes sv: "serving c cur s K xs es" and small: "\<forall>p. refs s (dirs s es) p < 65535" and idle: "receivers_idle c s"
  shows "safe c (sys_ipc_try_send c envid value srcva perm s)"
proof (cases "resolve c envid s")
  case None
  then show ?thesis using sys_ipc_try_send_ok [OF sv small, of envid] serving_consistent [OF sv] by simp
next
  case (Some e)
  let ?m = "sys_ipc_try_send c envid value srcva perm s"
  note ok = sys_ipc_try_send_ok [OF sv small, of envid "value" srcva perm, unfolded Some option.case Let_def]
  show ?thesis
  proof (cases "env_ipc_recving (envs s e)")
    case False
    then show ?thesis using ok serving_consistent [OF sv] by simp
  next
    case True
    then have off: "\<forall>c'. c' \<noteq> c \<longrightarrow> cpu_env (cpus s c') \<noteq> Some e" using idle by (auto simp: receivers_idle_def)
    have del: "consistent c (Ret 0) (upd_env e (\<lambda>y. delivered value 0 y f) s)" for f
    proof (rule consistent_status [OF sv Some off])
      show "env_inv (upd_env e (\<lambda>y. delivered value 0 y f) s) K xs es"
        by (rule env_inv_cong [OF servingD(2) [OF sv]]) (use resolve_used [OF sv Some] in \<open>auto simp: delivered_def\<close>)
    qed (simp_all add: delivered_def)
    have inval: "consistent c (Ret v) (upd_env e (\<lambda>y. y\<lparr>env_ipc_perm := 0\<rparr>) s)" for v
      by (rule consistent_upd [OF serving_consistent [OF sv, of 0]]) simp
    have sent: "consistent c (Ret 0) s'" if "env_inv s' K ys es" "envs s' = (envs s)(e := delivered value perm (envs s e) f)"
      "cpus s' = cpus s" "klock s' = klock s" for s' ys f
      by (rule consistent_status [OF sv Some off that(1,3,4)]) (simp_all add: that(2) delivered_def)
    show ?thesis
      using ok True del inval sent by (auto simp: safe_def ret_err_def split: if_splits)
  qed
qed

lemma sys_ipc_recv_safe:
  assumes sv: "serving c cur s K xs es" shows "safe c (sys_ipc_recv c dstva s)"
proof (cases "dstva < UTOP \<and> dstva mod PGSIZE \<noteq> 0")
  case True
  then show ?thesis using sys_ipc_recv_eq [OF sv, of dstva] serving_consistent [OF sv] by simp
next
  case False
  have "consistent c (Ret ()) (blocked cur dstva s)" using blocked_ok [OF sv, of dstva] by (auto simp: consistent_Ret)
  then have "safe c (ctl_bind (sched_yield c (blocked cur dstva s) :: unit ctl kres) (\<lambda>_ s. Some (Ret (0 :: u32), s)))"
    by (intro safe_bind sched_yield_safe) (simp_all add: consistent_Ret)
  then show ?thesis using sys_ipc_recv_eq [OF sv, of dstva] False by auto
qed

lemma safe_zero: "safe c m \<Longrightarrow> safe c (ctl_bind m (\<lambda>_ s. Some (Ret (0 :: u32), s)))"
  by (rule safe_bind) (simp_all add: consistent_Ret)

lemma syscall_safe:
  assumes sv: "serving c cur s K xs es" and idle: "children_idle c cur s" "receivers_idle c s"
    and small: "\<forall>p. refs s (dirs s es) p < 65535"
  shows "safe c (syscall c syscallno a1 a2 a3 a4 a5 s)"
proof -
  have "safe c (ctl_bind (sys_yield c s :: unit ctl kres) (\<lambda>_ s. Some (Ret (0 :: u32), s)))"
    unfolding sys_yield_def by (rule safe_zero) (rule sched_yield_safe [OF serving_consistent [OF sv, of 0]])
  moreover have "safe c (sys_getenvid c s)" using serving_consistent [OF sv] servingD(4) [OF sv] by (simp add: sys_getenvid_def)
  ultimately show ?thesis
    unfolding syscall_def
    using safe_zero [OF sys_cputs_safe [OF sv]] sys_cgetc_safe [OF sv] sys_env_destroy_safe [OF sv idle(1)] sys_exofork_safe [OF sv]
      sys_env_set_status_safe [OF sv idle(1)] sys_page_alloc_safe [OF sv] sys_page_map_safe [OF sv small] sys_page_unmap_safe [OF sv]
      sys_ipc_try_send_safe [OF sv small idle(2)] sys_ipc_recv_safe [OF sv] sys_env_set_pgfault_upcall_safe [OF sv]
      sys_env_set_trapframe_safe [OF sv idle(1)] serving_consistent [OF sv, of "neg_errno E_INVAL"]
    by (simp del: ctl_bind_simps)
qed

text \<open>C1: Whatever a user program passes to \<open>syscall\<close>, when the handler stops the page tables, reference counts,
  free lists and environment table are well formed and the CPU is in a legal state: back in the handler with the
  kernel lock, in user mode on the environment it reports, idle, or in the monitor. This holds if no
  child of the caller and no waiting receiver runs on another CPU (\<open>sys_env_set_status\<close> and \<open>env_destroy\<close>
  break it otherwise) and no page has so many mappings that its 16-bit count would overflow.\<close>

theorem syscall_keeps_invariants:
  assumes sv: "serving c cur s K xs es" and idle: "children_idle c cur s" "receivers_idle c s"
    and small: "\<forall>p. refs s (dirs s es) p < 65535"
    and run: "syscall c syscallno a1 a2 a3 a4 a5 s = Some (r, s')"
  shows "consistent c r s'"
  using syscall_safe [OF sv idle small] run by (simp add: safe_def)

theorem syscall_keeps_invariants_witness:
  "\<exists>s'. syscall 0 7 0 0 0 0 0 small_serving = Some (Ret (env_id (envs s' 1)), s') \<and> consistent 0 (Ret (env_id (envs s' 1))) s'"
proof -
  have none: "cpu_env (cpus small_serving c) = Some e \<longleftrightarrow> c = 0 \<and> e = 0" for c e
    by (auto simp: small_serving_def locked_envs_def small_envs_def small_vm_def zero_state_def)
  have idle: "children_idle 0 0 small_serving" "receivers_idle 0 small_serving"
    by (auto simp: children_idle_def receivers_idle_def none)
  have small: "\<forall>p. refs small_serving (dirs small_serving other_slots) p < 65535"
    by (simp add: small_serving_sel small_vm_refs)
  have "other_slots = 1 # [2..<NENV]" using NENV_bounds by (simp add: other_slots_def upt_conv_Cons numeral_2_eq_2)
  from sys_exofork_ok [OF small_serving_ok, unfolded this list.case]
  obtain s' where "sys_exofork 0 small_serving = Some (Ret (env_id (envs s' 1)), s')" by blast
  then have "syscall 0 7 0 0 0 0 0 small_serving = Some (Ret (env_id (envs s' 1)), s')" by (simp add: syscall_def)
  with syscall_keeps_invariants [OF small_serving_ok idle small this] show ?thesis by blast
qed

end
