(* ===== verification/UserBytes.thy ===== *)
theory UserBytes
  imports EnvSpec
begin

text \<open>
  Memory of user programs as the kernel reads and writes it: writing to it changes no page table, and a read
  gives what was last written.
\<close>

subsection \<open>Writes leave the page tables alone\<close>

lemma translate_user:
  assumes inv: "vm_inv s K D xs ex" and d: "d \<in> D" and va: "va < UTOP" and t: "translate d perm va s = Some f"
  shows "PTE_VALID (upte s d (PGNUM va))" "f = PGNUM (upte s d (PGNUM va))" "f < npages s" "f \<notin> K" "\<not> structural s D f"
    "(upte s d (PGNUM va) OR perm OR PTE_P) = upte s d (PGNUM va)"
proof -
  obtain tb where tb: "utab s d (PDX va) = Some tb"
    using t walk_unmapped [of s d va] by (cases "utab s d (PDX va)") (auto simp: translate_def)
  have rd: "rd_pte (tb, PTX va) s = upte s d (PGNUM va)" using tb by (simp add: upte_def vpn_div vpn_mod rd_pte_def)
  have *: "(upte s d (PGNUM va) OR perm OR PTE_P) = upte s d (PGNUM va)" "f = PGNUM (upte s d (PGNUM va))"
    using t walk_mapped [OF inv d va tb, of False] rd by (auto simp: translate_def split: if_splits)
  show "(upte s d (PGNUM va) OR perm OR PTE_P) = upte s d (PGNUM va)" by (rule *(1))
  show f: "f = PGNUM (upte s d (PGNUM va))" by (rule *(2))
  have "upte s d (PGNUM va) OR PTE_P = (upte s d (PGNUM va) OR perm OR PTE_P) OR PTE_P" by (simp only: *(1))
  also have "\<dots> = upte s d (PGNUM va) OR perm OR PTE_P" by (simp add: or.assoc)
  finally show v: "PTE_VALID (upte s d (PGNUM va))" by (simp add: PTE_VALID_def *(1))
  have "PGNUM va < UPN" using va by (simp add: UTOP_less)
  from vm_invD(9) [OF inv d this v] show "f < npages s" "f \<notin> K" "\<not> structural s D f" unfolding f by auto
qed

lemma data_write:
  assumes inv: "vm_inv s K D xs ex" and f: "f \<notin> K" "\<not> structural s D f"
  shows "vm_inv (set_word f i w s) K D xs ex" "d \<in> D \<Longrightarrow> utab (set_word f i w s) d k = utab s d k"
    "d \<in> D \<Longrightarrow> v < UPN \<Longrightarrow> upte (set_word f i w s) d v = upte s d v"
    "refs (set_word f i w s) D p = refs s D p" "structural (set_word f i w s) D p = structural s D p"
proof -
  let ?t = "set_word f i w s"
  have ut: "utab ?t d k = utab s d k" if "d \<in> D" for d k
    using that f by (auto simp: utab_def structural_def set_word_def)
  have up: "upte ?t d v = upte s d v" if d: "d \<in> D" "v < UPN" for d v
  proof (cases "utab s d (v div 1024)")
    case None
    then show ?thesis using ut [OF d(1)] by (simp add: upte_def)
  next
    case (Some tb)
    have "v div 1024 < UPDX" using div_UPN [of v] d(2) by simp
    then have "tb \<noteq> f" using Some f d(1) by (auto simp: structural_def)
    then show ?thesis using Some ut [OF d(1)] by (simp add: upte_def set_word_def)
  qed
  have mt: "maps_to ?t d p = maps_to s d p" "tables_at ?t d p = tables_at s d p" if "d \<in> D" for d p
    using up ut that by (auto simp: maps_to_def tables_at_def)
  have rf: "refs ?t D p = refs s D p" for p using mt by (simp add: refs_def)
  have st: "structural ?t D p = structural s D p" for p using ut by (auto simp: structural_def)
  show "vm_inv ?t K D xs ex"
  proof (rule vm_invI)
    show "alloc_inv ?t xs" using vm_invD(1) [OF inv] by (simp add: alloc_inv_def free_list_def set_word_def)
    show "a < npages ?t \<and> a \<notin> K \<and> a \<notin> D" if "d \<in> D" "i < UPDX" "utab ?t d i = Some a" for d i a
      using vm_invD(7) [OF inv that(1,2)] that ut by (simp add: set_word_def)
    show "d = d' \<and> i = i'" if "d \<in> D" "d' \<in> D" "i < UPDX" "i' < UPDX" "utab ?t d i = Some a" "utab ?t d' i' = Some a" for d d' i i' a
      using vm_invD(8) [OF inv that(1-4)] that ut by simp
    show "PGNUM (upte ?t d v) < npages ?t \<and> PGNUM (upte ?t d v) \<notin> K \<and> \<not> structural ?t D (PGNUM (upte ?t d v))"
      if "d \<in> D" "v < UPN" "PTE_VALID (upte ?t d v)" for d v
      using vm_invD(9) [OF inv that(1,2)] that up st by (simp add: set_word_def)
    show "unat (pp_ref (pages ?t p)) = refs ?t D p + ex p" if "p < npages ?t" "p \<notin> K" for p
      using vm_invD(10) [OF inv] that rf by (simp add: set_word_def)
  qed (use vm_invD(2-5) [OF inv] in \<open>simp_all add: set_word_def\<close>)
  show "d \<in> D \<Longrightarrow> utab ?t d k = utab s d k" by (rule ut)
  show "d \<in> D \<Longrightarrow> v < UPN \<Longrightarrow> upte ?t d v = upte s d v" by (rule up)
  show "refs ?t D p = refs s D p" by (rule rf)
  show "structural ?t D p = structural s D p" by (rule st)
qed


lemma translate_eq:
  assumes inv: "vm_inv s K D xs ex" and d: "d \<in> D" and va: "va < UTOP"
  shows "translate d perm va s = (let x = upte s d (PGNUM va) in if (x OR perm OR PTE_P) = x then Some (PGNUM x) else None)"
proof (cases "utab s d (PDX va)")
  case None
  have "(0 OR perm OR PTE_P) \<noteq> (0 :: u32)"
  proof
    assume "(0 OR perm OR PTE_P) = (0 :: u32)"
    then have "bit (0 OR perm OR PTE_P) 0 = bit (0 :: u32) 0" by simp
    then show False by (simp add: bit_simps PTE_P_def)
  qed
  then show ?thesis using None walk_unmapped [OF None] by (simp add: translate_def upte_def vpn_div Let_def)
next
  case (Some tb)
  then have "rd_pte (tb, PTX va) s = upte s d (PGNUM va)" by (simp add: upte_def vpn_div vpn_mod rd_pte_def)
  then show ?thesis using walk_mapped [OF inv d va Some, of False] by (simp add: translate_def Let_def)
qed

subsection \<open>Bytes of words\<close>

lemma bit_get_byte: "bit (get_byte k w) n \<longleftrightarrow> n < 8 \<and> bit w (8 * k + n)"
  by (auto simp: get_byte_def bit_simps dest: bit_imp_le_length)

lemma bit_put_byte:
  assumes k: "k < 4"
  shows "bit (put_byte k b w) n \<longleftrightarrow> (if 8 * k \<le> n \<and> n < 8 * k + 8 then bit b (n - 8 * k) else bit w n)"
proof -
  have m: "(0xFF :: u32) = mask 8" by (simp add: mask_eq_exp_minus_1)
  have b8: "bit b j \<Longrightarrow> j < 8" for j using bit_imp_le_length [of b j] by simp
  show ?thesis
  proof (cases "n < 32")
    case True
    then show ?thesis unfolding put_byte_def m using k by (auto simp: bit_simps dest: b8)
  next
    case False
    then have "\<not> bit x n" for x :: u32 using bit_imp_le_length [of x n] by auto
    then show ?thesis using False k by auto
  qed
qed

lemma get_put_same: "k < 4 \<Longrightarrow> get_byte k (put_byte k b w) = b"
  by (rule bit_word_eqI) (simp add: bit_get_byte bit_put_byte)

lemma get_put_other: "k < 4 \<Longrightarrow> j < 4 \<Longrightarrow> j \<noteq> k \<Longrightarrow> get_byte j (put_byte k b w) = get_byte j w"
  by (rule bit_word_eqI) (auto simp: bit_get_byte bit_put_byte)

lemma word_of_bytes: "fold (\<lambda>k w. put_byte k (word_bytes x ! k) w) [0..<4] 0 = x"
proof (rule bit_word_eqI)
  fix n assume "n < LENGTH(32)"
  then have "n < 32" by simp
  moreover have "[0..<4] = [0, 1, 2, 3 :: nat]" by (simp add: upt_rec)
  ultimately show "bit (fold (\<lambda>k w. put_byte k (word_bytes x ! k) w) [0..<4] 0) n = bit x n"
    by (auto simp: word_bytes_def bit_put_byte bit_get_byte not_le not_less)
qed


subsection \<open>Reading back\<close>

text \<open>What a write in one address space leaves alone: all page tables, and every other byte.\<close>

definition data_kept :: "nat set \<Rightarrow> nat set \<Rightarrow> kstate \<Rightarrow> kstate \<Rightarrow> bool" where
  "data_kept K D s s' \<longleftrightarrow> s' = s\<lparr>phys := phys s'\<rparr> \<and> (\<forall>f \<in> K. phys s' f = phys s f) \<and>
     (\<forall>d \<in> D. \<forall>v < UPN. upte s' d v = upte s d v) \<and> (\<forall>p. refs s' D p = refs s D p) \<and> (\<forall>d \<in> D. \<forall>k. utab s' d k = utab s d k)"

lemma data_kept_refl [simp]: "data_kept K D s s" by (simp add: data_kept_def)

lemma data_kept_sel:
  assumes "data_kept K D s s'"
  shows "envs s' = envs s" "cpus s' = cpus s" "klock s' = klock s" "kcons s' = kcons s" "npages s' = npages s"
    "kern_pgdir s' = kern_pgdir s" "env_free_list s' = env_free_list s" "pages s' = pages s" "page_free_list s' = page_free_list s"
proof -
  have s': "s' = s\<lparr>phys := phys s'\<rparr>" using assms by (simp add: data_kept_def)
  show "envs s' = envs s" "cpus s' = cpus s" "klock s' = klock s" "kcons s' = kcons s" "npages s' = npages s"
    "kern_pgdir s' = kern_pgdir s" "env_free_list s' = env_free_list s" "pages s' = pages s" "page_free_list s' = page_free_list s"
    by (subst s', simp)+
qed
lemma data_kept_trans: "data_kept K D s t \<Longrightarrow> data_kept K D t u \<Longrightarrow> data_kept K D s u"
proof -
  assume A: "data_kept K D s t" "data_kept K D t u"
  then have "t = s\<lparr>phys := phys t\<rparr>" "u = t\<lparr>phys := phys u\<rparr>" by (simp_all only: data_kept_def)
  then have "u = s\<lparr>phys := phys u\<rparr>" by (metis (no_types, lifting) kstate.surjective kstate.update_convs(5))
  with A show ?thesis by (simp add: data_kept_def)
qed

lemma data_kept_translate:
  assumes inv: "vm_inv s K D xs ex" "vm_inv s' K D xs ex" and k: "data_kept K D s s'" and d: "d \<in> D" "va < UTOP"
  shows "translate d perm va s' = translate d perm va s"
proof -
  have "PGNUM va < UPN" using d(2) by (simp add: UTOP_less)
  then have "upte s' d (PGNUM va) = upte s d (PGNUM va)" using k d by (simp add: data_kept_def)
  then show ?thesis by (simp add: translate_eq [OF inv(1) d] translate_eq [OF inv(2) d])
qed

text \<open>The physical byte behind an address.\<close>

definition cell :: "kstate \<Rightarrow> nat \<Rightarrow> u32 \<Rightarrow> nat \<times> nat" where
  "cell s d va = (PGNUM (upte s d (PGNUM va)), unat (PGOFF va))"

lemma write_byte_ok:
  assumes inv: "vm_inv s K D xs ex" and d: "d \<in> D" and va: "va < UTOP" and w: "write_byte d va b s = Some (u, s')"
  shows "vm_inv s' K D xs ex" "data_kept K D s s'"
    "read_byte d va s' = Some b"
    "\<And>d' va'. d' \<in> D \<Longrightarrow> va' < UTOP \<Longrightarrow> cell s d' va' \<noteq> cell s d va \<Longrightarrow> read_byte d' va' s' = read_byte d' va' s"
proof -
  let ?i = "unat (PGOFF va) div 4"
  obtain f where f: "translate d PTE_W va s = Some f" using w by (auto simp: write_byte_def split: Option.bind_splits)
  note t = translate_user [OF inv d va f]
  let ?v = "put_byte (unat va mod 4) b (phys s f ?i)"
  have s': "s' = set_word f ?i ?v s" using w f by (simp add: write_byte_def Let_def)
  note dw = data_write [OF inv t(4,5), where i = ?i and w = ?v, folded s']
  show inv': "vm_inv s' K D xs ex" by (rule dw(1))
  show k: "data_kept K D s s'"
    using dw(2-4) t(4) unfolding data_kept_def by (auto simp: s' set_word_def)
  have x: "(upte s d (PGNUM va) OR 0 OR PTE_P) = upte s d (PGNUM va)"
    using t(1) by (simp add: PTE_VALID_def)
  have "translate d 0 va s = Some f" unfolding translate_eq [OF inv d va] Let_def using x t(2) by simp
  then have "translate d 0 va s' = Some f" using data_kept_translate [OF inv inv' k d va] by simp
  then show "read_byte d va s' = Some b" by (simp add: read_byte_def s' set_word_def get_put_same)
  fix d' va' assume A: "d' \<in> D" "va' < UTOP" "cell s d' va' \<noteq> cell s d va"
  have tr: "translate d' 0 va' s' = translate d' 0 va' s" by (rule data_kept_translate [OF inv inv' k A(1,2)])
  show "read_byte d' va' s' = read_byte d' va' s"
  proof (cases "translate d' 0 va' s")
    case None
    then show ?thesis using tr by (simp add: read_byte_def)
  next
    case (Some g)
    note g = translate_user [OF inv A(1,2) Some]
    have o: "unat (PGOFF va') = 4 * (unat (PGOFF va') div 4) + unat va' mod 4" "unat (PGOFF va) = 4 * ?i + unat va mod 4"
      using mult_div_mod_eq [of 4 "unat (PGOFF va')"] mult_div_mod_eq [of 4 "unat (PGOFF va)"]
      by (simp_all add: PGOFF_nat mod_mod_cancel)
    have "g \<noteq> f \<or> unat (PGOFF va') \<noteq> unat (PGOFF va)" using A(3) g(2) t(2) by (auto simp: cell_def)
    then have "g \<noteq> f \<or> unat (PGOFF va') div 4 \<noteq> ?i \<or> unat va' mod 4 \<noteq> unat va mod 4" using o by auto
    then have "get_byte (unat va' mod 4) (phys s' g (unat (PGOFF va') div 4)) =
        get_byte (unat va' mod 4) (phys s g (unat (PGOFF va') div 4))"
      by (auto simp: s' set_word_def get_put_other)
    then show ?thesis using Some tr by (simp add: read_byte_def)
  qed
qed


lemma cell_kept: "data_kept K D s s' \<Longrightarrow> d \<in> D \<Longrightarrow> va < UTOP \<Longrightarrow> cell s' d va = cell s d va"
  by (simp add: data_kept_def cell_def UTOP_less)

lemma write_byte_total:
  assumes "translate d PTE_W va s \<noteq> None" shows "\<exists>s'. write_byte d va b s = Some ((), s')"
  using assms by (auto simp: write_byte_def Let_def)

text \<open>An address range below \<open>UTOP\<close> that does not wrap.\<close>

definition below :: "u32 \<Rightarrow> nat \<Rightarrow> bool" where
  "below va n \<longleftrightarrow> unat va + n \<le> unat UTOP"

lemma below_less: "below va n \<Longrightarrow> i < n \<Longrightarrow> va + of_nat i < UTOP" "below va n \<Longrightarrow> i \<le> n \<Longrightarrow> unat (va + of_nat i) = unat va + i"
proof -
  have u: "unat UTOP < 2 ^ 32" using unsigned_less [of UTOP, where 'a = nat] by simp
  show a: "unat (va + of_nat i) = unat va + i" if "below va n" "i \<le> n" for i
    using that u by (subst unat_word_ariths) (simp add: below_def unat_of_nat)
  show "va + of_nat i < UTOP" if "below va n" "i < n"
    using that a [of i] by (simp add: word_less_nat_alt below_def)
qed

lemma below_Suc: "below va (Suc n) \<Longrightarrow> va < UTOP \<and> below (va + 1) n"
  using below_less(1) [of va "Suc n" 0] below_less(2) [of va "Suc n" 1] by (simp add: below_def)

lemma write_bytes_ok:
  assumes "vm_inv s K D xs ex" "d \<in> D" "below va (length bs)" "write_bytes d va bs s = Some (u, s')"
  shows "vm_inv s' K D xs ex \<and> data_kept K D s s' \<and>
    (\<forall>d' \<in> D. \<forall>va' < UTOP. (\<forall>i < length bs. cell s d' va' \<noteq> cell s d (va + of_nat i)) \<longrightarrow>
       read_byte d' va' s' = read_byte d' va' s) \<and>
    (inj_on (\<lambda>i. cell s d (va + of_nat i)) {..<length bs} \<longrightarrow>
       (\<forall>i < length bs. read_byte d (va + of_nat i) s' = Some (bs ! i)))"
  using assms
proof (induction bs arbitrary: s va)
  case Nil
  then show ?case by auto
next
  case (Cons b bs)
  from Cons.prems(3) have va: "va < UTOP" "below (va + 1) (length bs)" using below_Suc by auto
  from Cons.prems(4) obtain s1 where s1: "write_byte d va b s = Some ((), s1)" "write_bytes d (va + 1) bs s1 = Some (u, s')"
    by (auto split: Option.bind_splits)
  note w = write_byte_ok [OF Cons.prems(1,2) va(1) s1(1)]
  have c1: "cell s1 d' v = cell s d' v" if "d' \<in> D" "v < UTOP" for d' v by (rule cell_kept [OF w(2) that])
  have c2: "cell s1 d (va + 1 + of_nat i) = cell s d (va + of_nat (Suc i))" if "i < length bs" for i
    using c1 [OF Cons.prems(2), of "va + of_nat (Suc i)"] below_less(1) [OF Cons.prems(3), of "Suc i"] that
    by (simp add: add.assoc)
  note IH = Cons.IH [OF w(1) Cons.prems(2) va(2) s1(2)]
  have "data_kept K D s s'" using data_kept_trans [OF w(2)] IH by blast
  moreover have "read_byte d' va' s' = read_byte d' va' s"
    if A: "d' \<in> D" "va' < UTOP" "\<forall>i < Suc (length bs). cell s d' va' \<noteq> cell s d (va + of_nat i)" for d' va'
  proof -
    have "cell s1 d' va' \<noteq> cell s1 d (va + 1 + of_nat i)" if "i < length bs" for i
      using A(3) [rule_format, of "Suc i"] that c2 [OF that] c1 [OF A(1,2)] by simp
    then have "read_byte d' va' s' = read_byte d' va' s1" using IH A(1,2) by blast
    also have "\<dots> = read_byte d' va' s" using w(4) [OF A(1,2)] A(3) by fastforce
    finally show ?thesis .
  qed
  moreover have "read_byte d (va + of_nat i) s' = Some ((b # bs) ! i)"
    if inj: "inj_on (\<lambda>i. cell s d (va + of_nat i)) {..<Suc (length bs)}" and i: "i < Suc (length bs)" for i
  proof (cases i)
    case 0
    have "cell s1 d va \<noteq> cell s1 d (va + 1 + of_nat j)" if "j < length bs" for j
      using inj_onD [OF inj, of 0 "Suc j"] that c2 [OF that] c1 [OF Cons.prems(2) va(1)] by auto
    then have "read_byte d va s' = read_byte d va s1" using IH Cons.prems(2) va(1) by blast
    then show ?thesis using w(3) 0 by simp
  next
    case (Suc j)
    have "inj_on (\<lambda>i. cell s1 d (va + 1 + of_nat i)) {..<length bs}"
    proof (rule inj_onI)
      fix x y assume A: "x \<in> {..<length bs}" "y \<in> {..<length bs}" "cell s1 d (va + 1 + of_nat x) = cell s1 d (va + 1 + of_nat y)"
      then have "cell s d (va + of_nat (Suc x)) = cell s d (va + of_nat (Suc y))" using c2 by simp
      with inj A(1,2) have "Suc x = Suc y" by (intro inj_onD [OF inj]) auto
      then show "x = y" by simp
    qed
    then show ?thesis using IH i Suc by (simp add: add.assoc)
  qed
  ultimately show ?case using IH by simp
qed

lemma write_bytes_total:
  assumes "vm_inv s K D xs ex" "d \<in> D" "below va (length bs)" "\<forall>i < length bs. translate d PTE_W (va + of_nat i) s \<noteq> None"
  shows "\<exists>s'. write_bytes d va bs s = Some ((), s')"
  using assms
proof (induction bs arbitrary: s va)
  case Nil
  then show ?case by auto
next
  case (Cons b bs)
  from Cons.prems(3) have va: "va < UTOP" "below (va + 1) (length bs)" using below_Suc by auto
  obtain s1 where s1: "write_byte d va b s = Some ((), s1)"
    using write_byte_total [of d va s b] Cons.prems(4) by fastforce
  note w = write_byte_ok [OF Cons.prems(1,2) va(1) s1]
  have "translate d PTE_W (va + 1 + of_nat i) s1 \<noteq> None" if "i < length bs" for i
  proof -
    have "va + 1 + of_nat i < UTOP" using below_less(1) [OF va(2)] that by simp
    from data_kept_translate [OF Cons.prems(1) w(1,2) Cons.prems(2) this]
    show ?thesis using Cons.prems(4) that by (auto simp: add.assoc dest: spec [of _ "Suc i"])
  qed
  from Cons.IH [OF w(1) Cons.prems(2) va(2)] this show ?case using s1 by simp
qed

text \<open>Within one page no two addresses share a cell.\<close>

lemma page_cells:
  assumes "unat va mod 4096 + n \<le> 4096" "below va n"
  shows "inj_on (\<lambda>i. cell s d (va + of_nat i)) {..<n}"
proof (rule inj_onI)
  fix i j assume A: "i \<in> {..<n}" "j \<in> {..<n}" "cell s d (va + of_nat i) = cell s d (va + of_nat j)"
  have "(unat va + i) mod 4096 = (unat va + j) mod 4096"
    using A below_less(2) [OF assms(2)] by (simp add: cell_def PGOFF_nat)
  moreover have "(unat va + k) mod 4096 = unat va mod 4096 + k" if "k < n" for k
  proof -
    have "(unat va + k) mod 4096 = (unat va mod 4096 + k) mod 4096" by (simp add: mod_simps)
    then show ?thesis using assms(1) that by simp
  qed
  ultimately show "i = j" using A by simp
qed


subsection \<open>Words\<close>

fun write_words :: "nat \<Rightarrow> u32 \<Rightarrow> u32 list \<Rightarrow> kstate \<Rightarrow> unit kres" where
  "write_words d va [] s = Some ((), s)"
| "write_words d va (w # ws) s = do { (_, s) \<leftarrow> write_word d va w s; write_words d (va + 4) ws s }"

lemma length_word_bytes [simp]: "length (word_bytes w) = 4" by (simp add: word_bytes_def)

lemma write_bytes_append:
  "write_bytes d va (xs @ ys) s = do { (_, s) \<leftarrow> write_bytes d va xs s; write_bytes d (va + of_nat (length xs)) ys s }"
proof (induction xs arbitrary: va s)
  case (Cons x xs)
  show ?case by (cases "write_byte d va x s") (auto simp: Cons add.assoc)
qed simp

lemma write_words_bytes: "write_words d va ws s = write_bytes d va (concat (map word_bytes ws)) s"
proof (induction ws arbitrary: va s)
  case (Cons w ws)
  show ?case by (simp add: write_bytes_append write_word_def Cons split: Option.bind_split)
qed simp

lemma length_concat_words [simp]: "length (concat (map word_bytes ws)) = 4 * length ws"
  by (induction ws) auto

lemma nth_concat_words: "i < length ws \<Longrightarrow> k < 4 \<Longrightarrow> concat (map word_bytes ws) ! (4 * i + k) = word_bytes (ws ! i) ! k"
proof (induction ws arbitrary: i)
  case (Cons w ws)
  show ?case
  proof (cases i)
    case 0
    then show ?thesis using Cons.prems(2) by (simp add: nth_append)
  next
    case (Suc j)
    then show ?thesis using Cons by (simp add: nth_append)
  qed
qed simp

lemma read_bytes_nth:
  "\<forall>i < n. read_byte d (va + of_nat i) s = Some (f i) \<Longrightarrow> read_bytes d va n s = Some (map f [0..<n])"
proof (induction n arbitrary: va f)
  case (Suc n)
  have "read_bytes d (va + 1) n s = Some (map (f \<circ> Suc) [0..<n])"
    by (rule Suc.IH) (use Suc.prems in \<open>auto simp: add.assoc dest: spec [of _ "Suc _"]\<close>)
  moreover have "read_byte d va s = Some (f 0)" using Suc.prems by force
  moreover have "map f [0..<Suc n] = f 0 # map (f \<circ> Suc) [0..<n]" by (simp add: upt_conv_Cons map_Suc_upt [symmetric] del: upt_Suc)
  ultimately show ?case by simp
qed simp

text \<open>Words written within a page read back.\<close>

lemma write_words_ok:
  assumes inv: "vm_inv s K D xs ex" and d: "d \<in> D" and pg: "unat va mod 4096 + 4 * length ws \<le> 4096" "below va (4 * length ws)"
    and ok: "\<forall>i < 4 * length ws. translate d PTE_W (va + of_nat i) s \<noteq> None"
  shows "\<exists>s'. write_words d va ws s = Some ((), s') \<and> vm_inv s' K D xs ex \<and> data_kept K D s s' \<and>
    (\<forall>i < length ws. read_word d (va + of_nat (4 * i)) s' = Some (ws ! i))"
proof -
  let ?bs = "concat (map word_bytes ws)"
  obtain s' where s': "write_bytes d va ?bs s = Some ((), s')"
    using write_bytes_total [OF inv d, of va ?bs] pg ok by auto
  have b: "below va (length ?bs)" using pg by simp
  note w = write_bytes_ok [OF inv d b s']
  have rd: "\<forall>i < 4 * length ws. read_byte d (va + of_nat i) s' = Some (?bs ! i)"
    using w page_cells [OF pg(1,2)] by simp
  have "read_word d (va + of_nat (4 * i)) s' = Some (ws ! i)" if "i < length ws" for i
  proof -
    have "read_byte d (va + of_nat (4 * i) + of_nat k) s' = Some (word_bytes (ws ! i) ! k)" if "k < 4" for k
      using rd [rule_format, of "4 * i + k"] nth_concat_words [OF \<open>i < length ws\<close> that] \<open>i < length ws\<close> that
      by (simp add: add.assoc)
    then have "read_bytes d (va + of_nat (4 * i)) 4 s' = Some (map ((!) (word_bytes (ws ! i))) [0..<4])"
      by (intro read_bytes_nth) simp
    moreover have "map ((!) (word_bytes (ws ! i))) [0..<4] = word_bytes (ws ! i)"
      using map_nth [of "word_bytes (ws ! i)"] by simp
    ultimately show ?thesis by (simp add: read_word_def word_of_bytes)
  qed
  then show ?thesis using s' w by (intro exI [of _ s']) (simp add: write_words_bytes)
qed

text \<open>Whatever the outcome, nothing but data changes.\<close>

lemma write_words_kept:
  "vm_inv s K D xs ex \<Longrightarrow> d \<in> D \<Longrightarrow> below va (4 * length ws) \<Longrightarrow> write_words d va ws s = Some (u, s') \<Longrightarrow>
     vm_inv s' K D xs ex \<and> data_kept K D s s'"
  using write_bytes_ok [of s K D xs ex d va "concat (map word_bytes ws)" u s'] by (simp add: write_words_bytes)


lemma env_inv_data:
  assumes inv: "env_inv s K xs es" and k: "data_kept K (dirs s es) s s'" and vm: "vm_inv s' K (dirs s es) xs (\<lambda>_. 0)"
  shows "env_inv s' K xs es"
proof -
  have s': "s' = s\<lparr>phys := phys s'\<rparr>" using k by (simp add: data_kept_def)
  have sel: "envs s' = envs s" "kern_pgdir s' = kern_pgdir s" "npages s' = npages s" "env_free_list s' = env_free_list s"
    by (subst s', simp)+
  have d: "dirs s' es = dirs s es" by (simp add: dirs_def sel)
  have "kern_pgdir s \<in> K" using inv by (simp add: env_inv_def kern_ok_def)
  then have "phys s' (kern_pgdir s) = phys s (kern_pgdir s)" using k by (simp add: data_kept_def)
  then show ?thesis
    using inv vm k unfolding env_inv_def d
    by (simp add: lean_def data_kept_def kern_ok_def env_free_ok_def env_dirs_ok_def sel)
qed

end
