(* ===== verification/Trap.thy ===== *)
theory Trap
  imports SyscallSafe UserBytes
begin

text \<open>
  Traps, \<^verbatim>\<open>kern/trap.c\<close>: the interrupt descriptor table, printing a trap frame, page faults of user
  programs, and the way from the processor's trap to the handler and back to some environment.
\<close>

subsection \<open>The descriptor tables (inc/mmu.h)\<close>

record Gatedesc =
  gd_off_15_0 :: u16
  gd_sel :: u16
  gd_args :: u8
  gd_rsv1 :: u8
  gd_type :: u8
  gd_s :: u8
  gd_dpl :: u8
  gd_p :: u8
  gd_off_31_16 :: u16

definition zero_gate :: Gatedesc where
  "zero_gate = \<lparr>gd_off_15_0 = 0, gd_sel = 0, gd_args = 0, gd_rsv1 = 0, gd_type = 0, gd_s = 0, gd_dpl = 0, gd_p = 0,
     gd_off_31_16 = 0\<rparr>"

definition SETGATE :: "bool \<Rightarrow> u16 \<Rightarrow> u32 \<Rightarrow> u8 \<Rightarrow> Gatedesc" where
  "SETGATE istrap sel off dpl = \<lparr>gd_off_15_0 = ucast (off AND 0xFFFF), gd_sel = sel, gd_args = 0, gd_rsv1 = 0,
     gd_type = (if istrap then 0xF else 0xE), gd_s = 0, gd_dpl = dpl, gd_p = 1, gd_off_31_16 = ucast (drop_bit 16 off)\<rparr>"

text \<open>The trap numbers of \<^verbatim>\<open>inc/trap.h\<close>.\<close>

definition T_BRKPT :: u32 where "T_BRKPT = 3"
definition T_PGFLT :: u32 where "T_PGFLT = 14"
definition T_SYSCALL :: u32 where "T_SYSCALL = 48"
definition IRQ_OFFSET :: u32 where "IRQ_OFFSET = 32"
definition IRQ_TIMER :: u32 where "IRQ_TIMER = 0"
definition IRQ_KBD :: u32 where "IRQ_KBD = 1"
definition IRQ_SERIAL :: u32 where "IRQ_SERIAL = 4"
definition IRQ_SPURIOUS :: u32 where "IRQ_SPURIOUS = 7"

lemmas trap_numbers = T_BRKPT_def T_PGFLT_def T_SYSCALL_def IRQ_OFFSET_def IRQ_TIMER_def IRQ_KBD_def IRQ_SERIAL_def IRQ_SPURIOUS_def

text \<open>\<open>entry_of\<close> gives the addresses of the entry points of \<^verbatim>\<open>kern/trapentry.S\<close>, by trap number.\<close>

definition trap_gates :: "(nat \<times> u8) list" where
  "trap_gates = [(0, 0), (1, 0), (2, 0), (3, 3), (4, 0), (5, 0), (6, 0), (7, 0), (8, 0), (10, 0), (11, 0), (12, 0), (13, 0),
     (14, 0), (16, 0), (17, 0), (18, 0), (19, 0), (48, 3), (32, 3), (33, 3), (36, 3)]"

definition trap_init :: "(nat \<Rightarrow> u32) \<Rightarrow> (nat \<Rightarrow> Gatedesc) \<Rightarrow> nat \<Rightarrow> Gatedesc" where
  "trap_init entry_of idt = fold (\<lambda>(n, dpl) idt. idt(n := SETGATE False GD_KT (entry_of n) dpl)) trap_gates idt"

text \<open>Segment descriptors, and the descriptor table of \<^verbatim>\<open>kern/env.c\<close>.\<close>

record Segdesc =
  sd_lim_15_0 :: u16
  sd_base_15_0 :: u16
  sd_base_23_16 :: u8
  sd_type :: u8
  sd_s :: u8
  sd_dpl :: u8
  sd_p :: u8
  sd_lim_19_16 :: u8
  sd_avl :: u8
  sd_rsv1 :: u8
  sd_db :: u8
  sd_g :: u8
  sd_base_31_24 :: u8

definition SEG_NULL :: Segdesc where
  "SEG_NULL = \<lparr>sd_lim_15_0 = 0, sd_base_15_0 = 0, sd_base_23_16 = 0, sd_type = 0, sd_s = 0, sd_dpl = 0, sd_p = 0,
     sd_lim_19_16 = 0, sd_avl = 0, sd_rsv1 = 0, sd_db = 0, sd_g = 0, sd_base_31_24 = 0\<rparr>"

definition SEG :: "u8 \<Rightarrow> u32 \<Rightarrow> u32 \<Rightarrow> u8 \<Rightarrow> Segdesc" where
  "SEG t base lim dpl = \<lparr>sd_lim_15_0 = ucast (drop_bit 12 lim AND 0xFFFF), sd_base_15_0 = ucast (base AND 0xFFFF),
     sd_base_23_16 = ucast (drop_bit 16 base AND 0xFF), sd_type = t, sd_s = 1, sd_dpl = dpl, sd_p = 1,
     sd_lim_19_16 = ucast (drop_bit 28 lim), sd_avl = 0, sd_rsv1 = 0, sd_db = 1, sd_g = 1,
     sd_base_31_24 = ucast (drop_bit 24 base)\<rparr>"

definition SEG16 :: "u8 \<Rightarrow> u32 \<Rightarrow> u32 \<Rightarrow> u8 \<Rightarrow> Segdesc" where
  "SEG16 t base lim dpl = \<lparr>sd_lim_15_0 = ucast (lim AND 0xFFFF), sd_base_15_0 = ucast (base AND 0xFFFF),
     sd_base_23_16 = ucast (drop_bit 16 base AND 0xFF), sd_type = t, sd_s = 1, sd_dpl = dpl, sd_p = 1,
     sd_lim_19_16 = ucast (drop_bit 16 lim) AND 0xF, sd_avl = 0, sd_rsv1 = 0, sd_db = 1, sd_g = 0,
     sd_base_31_24 = ucast (drop_bit 24 base)\<rparr>"

definition STA_X :: u8 where "STA_X = 0x8"
definition STA_R :: u8 where "STA_R = 0x2"
definition STA_W :: u8 where "STA_W = 0x2"
definition STS_T32A :: u8 where "STS_T32A = 0x9"
definition GD_TSS0 :: u16 where "GD_TSS0 = 0x28"

definition gdt :: "Segdesc list" where
  "gdt = [SEG_NULL, SEG (STA_X OR STA_R) 0 0xFFFFFFFF 0, SEG STA_W 0 0xFFFFFFFF 0,
     SEG (STA_X OR STA_R) 0 0xFFFFFFFF 3, SEG STA_W 0 0xFFFFFFFF 3] @ replicate NCPU SEG_NULL"

text \<open>The task state segment, without its padding; \<open>ts_t\<close> and \<open>ts_iomb\<close> are its last fields.\<close>

record Taskstate =
  ts_link :: u32
  ts_esp0 :: u32
  ts_ss0 :: u16
  ts_esp1 :: u32
  ts_ss1 :: u16
  ts_esp2 :: u32
  ts_ss2 :: u16
  ts_cr3 :: u32
  ts_eip :: u32
  ts_eflags :: u32
  ts_eax :: u32
  ts_ecx :: u32
  ts_edx :: u32
  ts_ebx :: u32
  ts_esp :: u32
  ts_ebp :: u32
  ts_esi :: u32
  ts_edi :: u32
  ts_es :: u16
  ts_cs :: u16
  ts_ss :: u16
  ts_ds :: u16
  ts_fs :: u16
  ts_gs :: u16
  ts_ldt :: u16
  ts_t :: u16
  ts_iomb :: u16

definition sizeof_Taskstate :: u16 where "sizeof_Taskstate = 104"

text \<open>The task segment of CPU \<open>id\<close>, whose \<^verbatim>\<open>cpu_ts\<close> is \<open>ts\<close> at address \<open>addr\<close>. The results are the task
  segment, the descriptor table and the selector loaded by \<^verbatim>\<open>ltr\<close>; an index outside the table is \<open>None\<close>.\<close>

definition trap_init_percpu :: "nat \<Rightarrow> u32 \<Rightarrow> Taskstate \<Rightarrow> Segdesc list \<Rightarrow> (Taskstate \<times> Segdesc list \<times> u16) option" where
  "trap_init_percpu cid addr ts tab =
     (let idx = drop_bit 3 GD_TSS0 + of_nat cid :: u16;
          seg = push_bit 3 idx;
          ts = ts\<lparr>ts_esp0 := KSTACKTOP - of_nat cid * (KSTKSIZE + KSTKGAP), ts_ss0 := GD_KD, ts_iomb := sizeof_Taskstate\<rparr>
      in if unat idx < length tab
         then Some (ts, tab[unat idx := (SEG16 STS_T32A addr (ucast sizeof_Taskstate - 1) 0)\<lparr>sd_s := 0\<rparr>], seg)
         else None)"

subsection \<open>Printing a trap frame\<close>

definition excnames :: "string list" where
  "excnames = [''Divide error'', ''Debug'', ''Non-Maskable Interrupt'', ''Breakpoint'', ''Overflow'', ''BOUND Range Exceeded'',
     ''Invalid Opcode'', ''Device Not Available'', ''Double Fault'', ''Coprocessor Segment Overrun'', ''Invalid TSS'',
     ''Segment Not Present'', ''Stack Fault'', ''General Protection'', ''Page Fault'', ''(unknown trap)'',
     ''x87 FPU Floating-Point Error'', ''Alignment Check'', ''Machine-Check'', ''SIMD Floating-Point Exception'']"

text \<open>The first comparison is unsigned, the others are signed.\<close>

definition trapname :: "u32 \<Rightarrow> string" where
  "trapname trapno =
     (if trapno < of_nat (length excnames) then excnames ! unat trapno
      else if trapno = T_SYSCALL then ''System call''
      else if sint trapno \<ge> sint IRQ_OFFSET \<and> sint trapno < sint (IRQ_OFFSET + 16) then ''Hardware Interrupt''
      else ''(unknown trap)'')"

definition ln :: "string \<Rightarrow> string" where "ln fmt = fmt @ [CHR 0x0A]"

definition print_regs :: "PushRegs \<Rightarrow> kstate \<Rightarrow> unit kres" where
  "print_regs regs s = do {
     (_, s) \<leftarrow> cprintf (ln ''  edi  0x%08x'') [VInt (reg_edi regs)] s;
     (_, s) \<leftarrow> cprintf (ln ''  esi  0x%08x'') [VInt (reg_esi regs)] s;
     (_, s) \<leftarrow> cprintf (ln ''  ebp  0x%08x'') [VInt (reg_ebp regs)] s;
     (_, s) \<leftarrow> cprintf (ln ''  oesp 0x%08x'') [VInt (reg_oesp regs)] s;
     (_, s) \<leftarrow> cprintf (ln ''  ebx  0x%08x'') [VInt (reg_ebx regs)] s;
     (_, s) \<leftarrow> cprintf (ln ''  edx  0x%08x'') [VInt (reg_edx regs)] s;
     (_, s) \<leftarrow> cprintf (ln ''  ecx  0x%08x'') [VInt (reg_ecx regs)] s;
     cprintf (ln ''  eax  0x%08x'') [VInt (reg_eax regs)] s
   }"

text \<open>\<open>addr\<close> is the address of the frame, \<open>latest\<close> tells whether it is the one of the last trap,
  \<open>cr2\<close> the faulting address.\<close>

definition print_trapframe :: "nat \<Rightarrow> u32 \<Rightarrow> bool \<Rightarrow> u32 \<Rightarrow> Trapframe \<Rightarrow> kstate \<Rightarrow> unit kres" where
  "print_trapframe c addr latest cr2 tf s = do {
     (_, s) \<leftarrow> cprintf (ln ''TRAP frame at %p from CPU %d'') [VInt addr, VInt (of_nat c)] s;
     (_, s) \<leftarrow> print_regs (tf_regs tf) s;
     (_, s) \<leftarrow> cprintf (ln ''  es   0x----%04x'') [VInt (ucast (tf_es tf))] s;
     (_, s) \<leftarrow> cprintf (ln ''  ds   0x----%04x'') [VInt (ucast (tf_ds tf))] s;
     (_, s) \<leftarrow> cprintf (ln ''  trap 0x%08x %s'') [VInt (tf_trapno tf), VStr (Some (trapname (tf_trapno tf)))] s;
     (_, s) \<leftarrow> (if latest \<and> tf_trapno tf = T_PGFLT then cprintf (ln ''  cr2  0x%08x'') [VInt cr2] s else Some ((), s));
     (_, s) \<leftarrow> cprintf ''  err  0x%08x'' [VInt (tf_err tf)] s;
     (_, s) \<leftarrow> (if tf_trapno tf = T_PGFLT
        then cprintf (ln '' [%s, %s, %s]'')
          [VStr (Some (if tf_err tf AND 4 \<noteq> 0 then ''user'' else ''kernel'')),
           VStr (Some (if tf_err tf AND 2 \<noteq> 0 then ''write'' else ''read'')),
           VStr (Some (if tf_err tf AND 1 \<noteq> 0 then ''protection'' else ''not-present''))] s
        else cprintf (ln '''') [] s);
     (_, s) \<leftarrow> cprintf (ln ''  eip  0x%08x'') [VInt (tf_eip tf)] s;
     (_, s) \<leftarrow> cprintf (ln ''  cs   0x----%04x'') [VInt (ucast (tf_cs tf))] s;
     (_, s) \<leftarrow> cprintf (ln ''  flag 0x%08x'') [VInt (tf_eflags tf)] s;
     if tf_cs tf AND 3 \<noteq> 0 then do {
       (_, s) \<leftarrow> cprintf (ln ''  esp  0x%08x'') [VInt (tf_esp tf)] s;
       cprintf (ln ''  ss   0x----%04x'') [VInt (ucast (tf_ss tf))] s
     }
     else Some ((), s)
   }"


subsection \<open>Page faults\<close>

text \<open>A trap frame is on a kernel stack, or the saved frame of an environment.\<close>

datatype tfptr = StackTf Trapframe | EnvTf nat

definition get_tf :: "tfptr \<Rightarrow> kstate \<Rightarrow> Trapframe" where
  "get_tf p s = (case p of StackTf t \<Rightarrow> t | EnvTf e \<Rightarrow> env_tf (envs s e))"

definition set_tf :: "tfptr \<Rightarrow> (Trapframe \<Rightarrow> Trapframe) \<Rightarrow> kstate \<Rightarrow> kstate" where
  "set_tf p f s = (case p of StackTf t \<Rightarrow> s | EnvTf e \<Rightarrow> upd_env e (\<lambda>x. x\<lparr>env_tf := f (env_tf x)\<rparr>) s)"

record UTrapframe =
  utf_fault_va :: u32
  utf_err :: u32
  utf_regs :: PushRegs
  utf_eip :: u32
  utf_eflags :: u32
  utf_esp :: u32

definition sizeof_UTrapframe :: u32 where "sizeof_UTrapframe = 52"

definition utf_words :: "UTrapframe \<Rightarrow> u32 list" where
  "utf_words u = [utf_fault_va u, utf_err u, reg_edi (utf_regs u), reg_esi (utf_regs u), reg_ebp (utf_regs u),
     reg_oesp (utf_regs u), reg_ebx (utf_regs u), reg_edx (utf_regs u), reg_ecx (utf_regs u), reg_eax (utf_regs u),
     utf_eip u, utf_eflags u, utf_esp u]"

text \<open>Where the frame for the user handler goes, and the frame.\<close>

definition fault_top :: "u32 \<Rightarrow> u32" where
  "fault_top esp = (if esp < UXSTACKTOP \<and> esp \<ge> UXSTACKTOP - PGSIZE then esp else UXSTACKTOP)"

definition fault_frame :: "u32 \<Rightarrow> Trapframe \<Rightarrow> UTrapframe" where
  "fault_frame fault_va tf = \<lparr>utf_fault_va = fault_va, utf_err = tf_err tf, utf_regs = tf_regs tf,
     utf_eip = tf_eip tf, utf_eflags = tf_eflags tf, utf_esp = tf_esp tf\<rparr>"

definition page_fault_handler :: "nat \<Rightarrow> u32 \<Rightarrow> u32 \<Rightarrow> tfptr \<Rightarrow> kstate \<Rightarrow> unit ctl kres" where
  "page_fault_handler c addr fault_va p s =
     (if tf_cs (get_tf p s) AND 3 = 0 then None
      else do {
        cur \<leftarrow> curenv c s;
        if env_pgfault_upcall (envs s cur) \<noteq> 0 then
          let sz = sizeof_UTrapframe + 4; top = fault_top (tf_esp (get_tf p s)) in
          ctl_bind (user_mem_assert c cur (top - sz) sz (PTE_U OR PTE_P OR PTE_W) s) (\<lambda>_ s. do {
            let u = top - sz;
            d \<leftarrow> env_pgdir (envs s cur);
            (_, s) \<leftarrow> write_words d u (utf_words (fault_frame fault_va (get_tf p s))) s;
            let upcall = env_pgfault_upcall (envs s cur);
            let s = set_tf p (\<lambda>tf. tf\<lparr>tf_eip := upcall, tf_esp := u\<rparr>) s;
            env_run c cur s
          })
        else do {
          (_, s) \<leftarrow> cprintf (ln ''[%08x] user fault va %08x ip %08x'')
            [VInt (env_id (envs s cur)), VInt fault_va, VInt (tf_eip (get_tf p s))] s;
          (_, s) \<leftarrow> print_trapframe c addr True fault_va (get_tf p s) s;
          env_destroy c cur s
        }
      })"

subsection \<open>Dispatch\<close>

text \<open>\<open>addr\<close> is the address of the frame \<open>p\<close>, \<open>cr2\<close> the value of that register. Acknowledging the
  interrupt (\<^verbatim>\<open>lapic_eoi\<close>) has no effect on the state of the model. The breakpoint trap enters
  the monitor, whose commands never make it return.\<close>

definition trap_dispatch :: "nat \<Rightarrow> u32 \<Rightarrow> u32 \<Rightarrow> tfptr \<Rightarrow> kstate \<Rightarrow> unit ctl kres" where
  "trap_dispatch c addr cr2 p s =
     (let tf = get_tf p s; n = tf_trapno tf; r = tf_regs tf in
      if n = T_BRKPT then Some (Monitor, s)
      else if n = T_PGFLT then page_fault_handler c addr cr2 p s
      else if n = T_SYSCALL then
        ctl_bind (syscall c (reg_eax r) (reg_edx r) (reg_ecx r) (reg_ebx r) (reg_edi r) (reg_esi r) s) (\<lambda>v s.
          Some (Ret (), set_tf p (\<lambda>tf. tf\<lparr>tf_regs := (tf_regs tf)\<lparr>reg_eax := v\<rparr>\<rparr>) s))
      else if n = IRQ_OFFSET + IRQ_TIMER then sched_yield c s
      else if n = IRQ_OFFSET + IRQ_SPURIOUS then do {
        (_, s) \<leftarrow> cprintf (ln ''Spurious interrupt on irq 7'') [] s;
        (_, s) \<leftarrow> print_trapframe c addr True cr2 tf s;
        Some (Ret (), s)
      }
      else if n = IRQ_OFFSET + IRQ_KBD then do { k \<leftarrow> kbd_intr (kcons s); Some (Ret (), s\<lparr>kcons := k\<rparr>) }
      else if n = IRQ_OFFSET + IRQ_SERIAL then do { k \<leftarrow> serial_intr (kcons s); Some (Ret (), s\<lparr>kcons := k\<rparr>) }
      else do {
        (_, s) \<leftarrow> print_trapframe c addr True cr2 tf s;
        if tf_cs tf = GD_KT then None
        else do { cur \<leftarrow> curenv c s; env_destroy c cur s }
      })"

text \<open>\<open>ifl\<close> is the interrupt flag when the handler starts, \<open>addr\<close> the address of a frame.\<close>

definition trap_return :: "nat \<Rightarrow> unit ctl kres \<Rightarrow> unit ctl kres" where
  "trap_return c m = ctl_bind m (\<lambda>_ s. case curenv c s of
     Some cur \<Rightarrow> if env_status (envs s cur) = ENV_RUNNING then env_run c cur s else sched_yield c s
   | None \<Rightarrow> sched_yield c s)"

definition trap :: "nat \<Rightarrow> (tfptr \<Rightarrow> u32) \<Rightarrow> u32 \<Rightarrow> bool \<Rightarrow> Trapframe \<Rightarrow> kstate \<Rightarrow> unit ctl kres" where
  "trap c addr cr2 ifl tf s = do {
     let halted = cpu_status (cpus s c) = CPU_HALTED;
     let s = upd_cpu c (\<lambda>x. x\<lparr>cpu_status := CPU_STARTED\<rparr>) s;
     (_, s) \<leftarrow> (if halted then lock_kernel c s else Some ((), s));
     if ifl then None
     else if tf_cs tf AND 3 = 3 then do {
       cur \<leftarrow> curenv c s;
       (_, s) \<leftarrow> lock_kernel c s;
       if env_status (envs s cur) = ENV_DYING then do {
         (_, s) \<leftarrow> env_free c cur s;
         sched_yield c (upd_cpu c (\<lambda>x. x\<lparr>cpu_env := None\<rparr>) s)
       }
       else do {
         let s = upd_env cur (\<lambda>x. x\<lparr>env_tf := tf\<rparr>) s;
         trap_return c (trap_dispatch c (addr (EnvTf cur)) cr2 (EnvTf cur) s)
       }
     }
     else trap_return c (trap_dispatch c (addr (StackTf tf)) cr2 (StackTf tf) s)
   }"


subsection \<open>A trap ends in user mode\<close>

lemma sched_yield_not_Ret:
  assumes "klock s = Some c" "env_inv s K xs es" "kernel_mode c s"
  shows "sched_yield c s \<noteq> Some (Ret a :: 'b ctl, s')"
proof
  assume *: "sched_yield c s = Some (Ret a :: 'b ctl, s')"
  from sched_yield_full [OF assms, where 'a = 'b] show False unfolding * by auto
qed

lemma env_run_current:
  assumes co: "consistent c (Ret a) s" and cur: "curenv c s = Some cur" "env_status (envs s cur) \<noteq> ENV_FREE"
  shows "\<exists>d. env_pgdir (envs s cur) = Some d \<and> (env_run c cur s :: 'b ctl kres) = Some (Run cur, switch_to c cur d s) \<and>
    consistent c (Run cur :: 'b ctl) (switch_to c cur d s)"
proof -
  obtain K xs es where A: "klock s = Some c" "env_inv s K xs es" "kernel_mode c s" using co by (auto simp: consistent_Ret)
  have n: "cur < NENV" using A(3) cur(1) by (simp add: kernel_mode_def)
  obtain d where d: "env_pgdir (envs s cur) = Some d" using env_inv_used [OF A(2) n cur(2)] by metis
  have "user_mode (switch_to c cur d s)" by (rule switch_to_user_mode [OF A(3) n]) (use cur in simp)
  moreover have "env_inv (switch_to c cur d s) K xs es" by (rule switch_to_inv [OF A(2) n cur(2)])
  ultimately have "consistent c (Run cur :: 'b ctl) (switch_to c cur d s)" by (auto simp: consistent_def)
  then show ?thesis using d env_run_eq [OF A(1) d] by blast
qed

lemma trap_return_safe:
  assumes m: "safe c m"
  shows "safe c (trap_return c m)" "trap_return c m \<noteq> Some (Ret a, s')"
proof -
  let ?f = "\<lambda>s. case curenv c s of
     Some cur \<Rightarrow> if env_status (envs s cur) = ENV_RUNNING then env_run c cur s else sched_yield c s
   | None \<Rightarrow> (sched_yield c s :: unit ctl kres)"
  have f: "safe c (?f s) \<and> ?f s \<noteq> Some (Ret a, s')" if co: "consistent c (Ret ()) s" for s
  proof -
    have sy: "safe c (sched_yield c s :: unit ctl kres)" "sched_yield c s \<noteq> Some (Ret a, s')"
      using sched_yield_safe [OF co, where 'b = unit] sched_yield_not_Ret [of s c _ _ _ a s'] co
      by (auto simp: consistent_Ret)
    show ?thesis
    proof (cases "curenv c s")
      case (Some cur)
      show ?thesis
      proof (cases "env_status (envs s cur) = ENV_RUNNING")
        case True
        then obtain d where "(env_run c cur s :: unit ctl kres) = Some (Run cur, switch_to c cur d s)" "consistent c (Run cur :: unit ctl) (switch_to c cur d s)"
          using env_run_current [OF co Some, where 'b = unit] by auto
        then show ?thesis using Some True by simp
      qed (use Some sy in simp)
    qed (use sy in simp)
  qed
  show "safe c (trap_return c m)" unfolding trap_return_def by (rule safe_bind [OF m], rule f [THEN conjunct1]) simp
  show "trap_return c m \<noteq> Some (Ret a, s')"
  proof (cases m)
    case (Some x)
    then obtain r s where x: "m = Some (r, s)" by (cases x) auto
    with m have co: "consistent c r s" by simp
    show ?thesis
    proof (cases r)
      case (Ret u)
      then show ?thesis using x co f [of s] by (simp add: trap_return_def)
    qed (use x in \<open>simp_all add: trap_return_def\<close>)
  qed (simp add: trap_return_def)
qed

lemma serving_addr: "serving c cur s K xs es \<Longrightarrow> serving c cur (s\<lparr>user_mem_check_addr := a\<rparr>) K xs es"
proof -
  assume sv: "serving c cur s K xs es"
  have "env_inv (s\<lparr>user_mem_check_addr := a\<rparr>) K xs es" by (rule env_inv_cong [OF servingD(2) [OF sv]]) simp_all
  then show ?thesis using sv by (simp add: serving_def kernel_mode_def one_cpu_def on_cpu_ok_def run_owned_def curenv_def)
qed

lemma env_destroy_current:
  assumes sv: "serving c cur s K xs es" shows "env_destroy c cur s \<noteq> Some (Ret u, s')"
proof -
  have e: "cur < NENV" "env_status (envs s cur) \<noteq> ENV_FREE" using servingD(5,6) [OF sv] by auto
  obtain s1 xs' where "klock s1 = Some c" "env_inv s1 K xs' (cur # es)" "kernel_mode c s1" "env_destroy c cur s = sched_yield c s1"
    using env_destroy_ok [OF servingD(1-3) [OF sv] e] servingD(4,5) [OF sv] by auto
  then show ?thesis using sched_yield_not_Ret by metis
qed

text \<open>An assertion about the current environment that returns has changed nothing but the address it noted.\<close>

lemma user_mem_assert_Ret:
  assumes sv: "serving c cur s K xs es" and r: "user_mem_assert c cur va len perm s = Some (Ret u, s')"
  shows "\<exists>a. s' = s\<lparr>user_mem_check_addr := a\<rparr>"
proof -
  obtain x a where x: "user_mem_check cur va len (perm OR PTE_U) s = Some (x, s\<lparr>user_mem_check_addr := a\<rparr>)"
    using r user_mem_check_frame by (fastforce simp: user_mem_assert_def split: Option.bind_splits)
  show ?thesis
  proof (cases x)
    case (Inr y)
    then show ?thesis using r x by (auto simp: user_mem_assert_def)
  next
    case (Inl er)
    let ?t = "s\<lparr>user_mem_check_addr := a\<rparr>"
    obtain k where "env_destroy c cur (?t\<lparr>kcons := k\<rparr>) = Some (Ret u, s')"
      using r x Inl by (auto simp: user_mem_assert_def split: Option.bind_splits dest!: cprintf_kcons)
    moreover have "serving c cur (?t\<lparr>kcons := k\<rparr>) K xs es" for k
    proof -
      have "env_inv (?t\<lparr>kcons := k\<rparr>) K xs es" by (rule env_inv_cong [OF servingD(2) [OF sv]]) simp_all
      then show ?thesis using sv by (simp add: serving_def kernel_mode_def one_cpu_def on_cpu_ok_def run_owned_def curenv_def)
    qed
    ultimately show ?thesis using env_destroy_current by blast
  qed
qed


subsection \<open>Printing a frame only prints\<close>

definition only_prints :: "(kstate \<Rightarrow> unit kres) \<Rightarrow> bool" where
  "only_prints m \<longleftrightarrow> (\<forall>s. \<exists>k. m s = Some ((), s\<lparr>kcons := k\<rparr>))"

lemma only_prints_cprintf: "ftypes fmt = ts \<Longrightarrow> list_all2 has_type ap ts \<Longrightarrow> only_prints (cprintf fmt ap)"
  using cprintf_typed by (auto simp: only_prints_def)

lemma only_prints_seq: "only_prints m \<Longrightarrow> only_prints n \<Longrightarrow> only_prints (\<lambda>s. m s \<bind> (\<lambda>(_, s). n s))"
  unfolding only_prints_def
proof
  fix s assume A: "\<forall>s. \<exists>k. m s = Some ((), s\<lparr>kcons := k\<rparr>)" "\<forall>s. \<exists>k. n s = Some ((), s\<lparr>kcons := k\<rparr>)"
  then obtain k k' where "m s = Some ((), s\<lparr>kcons := k\<rparr>)" "n (s\<lparr>kcons := k\<rparr>) = Some ((), s\<lparr>kcons := k, kcons := k'\<rparr>)" by blast
  then show "\<exists>k. m s \<bind> (\<lambda>(_, s). n s) = Some ((), s\<lparr>kcons := k\<rparr>)" by auto
qed

lemma only_prints_skip: "only_prints (\<lambda>s. Some ((), s))"
proof -
  have "Some ((), s) = Some ((), s\<lparr>kcons := kcons s\<rparr>)" for s :: kstate by simp
  then show ?thesis unfolding only_prints_def by blast
qed


lemma only_prints_if: "only_prints m \<Longrightarrow> only_prints n \<Longrightarrow> only_prints (\<lambda>s. if b then m s else n s)"
  by (cases b) (simp_all add: only_prints_def)

lemmas prints = only_prints_seq only_prints_skip only_prints_if

lemma only_prints_int: "ftypes fmt = [TInt] \<Longrightarrow> only_prints (cprintf fmt [VInt w])"
  by (erule only_prints_cprintf) simp

lemma reg_lines:
  "ftypes (ln ''  edi  0x%08x'') = [TInt]" "ftypes (ln ''  esi  0x%08x'') = [TInt]" "ftypes (ln ''  ebp  0x%08x'') = [TInt]"
  "ftypes (ln ''  oesp 0x%08x'') = [TInt]" "ftypes (ln ''  ebx  0x%08x'') = [TInt]" "ftypes (ln ''  edx  0x%08x'') = [TInt]"
  "ftypes (ln ''  ecx  0x%08x'') = [TInt]" "ftypes (ln ''  eax  0x%08x'') = [TInt]"
  by (simp_all add: ln_def fmt_simps)

lemma print_regs_prints: "only_prints (print_regs r)"
  unfolding print_regs_def by (intro prints only_prints_int reg_lines)

lemma tf_lines:
  "ftypes (ln ''  es   0x----%04x'') = [TInt]" "ftypes (ln ''  ds   0x----%04x'') = [TInt]" "ftypes (ln ''  cr2  0x%08x'') = [TInt]"
  "ftypes ''  err  0x%08x'' = [TInt]" "ftypes (ln ''  eip  0x%08x'') = [TInt]" "ftypes (ln ''  cs   0x----%04x'') = [TInt]"
  "ftypes (ln ''  flag 0x%08x'') = [TInt]" "ftypes (ln ''  esp  0x%08x'') = [TInt]" "ftypes (ln ''  ss   0x----%04x'') = [TInt]"
  by (simp_all add: ln_def fmt_simps)

lemma tf_other_lines:
  "ftypes (ln ''TRAP frame at %p from CPU %d'') = [TInt, TInt]" "ftypes (ln ''  trap 0x%08x %s'') = [TInt, TStr]"
  "ftypes (ln '' [%s, %s, %s]'') = [TStr, TStr, TStr]" "ftypes (ln '''') = []"
  "ftypes (ln ''Spurious interrupt on irq 7'') = []" "ftypes (ln ''[%08x] user fault va %08x ip %08x'') = [TInt, TInt, TInt]"
  by (simp_all add: ln_def fmt_simps)

lemma print_trapframe_prints: "only_prints (print_trapframe c addr latest cr2 tf)"
  unfolding print_trapframe_def
  by (intro prints only_prints_int tf_lines print_regs_prints only_prints_cprintf [OF tf_other_lines(1)]
      only_prints_cprintf [OF tf_other_lines(2)] only_prints_cprintf [OF tf_other_lines(3)] only_prints_cprintf [OF tf_other_lines(4)]) simp_all


subsection \<open>Every trap keeps the kernel consistent\<close>

lemma safe_prints: "only_prints m \<Longrightarrow> (\<And>k. safe c (f (s\<lparr>kcons := k\<rparr>))) \<Longrightarrow> safe c (m s \<bind> (\<lambda>(_, s). f s))"
  by (auto simp: only_prints_def dest!: spec [of _ s])

lemma serving_kcons: "serving c cur s K xs es \<Longrightarrow> serving c cur (s\<lparr>kcons := k\<rparr>) K xs es"
proof -
  assume sv: "serving c cur s K xs es"
  have "env_inv (s\<lparr>kcons := k\<rparr>) K xs es" by (rule env_inv_cong [OF servingD(2) [OF sv]]) simp_all
  then show ?thesis using sv by (simp add: serving_def kernel_mode_def one_cpu_def on_cpu_ok_def run_owned_def curenv_def)
qed

lemma env_destroy_current_safe:
  assumes sv: "serving c cur s K xs es" shows "safe c (env_destroy c cur s)"
  by (rule env_destroy_safe [OF serving_consistent [OF sv, of "()"]]) (use servingD(5,6) [OF sv] cur_alone [OF sv] in auto)

lemma consistent_set_tf:
  assumes "consistent c (Ret a) s" shows "consistent c (Ret b) (set_tf p f s)"
proof (cases p)
  case (StackTf t)
  then show ?thesis using consistent_val [OF assms] by (simp add: set_tf_def)
next
  case (EnvTf e)
  then show ?thesis unfolding set_tf_def by simp (rule consistent_upd [OF assms], simp)
qed

lemma fault_top_nat: "4005556224 \<le> unat (fault_top esp)" "unat (fault_top esp) \<le> 4005560320"
proof -
  have c: "UXSTACKTOP = 4005560320" "4005560320 - PGSIZE = 4005556224" by (simp_all add: layout_defs)
  show "4005556224 \<le> unat (fault_top esp)" "unat (fault_top esp) \<le> 4005560320"
    unfolding fault_top_def c by (auto simp: word_le_nat_alt word_less_nat_alt)
qed

lemma fault_sp_nat: "unat (fault_top esp - (sizeof_UTrapframe + 4)) = unat (fault_top esp) - 56"
proof -
  have "(56 :: u32) \<le> fault_top esp" using fault_top_nat(1) [of esp] unfolding word_le_nat_alt by simp
  then show ?thesis unfolding sizeof_UTrapframe_def by (subst unat_sub) simp_all
qed

lemma fault_below: "below (fault_top esp - (sizeof_UTrapframe + 4)) (4 * 13)"
proof -
  have "unat UTOP = 4005560320" by (simp add: layout_defs)
  with fault_top_nat [of esp] have "unat (fault_top esp) - 56 + 52 \<le> unat UTOP" by linarith
  then show ?thesis unfolding below_def fault_sp_nat by simp
qed

lemma page_fault_safe:
  assumes sv: "serving c cur s K xs es"
  shows "safe c (page_fault_handler c addr va (EnvTf cur) s)"
proof (cases "tf_cs (env_tf (envs s cur)) AND 3 = 0")
  case True
  then show ?thesis by (simp add: page_fault_handler_def get_tf_def)
next
  case user: False
  note cur = servingD(4) [OF sv]
  show ?thesis
  proof (cases "env_pgfault_upcall (envs s cur) = 0")
    case True
    have "safe c (env_destroy c cur (s\<lparr>kcons := k\<rparr>))" for k by (rule env_destroy_current_safe [OF serving_kcons [OF sv]])
    then have "safe c (print_trapframe c addr True va (env_tf (envs s cur)) (s\<lparr>kcons := k\<rparr>) \<bind> (\<lambda>(_, s). env_destroy c cur s))" for k
      by (intro safe_prints [OF print_trapframe_prints]) simp
    then have "safe c (cprintf (ln ''[%08x] user fault va %08x ip %08x'')
            [VInt (env_id (envs s cur)), VInt va, VInt (tf_eip (env_tf (envs s cur)))] s \<bind>
          (\<lambda>(_, t). print_trapframe c addr True va (env_tf (envs t cur)) t \<bind> (\<lambda>(_, s). env_destroy c cur s)))"
      by (intro safe_cprintf) simp
    then show ?thesis using user True cur by (simp add: page_fault_handler_def get_tf_def)
  next
    case False
    let ?sz = "sizeof_UTrapframe + 4" and ?top = "fault_top (tf_esp (env_tf (envs s cur)))"
    let ?m = "user_mem_assert c cur (?top - ?sz) ?sz (PTE_U OR PTE_P OR PTE_W) s"
    let ?f = "\<lambda>(_ :: unit) s. do {
        d \<leftarrow> env_pgdir (envs s cur);
        (_, s) \<leftarrow> write_words d (?top - ?sz) (utf_words (fault_frame va (get_tf (EnvTf cur) s))) s;
        let s = set_tf (EnvTf cur) (\<lambda>tf. tf\<lparr>tf_eip := env_pgfault_upcall (envs s cur), tf_esp := ?top - ?sz\<rparr>) s;
        (env_run c cur s :: unit ctl kres) }"
    have m: "safe c ?m"
      by (rule user_mem_assert_safe [OF serving_consistent [OF sv, of "()"]]) (use servingD(5,6) [OF sv] cur_alone [OF sv] in auto)
    have "safe c (?f u s1)" if s1: "?m = Some (Ret u, s1)" for u s1
    proof -
      obtain a where a: "s1 = s\<lparr>user_mem_check_addr := a\<rparr>" using user_mem_assert_Ret [OF sv s1] by blast
      have sv1: "serving c cur s1 K xs es" unfolding a by (rule serving_addr [OF sv])
      obtain d where d: "env_pgdir (envs s1 cur) = Some d" "d \<in> dirs s1 es"
        by (rule resolve_dir [OF sv1 cur_resolve [OF sv1]])
      show ?thesis
      proof (cases "write_words d (?top - ?sz) (utf_words (fault_frame va (get_tf (EnvTf cur) s1))) s1")
        case None
        then show ?thesis using d by simp
      next
        case (Some x)
        then obtain s2 where s2: "write_words d (?top - ?sz) (utf_words (fault_frame va (get_tf (EnvTf cur) s1))) s1 = Some ((), s2)"
          by (cases x) auto
        have vm: "vm_inv s1 K (dirs s1 es) xs (\<lambda>_. 0)" using servingD(2) [OF sv1] by (simp add: env_inv_def)
        have len: "length (utf_words (fault_frame va (get_tf (EnvTf cur) s1))) = 13" by (simp add: utf_words_def)
        have k: "vm_inv s2 K (dirs s1 es) xs (\<lambda>_. 0)" "data_kept K (dirs s1 es) s1 s2"
          using write_words_kept [OF vm d(2) _ s2, unfolded len, OF fault_below] by blast+
        note sel = data_kept_sel [OF k(2)]
        have "env_inv s2 K xs es" by (rule env_inv_data [OF servingD(2) [OF sv1] k(2,1)])
        then have "consistent c (Ret ()) s2"
          using servingD(1,3) [OF sv1] sel
          by (auto simp: consistent_Ret kernel_mode_def one_cpu_def on_cpu_ok_def run_owned_def curenv_def)
        then have "consistent c (Ret ()) (set_tf (EnvTf cur) g s2)" for g by (rule consistent_set_tf)
        moreover have "curenv c (set_tf (EnvTf cur) g s2) = Some cur" "env_status (envs (set_tf (EnvTf cur) g s2) cur) \<noteq> ENV_FREE" for g
          using servingD(4,5) [OF sv1] sel by (simp_all add: set_tf_def curenv_def)
        ultimately have "safe c (env_run c cur (set_tf (EnvTf cur) g s2) :: unit ctl kres)" for g
          using env_run_current [of c "()" "set_tf (EnvTf cur) g s2" cur, where 'b = unit] by auto
        then show ?thesis using d s2 by (simp add: Let_def)
      qed
    qed
    then have "safe c (ctl_bind ?m ?f)" by (intro safe_bind [OF m])
    then show ?thesis using user False cur by (simp add: page_fault_handler_def get_tf_def Let_def)
  qed
qed


lemma kbd_step_safe: "consistent c (Ret ()) s \<Longrightarrow> safe c (f (kcons s) \<bind> (\<lambda>k. Some (Ret (), s\<lparr>kcons := k\<rparr>)))"
  by (cases "f (kcons s)") simp_all

lemma trap_dispatch_safe:
  assumes sv: "serving c cur s K xs es" and idle: "children_idle c cur s" "receivers_idle c s"
    and small: "\<forall>p. refs s (dirs s es) p < 65535"
  shows "safe c (trap_dispatch c addr cr2 (EnvTf cur) s)"
proof -
  let ?tf = "env_tf (envs s cur)"
  note co = serving_consistent [OF sv, of "()"]
  have sys: "safe c (syscall c n a1 a2 a3 a4 a5 s)" for n a1 a2 a3 a4 a5
    by (rule syscall_safe [OF sv idle small])
  have "safe c (ctl_bind (syscall c n a1 a2 a3 a4 a5 s) (\<lambda>v s. Some (Ret (), set_tf (EnvTf cur) (g v) s)))" for n a1 a2 a3 a4 a5 g
    by (rule safe_bind [OF sys]) (simp add: consistent_set_tf)
  moreover have "safe c (sched_yield c s :: unit ctl kres)" by (rule sched_yield_safe [OF co])
  moreover have "safe c (print_trapframe c addr True cr2 ?tf t \<bind> (\<lambda>(_, s). Some (Ret (), s)))" if "consistent c (Ret ()) t" for t
    by (rule safe_prints [OF print_trapframe_prints]) (use that in simp)
  then have "safe c (cprintf (ln ''Spurious interrupt on irq 7'') [] s \<bind>
      (\<lambda>(_, s). print_trapframe c addr True cr2 ?tf s \<bind> (\<lambda>(_, s). Some (Ret (), s))))"
    by (intro safe_cprintf) (use co in simp)
  moreover have "safe c (env_destroy c cur (s\<lparr>kcons := k\<rparr>))" for k by (rule env_destroy_current_safe [OF serving_kcons [OF sv]])
  then have "safe c (print_trapframe c addr True cr2 ?tf s \<bind> (\<lambda>(_, s).
      if tf_cs ?tf = GD_KT then None else curenv c s \<bind> (\<lambda>cur. env_destroy c cur s)))"
    using servingD(4) [OF sv] by (intro safe_prints [OF print_trapframe_prints]) (simp add: curenv_def)
  ultimately show ?thesis
    unfolding trap_dispatch_def Let_def get_tf_def tfptr.case
    using page_fault_safe [OF sv] kbd_step_safe [OF co, of kbd_intr] kbd_step_safe [OF co, of serial_intr] co
    by (simp add: consistent_def del: ctl_bind_simps)
qed


text \<open>The state in which a trap from user mode is handled: the CPU is marked as started, the lock is taken, and the
  registers are saved.\<close>

definition entered :: "nat \<Rightarrow> nat \<Rightarrow> Trapframe \<Rightarrow> kstate \<Rightarrow> kstate" where
  "entered c cur tf s = upd_env cur (\<lambda>x. x\<lparr>env_tf := tf\<rparr>) ((upd_cpu c (\<lambda>x. x\<lparr>cpu_status := CPU_STARTED\<rparr>) s)\<lparr>klock := Some c\<rparr>)"

lemma started_ok:
  assumes inv: "env_inv s K xs es" and um: "user_mode s" and lk: "klock s = None"
  shows "lock_kernel c (upd_cpu c (\<lambda>x. x\<lparr>cpu_status := CPU_STARTED\<rparr>) s) =
      Some ((), (upd_cpu c (\<lambda>x. x\<lparr>cpu_status := CPU_STARTED\<rparr>) s)\<lparr>klock := Some c\<rparr>)"
    "env_inv ((upd_cpu c (\<lambda>x. x\<lparr>cpu_status := CPU_STARTED\<rparr>) s)\<lparr>klock := Some c\<rparr>) K xs es"
    "kernel_mode c ((upd_cpu c (\<lambda>x. x\<lparr>cpu_status := CPU_STARTED\<rparr>) s)\<lparr>klock := Some c\<rparr>)"
proof -
  let ?t = "upd_cpu c (\<lambda>x. x\<lparr>cpu_status := CPU_STARTED\<rparr>) s"
  have i: "env_inv ?t K xs es" by (rule env_inv_cong [OF inv]) simp_all
  have c: "cpu_env (cpus ?t c') = cpu_env (cpus s c')" "envs ?t = envs s" for c' by simp_all
  have u: "user_mode ?t" using um unfolding user_mode_def one_cpu_def on_cpu_ok_def run_owned_def c .
  have l: "klock ?t = None" using lk by simp
  from lock_ok [OF l i u] show "lock_kernel c ?t = Some ((), ?t\<lparr>klock := Some c\<rparr>)" "env_inv (?t\<lparr>klock := Some c\<rparr>) K xs es"
    "kernel_mode c (?t\<lparr>klock := Some c\<rparr>)" by blast+
qed

lemma entered_serving:
  assumes inv: "env_inv s K xs es" and um: "user_mode s" and lk: "klock s = None" and cur: "cpu_env (cpus s c) = Some cur"
    and run: "env_status (envs s cur) = ENV_RUNNING"
  shows "serving c cur (entered c cur tf s) K xs es"
proof -
  let ?t = "(upd_cpu c (\<lambda>x. x\<lparr>cpu_status := CPU_STARTED\<rparr>) s)\<lparr>klock := Some c\<rparr>"
  have "serving c cur ?t K xs es"
    using started_ok [OF inv um lk, of c] cur run by (simp add: serving_def curenv_def)
  then show ?thesis unfolding entered_def by (rule serving_upd) simp_all
qed

lemma trap_user_eq:
  assumes inv: "env_inv s K xs es" and um: "user_mode s" and lk: "klock s = None" and cur: "cpu_env (cpus s c) = Some cur"
    and st: "cpu_status (cpus s c) \<noteq> CPU_HALTED" and cs: "tf_cs tf AND 3 = 3" and run: "env_status (envs s cur) = ENV_RUNNING"
  shows "trap c addr cr2 False tf s = trap_return c (trap_dispatch c (addr (EnvTf cur)) cr2 (EnvTf cur) (entered c cur tf s))"
  using started_ok(1) [OF inv um lk, of c] cur st cs run by (simp add: trap_def entered_def curenv_def Let_def)

lemma trap_dying_eq:
  assumes inv: "env_inv s K xs es" and um: "user_mode s" and lk: "klock s = None" and cur: "cpu_env (cpus s c) = Some cur"
    and st: "cpu_status (cpus s c) \<noteq> CPU_HALTED" and cs: "tf_cs tf AND 3 = 3" and dy: "env_status (envs s cur) = ENV_DYING"
  shows "trap c addr cr2 False tf s = env_destroy c cur ((upd_cpu c (\<lambda>x. x\<lparr>cpu_status := CPU_STARTED\<rparr>) s)\<lparr>klock := Some c\<rparr>)"
proof -
  let ?t = "(upd_cpu c (\<lambda>x. x\<lparr>cpu_status := CPU_STARTED\<rparr>) s)\<lparr>klock := Some c\<rparr>"
  note t = started_ok [OF inv um lk, of c]
  have e: "cur < NENV" using t(3) cur by (simp add: kernel_mode_def curenv_def)
  obtain d where d: "env_pgdir (envs ?t cur) = Some d" "cur \<notin> set es"
    using env_inv_used [OF t(2) e] dy by auto
  obtain s1 where s1: "env_free c cur ?t = Some ((), s1)" "cpu_env (cpus s1 c) = cpu_env (cpus ?t c)"
    using env_free_ok_full [OF t(2) e d(2,1), of c] by auto
  then show ?thesis
    using t(1) cur st cs dy by (simp add: trap_def env_destroy_def curenv_def Let_def)
qed



subsection \<open>The user's page fault handler\<close>

lemma KADDR_cong: "npages s' = npages s \<Longrightarrow> KADDR pa s' = KADDR pa s"
  by (simp add: KADDR_def)

lemma translate_cong:
  assumes "phys s' = phys s" "npages s' = npages s"
  shows "translate d perm va s' = translate d perm va s"
  using assms KADDR_cong [OF assms(2)]
  by (cases "KADDR (PTE_ADDR (phys s d (PDX va))) s") (simp_all add: translate_def pgdir_walk_def rd_pte_def Let_def)

lemma read_byte_cong: "phys s' = phys s \<Longrightarrow> npages s' = npages s \<Longrightarrow> read_byte d va s' = read_byte d va s"
  by (simp add: read_byte_def translate_cong [of s' s])

lemma read_bytes_cong: "phys s' = phys s \<Longrightarrow> npages s' = npages s \<Longrightarrow> read_bytes d va n s' = read_bytes d va n s"
  by (induction n arbitrary: va) (simp_all add: read_byte_cong [of s' s])

lemma read_word_cong: "phys s' = phys s \<Longrightarrow> npages s' = npages s \<Longrightarrow> read_word d va s' = read_word d va s"
  by (simp add: read_word_def read_bytes_cong [of s' s])


lemma walk_total:
  assumes inv: "vm_inv s K D xs ex" and d: "d \<in> D" and va: "va < UTOP"
  shows "pgdir_walk d va False s \<noteq> None"
  using walk_unmapped [of s d va] walk_mapped [OF inv d va, of _ False] by (cases "utab s d (PDX va)") auto

lemma user_ok_upte:
  assumes inv: "vm_inv s K D xs ex" and d: "d \<in> D" and va: "va < UTOP" and ok: "(upte s d (PGNUM va) OR perm OR PTE_P) = upte s d (PGNUM va)"
  shows "user_ok s d perm va"
proof -
  have "translate d perm va s = Some (PGNUM (upte s d (PGNUM va)))"
    unfolding translate_eq [OF inv d va] Let_def using ok by simp
  moreover have "va < ULIM" using va by (simp add: layout_defs word_less_nat_alt)
  ultimately show ?thesis by (auto simp: user_ok_def translate_def split: option.splits if_splits)
qed

lemma next_page:
  assumes "(v :: nat) mod 4096 + l \<le> 4096" "0 < l"
  shows "(v + l + 4095) div 4096 = Suc (v div 4096)" "i < l \<Longrightarrow> (v + i) div 4096 = v div 4096"
proof -
  obtain q r where v: "v = r + 4096 * q" "r < 4096" by (rule that [of "v mod 4096" "v div 4096"]) simp_all
  have d: "(r + 4096 * q) div 4096 = q" "(r + 4096 * q) mod 4096 = r" using v(2) by simp_all
  have "v + l + 4095 = (r + l - 1) + 4096 * Suc q" using assms(2) v(1) by simp
  moreover have "r + l - 1 < 4096" using assms v(1) d(2) by simp
  ultimately have "(v + l + 4095) div 4096 = Suc q" by simp
  then show "(v + l + 4095) div 4096 = Suc (v div 4096)" using d(1) v(1) by simp
  assume "i < l"
  then have "r + i < 4096" using assms v(1) d(2) by simp
  moreover have "v + i = (r + i) + 4096 * q" using v(1) by simp
  ultimately have "(v + i) div 4096 = q" by simp
  then show "(v + i) div 4096 = v div 4096" using d(1) v(1) by simp
qed

text \<open>The check of a range inside one page.\<close>

lemma user_mem_check_page:
  assumes inv: "vm_inv s K D xs ex" and d: "d \<in> D" "env_pgdir (envs s e) = Some d" and va: "va < UTOP"
    and r: "0 < unat len" "unat va mod 4096 + unat len \<le> 4096" and ok: "user_ok s d perm va"
  shows "user_mem_check e va len perm s = Some (Inr (), s)"
proof -
  let ?i = "unat va div 4096"
  have i: "?i < 0xEEC00" using va by (simp add: word_less_nat_alt layout_defs div_less_iff_less_mult)
  have dm: "unat va = 4096 * ?i + unat va mod 4096" by simp
  have "unat va + unat len + 4095 < 4294967296" using i r(2) dm by linarith
  then have "unat (va + len + 4095) = unat va + unat len + 4095" by (simp add: unat_add_wrap)
  moreover have "(unat va + unat len + 4095) div 4096 = Suc ?i"
    by (rule next_page(1) [OF r(2,1)])
  ultimately have up: "ROUNDUP (va + len) PGSIZE = pg (Suc ?i)" by (simp add: ROUNDUP_pg)
  have w: "pgdir_walk d a False s \<noteq> None" if "a < pg (Suc ?i)" for a
  proof (rule walk_total [OF inv d(1)])
    have "unat a < 4096 * Suc ?i" using that i by (simp add: word_less_nat_alt unat_pg)
    moreover have "4096 * Suc ?i \<le> 4096 * 0xEEC00" using i by (intro mult_le_mono2) simp
    ultimately have "unat a < 4096 * 0xEEC00" by (rule less_le_trans)
    then show "a < UTOP" by (simp add: word_less_nat_alt layout_defs)
  qed
  have "PGNUM va = PGNUM (pg ?i)" using i pg_page [of ?i] by (simp add: PGNUM_nat)
  then have "user_ok s d perm (pg ?i)" using ok user_ok_page by blast
  then show ?thesis
    using check_loop_pages [of ?i "Suc ?i" d s va perm, OF _ _ w] i
    by (simp add: user_mem_check_def d(2) ROUNDDOWN_pg up)
qed



subsection \<open>Preemption\<close>

lemma timer_yield:
  assumes inv: "env_inv s K xs es" and um: "user_mode s" and lk: "klock s = None" and cur: "cpu_env (cpus s c) = Some cur"
    and st: "cpu_status (cpus s c) \<noteq> CPU_HALTED" and cs: "tf_cs tf AND 3 = 3" and run: "env_status (envs s cur) = ENV_RUNNING"
    and n: "tf_trapno tf = IRQ_OFFSET + IRQ_TIMER"
  shows "\<exists>i s'. trap c addr cr2 False tf s = Some (Run i, s') \<and> user_mode s' \<and> klock s' = None \<and> env_inv s' K xs es \<and>
    env_tf (envs s' cur) = tf \<and> cpu_env (cpus s' c) = Some i \<and>
    (if \<exists>j < NENV. runnable s j
     then runnable s i \<and> env_status (envs s' cur) = ENV_RUNNABLE \<and>
       (\<forall>j < NENV. runnable s j \<longrightarrow> cyc (ENVX (env_id (envs s cur))) i \<le> cyc (ENVX (env_id (envs s cur))) j)
     else i = cur)"
proof -
  let ?t = "entered c cur tf s"
  have sv: "serving c cur ?t K xs es" by (rule entered_serving [OF inv um lk cur run])
  have rn: "runnable ?t j = runnable s j" for j by (simp add: runnable_def entered_def)
  have id: "cur_id c ?t = env_id (envs s cur)" "env_tf (envs ?t cur) = tf" "env_status (envs ?t cur) = ENV_RUNNING"
    using servingD(4,5) [OF sv] by (simp_all add: cur_id_def entered_def)
  obtain i d where A: "(sched_yield c ?t :: unit ctl kres) = Some (Run i, switch_to c i d ?t)"
    "next_runnable (ENVX (cur_id c ?t)) ?t = Some i \<and> runnable ?t i \<or> (\<forall>j < NENV. \<not> runnable ?t j) \<and> i = cur"
    using sched_yield_cases [OF servingD(1-3) [OF sv], where 'a = unit] servingD(4,5) [OF sv] by auto
  let ?u = "switch_to c i d ?t"
  obtain r s' where B: "(sched_yield c ?t :: unit ctl kres) = Some (r, s')" "env_inv s' K xs es" "case r of
      Run e \<Rightarrow> user_mode s' \<and> klock s' = None \<and> cpu_env (cpus s' c) = Some e | _ \<Rightarrow> True"
    using sched_yield_full [OF servingD(1-3) [OF sv], where 'a = unit] by (fastforce split: ctl.splits)
  have ok: "env_inv ?u K xs es" "user_mode ?u" "klock ?u = None" "cpu_env (cpus ?u c) = Some i"
    using A(1) B by auto
  have tr: "trap c addr cr2 False tf s = Some (Run i, ?u)"
    unfolding trap_user_eq [OF inv um lk cur st cs run]
    using n id(2) A(1) by (simp add: trap_dispatch_def get_tf_def trap_return_def trap_numbers)
  have tf: "env_tf (envs ?u cur) = tf" using id(2) by simp
  show ?thesis
  proof (cases "\<exists>j < NENV. runnable s j")
    case True
    then have B: "next_runnable (ENVX (cur_id c ?t)) ?t = Some i" "runnable s i" using A(2) rn by auto
    have "cyc (ENVX (env_id (envs s cur))) i \<le> cyc (ENVX (env_id (envs s cur))) j" if "j < NENV" "runnable s j" for j
      using next_runnable_Some(3) [OF B(1) ENVX_less that(1)] that(2) rn id(1) by simp
    moreover have "i \<noteq> cur" using B(2) run by (auto simp: runnable_def)
    then have "env_status (envs ?u cur) = ENV_RUNNABLE" using servingD(4) [OF sv] id(3) by simp
    ultimately show ?thesis using tr ok tf B(2) True by (intro exI [of _ i] exI [of _ ?u]) simp
  next
    case False
    then have "i = cur" using A(2) rn next_runnable_Some(1,2) [OF _ ENVX_less] by (metis)
    then show ?thesis using tr ok tf False by (intro exI [of _ i] exI [of _ ?u]) auto
  qed
qed


text \<open>C33: A timer interrupt while environment \<open>cur\<close> runs saves its registers and never leaves the CPU idle: the next
  runnable environment in circular order runs, \<open>cur\<close> becoming runnable; when nothing else can run
  \<open>cur\<close> continues. The machine is consistent and the lock is released.\<close>

theorem timer_preempts:
  assumes inv: "env_inv s K xs es" and um: "user_mode s" and lk: "klock s = None" and cur: "cpu_env (cpus s c) = Some cur"
    and st: "cpu_status (cpus s c) \<noteq> CPU_HALTED" and cs: "tf_cs tf AND 3 = 3" and run: "env_status (envs s cur) = ENV_RUNNING"
    and n: "tf_trapno tf = IRQ_OFFSET + IRQ_TIMER"
  shows "\<exists>i s'. trap c addr cr2 False tf s = Some (Run i, s') \<and> user_mode s' \<and> klock s' = None \<and> env_inv s' K xs es \<and>
    env_tf (envs s' cur) = tf \<and> cpu_env (cpus s' c) = Some i \<and>
    (if \<exists>j < NENV. runnable s j
     then runnable s i \<and> env_status (envs s' cur) = ENV_RUNNABLE \<and>
       (\<forall>j < NENV. runnable s j \<longrightarrow> cyc (ENVX (env_id (envs s cur))) i \<le> cyc (ENVX (env_id (envs s cur))) j)
     else i = cur)"
  by (rule timer_yield [OF assms])

subsection \<open>Gates\<close>

definition gate_offset :: "Gatedesc \<Rightarrow> u32" where
  "gate_offset g = push_bit 16 (ucast (gd_off_31_16 g)) OR ucast (gd_off_15_0 g)"

lemma gate_offset_SETGATE: "gate_offset (SETGATE t sel off dpl) = off"
proof (rule bit_word_eqI)
  fix n assume "n < LENGTH(32)"
  moreover have m: "(0xFFFF :: u32) = mask 16" by (simp add: mask_eq_exp_minus_1)
  ultimately show "bit (gate_offset (SETGATE t sel off dpl)) n = bit off n"
    by (cases "n < 16") (auto simp: gate_offset_def SETGATE_def bit_simps m)
qed

lemma trap_init_at: "distinct (map fst gs) \<Longrightarrow>
  fold (\<lambda>(n, dpl) idt. idt(n := SETGATE False GD_KT (f n) dpl)) gs idt n =
    (case map_of gs n of None \<Rightarrow> idt n | Some dpl \<Rightarrow> SETGATE False GD_KT (f n) dpl)"
proof (induction gs arbitrary: idt)
  case (Cons g gs)
  obtain m dpl where g: "g = (m, dpl)" by (cases g) auto
  have "map_of gs m = None" using Cons.prems g by (simp add: map_of_eq_None_iff)
  then show ?case using Cons g by (auto split: option.splits)
qed simp

text \<open>The interrupt table after \<open>trap_init\<close>: each entry of the list is an interrupt gate into the kernel code segment
  whose two halves give back the address of its entry point, and the others are as before. User code may invoke
  with \<^verbatim>\<open>int n\<close> the breakpoint and the system call, and also the three hardware interrupts that
  are registered, which were given privilege level 3: a program can fake a timer interrupt.\<close>

theorem trap_init_gates:
  "(case map_of trap_gates n of
      None \<Rightarrow> trap_init f idt n = idt n
    | Some dpl \<Rightarrow> gate_offset (trap_init f idt n) = f n \<and> gd_sel (trap_init f idt n) = GD_KT \<and> gd_type (trap_init f idt n) = 0xE \<and>
        gd_p (trap_init f idt n) = 1 \<and> gd_dpl (trap_init f idt n) = dpl) \<and>
   (gd_dpl (trap_init f (\<lambda>_. zero_gate) n) = 3) = (n \<in> {3, 32, 33, 36, 48})"
proof -
  have "distinct (map fst trap_gates)" by (simp add: trap_gates_def)
  note at = trap_init_at [OF this, of f, folded trap_init_def]
  have "map_of trap_gates n = Some 3 \<longleftrightarrow> n \<in> {3, 32, 33, 36, 48}"
    by (simp add: trap_gates_def)
  moreover have "gd_dpl (trap_init f (\<lambda>_. zero_gate) n) = 3 \<longleftrightarrow> map_of trap_gates n = Some 3"
    by (simp add: at zero_gate_def SETGATE_def split: option.splits)
  ultimately show ?thesis
    using gate_offset_SETGATE [of False GD_KT "f n"] by (auto simp: at SETGATE_def split: option.splits)
qed


subsection \<open>A machine whose program has an exception stack\<close>

lemma serving_user_mode: "serving c cur s K xs es \<Longrightarrow> user_mode (s\<lparr>klock := None\<rparr>) \<and> env_inv (s\<lparr>klock := None\<rparr>) K xs es"
proof -
  assume sv: "serving c cur s K xs es"
  have i: "env_inv (s\<lparr>klock := None\<rparr>) K xs es" by (rule env_inv_cong [OF servingD(2) [OF sv]]) simp_all
  have km: "one_cpu s" "\<And>c'. c' \<noteq> c \<Longrightarrow> on_cpu_ok s c'" "run_owned s" using servingD(3) [OF sv] by (auto simp: kernel_mode_def)
  have "on_cpu_ok s c" using servingD(4,5,6) [OF sv] by (auto simp: on_cpu_ok_def curenv_def)
  then have "on_cpu_ok s c'" for c' using km(2) by (cases "c' = c") auto
  then have "user_mode (s\<lparr>klock := None\<rparr>)"
    using km(1,3) by (simp add: user_mode_def one_cpu_def on_cpu_ok_def run_owned_def)
  with i show ?thesis by blast
qed

lemma upd_status:
  assumes "user_mode s" "env_inv s K xs es"
  shows "user_mode (upd_cpu 0 (cpu_status_update (\<lambda>_. CPU_STARTED)) s) \<and> env_inv (upd_cpu 0 (cpu_status_update (\<lambda>_. CPU_STARTED)) s) K xs es"
proof -
  let ?t = "upd_cpu 0 (cpu_status_update (\<lambda>_. CPU_STARTED)) s"
  have c: "cpu_env (cpus ?t c) = cpu_env (cpus s c)" for c by simp
  have "user_mode ?t" using assms(1) unfolding user_mode_def one_cpu_def on_cpu_ok_def run_owned_def curenv_def c by simp
  moreover have "env_inv ?t K xs es" by (rule env_inv_cong [OF assms(2)]) simp_all
  ultimately show ?thesis by blast
qed

lemma upt_two: "2 < n \<Longrightarrow> \<exists>xs. [1..<n] = 1 # 2 # xs \<and> (n \<noteq> 3 \<longrightarrow> xs \<noteq> [])"
  by (rule exI [of _ "[3..<n]"]) (simp add: upt_conv_Cons numeral_3_eq_3 numeral_2_eq_2)

lemma two_pages: obtains xs where "[1..<2000] = 1 # 2 # (xs :: nat list)" "xs \<noteq> []"
proof -
  have "2 < (2000 :: nat)" "2000 \<noteq> (3 :: nat)" by simp_all
  with upt_two [of 2000] that show ?thesis by blast
qed

lemma first_slot: "[0..<NENV] = 0 # [1..<NENV]"
  using NENV_bounds by (simp add: upt_conv_Cons)

lemma fault_machine:
  obtains s xs d where "env_inv s {0} xs [1..<NENV]" "user_mode s" "klock s = None" "cpu_env (cpus s 0) = Some 0"
    "cpu_status (cpus s 0) \<noteq> CPU_HALTED" "env_status (envs s 0) = ENV_RUNNING" "env_pgfault_upcall (envs s 0) = 0x800020"
    "env_pgdir (envs s 0) = Some d" "(upte s d 0xEEBFF OR (PTE_U OR PTE_P OR PTE_W)) = upte s d 0xEEBFF"
proof -
  obtain ps where ps: "[1..<2000] = 1 # 2 # (ps :: nat list)" "ps \<noteq> []" by (rule two_pages)
  define es where "es = [1..<NENV]"
  obtain s1 where s1: "env_inv s1 {0} (2 # ps) es" "env_status (envs s1 0) = ENV_RUNNABLE" "env_pgdir (envs s1 0) = Some 1"
    "\<forall>e'. e' \<noteq> 0 \<longrightarrow> envs s1 e' = envs fresh_machine e'" "cpus s1 = cpus fresh_machine"
    using env_alloc_cases [OF fresh_machine_inv, of 0 0, unfolded first_slot ps(1) list.case] unfolding es_def by blast
  have none: "cpu_env (cpus s1 c) = None" for c
    by (simp add: s1(5) fresh_machine_def zero_state_def)
  have nr: "env_status (envs s1 e) \<noteq> ENV_RUNNING" for e
    using s1(2,4) by (cases "e = 0") (auto simp: fresh_machine_def zero_env_def)
  define s2 where "s2 = s1\<lparr>klock := Some 0\<rparr>"
  have s2: "envs s2 = envs s1" "cpus s2 = cpus s1" "klock s2 = Some 0" by (simp_all add: s2_def)
  have km: "kernel_mode 0 s2"
    using none nr by (simp add: kernel_mode_def one_cpu_def on_cpu_ok_def run_owned_def curenv_def s2)
  have inv: "env_inv s2 {0} (2 # ps) es" by (rule env_inv_cong [OF s1(1)]) (simp_all add: s2_def)
  have rn: "runnable s2 0" using s1(2) by (simp add: runnable_def s2)
  define t where "t = switch_to 0 0 1 s2"
  have um: "user_mode t" unfolding t_def by (rule switch_to_user_mode [OF km NENV_bounds(1)]) (use rn in simp)
  have it: "env_inv t {0} (2 # ps) es" unfolding t_def
    by (rule switch_to_inv [OF inv NENV_bounds(1)]) (use rn in \<open>simp add: runnable_def\<close>)
  have lt: "klock t = None" unfolding t_def by (rule switch_to_sel(7))
  have ct: "cpu_env (cpus t 0) = Some 0" "env_status (envs t 0) = ENV_RUNNING" "env_pgdir (envs t 0) = Some 1"
    unfolding t_def using s1(3) by (simp_all add: s2)
  note l = lock_ok [OF lt it um, of 0]
  define u where "u = upd_env 0 (\<lambda>x. x\<lparr>env_pgfault_upcall := 0x800020\<rparr>) (t\<lparr>klock := Some 0\<rparr>)"
  have "serving 0 0 (t\<lparr>klock := Some 0\<rparr>) {0} (2 # ps) es" using l(2,3) ct by (simp add: serving_def curenv_def)
  then have sv: "serving 0 0 u {0} (2 # ps) es" unfolding u_def by (rule serving_upd) simp_all
  have re: "resolve 0 0 u = Some 0" by (rule cur_resolve [OF sv])
  have eu: "env_pgdir (envs u 0) = Some 1" "env_pgfault_upcall (envs u 0) = 0x800020" by (simp_all add: u_def ct)
  have ok: "\<not> bad_perm 7" "\<not> bad_va 0xEEBFF000" by (simp_all add: bad_perm_def bad_va_def pte_bits layout_defs)
  obtain s' ys where A: "serving 0 0 s' {0} ys es" "envs s' = envs u"
    "maps_new u es 1 0xEEBFF000 (page2pa 2 OR 7 OR PTE_P) s'"
    using sys_page_alloc_ok [OF sv, of 7 "0xEEBFF000" 0] ok ps(2)
    by (simp only: re eu option.case option.sel list.case if_False HOL.simp_thms) blast
  have pg: "PGNUM 0xEEBFF000 = 0xEEBFF" by (simp add: PGNUM_nat)
  have "0 \<in> set es \<or> 0 < NENV" using NENV_bounds(1) by blast
  then have "1 \<in> dirs u es" using eu NENV_bounds(1) unfolding dirs_def es_def by (auto intro!: exI [of _ 0])
  then have v: "upte s' 1 0xEEBFF = page2pa 2 OR 7 OR PTE_P"
    using A(3) pg by (simp add: maps_new_def UPN_def UPDX_def)
  have w: "(x OR (PTE_U OR PTE_P OR PTE_W)) = x" if "x = page2pa 2 OR 7 OR PTE_P" for x
    using that by (simp add: page2pa_def pte_bits)
  define s3 where "s3 = s'\<lparr>klock := None\<rparr>"
  have i3: "user_mode s3" "env_inv s3 {0} ys es" using serving_user_mode [OF A(1)] unfolding s3_def by blast+
  define s4 where "s4 = upd_cpu 0 (cpu_status_update (\<lambda>_. CPU_STARTED)) s3"
  have i4: "user_mode s4" "env_inv s4 {0} ys es" using upd_status [OF i3] unfolding s4_def by blast+
  have "upte s4 1 0xEEBFF = upte s' 1 0xEEBFF" using phys_congs(2) [of s4 s'] by (simp add: s4_def s3_def)
  moreover have "cpu_env (cpus s4 0) = Some 0" using servingD(4) [OF A(1)] by (simp add: s4_def s3_def curenv_def)
  moreover have "klock s4 = None" "cpu_status (cpus s4 0) \<noteq> CPU_HALTED" "envs s4 = envs u" by (simp_all add: s4_def s3_def A(2))
  moreover have "env_status (envs u 0) = ENV_RUNNING" by (simp add: u_def ct)
  ultimately show ?thesis using w [OF v] i4 eu unfolding es_def by (intro that [of s4 ys 1]) simp_all
qed

subsection \<open>The theorems at work\<close>

definition trap_machine :: kstate where
  "trap_machine = upd_cpu 0 (cpu_status_update (\<lambda>_. CPU_STARTED)) (small_serving\<lparr>klock := None\<rparr>)"

lemma trap_machine_ok: "env_inv trap_machine {0, 1} [5] other_slots" "user_mode trap_machine" "klock trap_machine = None"
  "cpu_env (cpus trap_machine c) = Some e \<longleftrightarrow> c = 0 \<and> e = 0" "cpu_status (cpus trap_machine 0) \<noteq> CPU_HALTED"
  "env_status (envs trap_machine 0) = ENV_RUNNING" "\<forall>p. refs trap_machine (dirs trap_machine other_slots) p < 65535"
proof -
  note u = serving_user_mode [OF small_serving_ok]
  show "env_inv trap_machine {0, 1} [5] other_slots" "user_mode trap_machine"
    using upd_status [OF conjunct1 [OF u] conjunct2 [OF u]] unfolding trap_machine_def by blast+
  show "klock trap_machine = None" "cpu_status (cpus trap_machine 0) \<noteq> CPU_HALTED" by (simp_all add: trap_machine_def)
  show "env_status (envs trap_machine 0) = ENV_RUNNING" using servingD(5) [OF small_serving_ok] by (simp add: trap_machine_def)
  show "cpu_env (cpus trap_machine c) = Some e \<longleftrightarrow> c = 0 \<and> e = 0"
    by (auto simp: trap_machine_def small_serving_def locked_envs_def small_envs_def small_vm_def zero_state_def)
  have "phys trap_machine = phys small_serving" by (simp add: trap_machine_def)
  then have "refs trap_machine = refs small_serving" using phys_congs by blast
  moreover have "dirs trap_machine other_slots = {2}" using small_serving_sel(4) by (simp add: dirs_def trap_machine_def)
  ultimately show "\<forall>p. refs trap_machine (dirs trap_machine other_slots) p < 65535"
    by (simp add: small_serving_sel(5) small_vm_refs)
qed

definition timer_tf :: Trapframe where "timer_tf = new_tf\<lparr>tf_trapno := 32\<rparr>"

lemma timer_tf: "tf_cs timer_tf AND 3 = 3" "tf_trapno timer_tf = IRQ_OFFSET + IRQ_TIMER"
  by (simp_all add: timer_tf_def new_tf_def zero_tf_def GD_UT_def trap_numbers)


theorem timer_preempts_witness:
  "\<exists>s :: kstate. cpu_env (cpus s 0) = Some 0 \<and> runnable s 1 \<and>
    (\<exists>i s'. trap 0 (\<lambda>_. 0) 0 False timer_tf s = Some (Run i, s') \<and> cpu_env (cpus s' 0) = Some i \<and> runnable s i \<and>
      env_status (envs s' 0) = ENV_RUNNABLE)"
proof -
  obtain s where s: "klock s = None" "env_inv s {0, 1} [] [2..<NENV]" "user_mode s" "cpu_env (cpus s 0) = Some 0"
    "env_status (envs s 0) = ENV_RUNNING" "runnable s 1" by (rule two_envs)
  define u where "u = upd_cpu 0 (cpu_status_update (\<lambda>_. CPU_STARTED)) s"
  have i: "user_mode u" "env_inv u {0, 1} [] [2..<NENV]" using upd_status [OF s(3,2)] unfolding u_def by blast+
  have u: "klock u = None" "cpu_env (cpus u 0) = Some 0" "cpu_status (cpus u 0) \<noteq> CPU_HALTED"
    "env_status (envs u 0) = ENV_RUNNING" "runnable u 1"
    using s by (simp_all add: u_def runnable_def)
  have "\<exists>j < NENV. runnable u j" using NENV_bounds u(5) by (intro exI [of _ 1]) simp
  with timer_preempts [OF i(2,1) u(1-3) timer_tf(1) u(4) timer_tf(2), of "\<lambda>_. 0" 0] u show ?thesis by auto
qed


end
