(* ===== verification/BootMap.thy ===== *)
theory BootMap
  imports UserMem
begin

text \<open>
  The kernel's own address space, \<^verbatim>\<open>kern/pmap.c\<close>: static mappings above \<open>UTOP\<close>, the
  memory-mapped I/O region, the per-CPU kernel stacks and the boot sequence of \<^verbatim>\<open>mem_init\<close>
  with the checks it runs. The directory entries of interest are a set \<open>I\<close> of indices, which
  leaves out the entry through which the directory maps itself.
\<close>

subsection \<open>Static mappings\<close>

text \<open>\<open>None\<close> is also the value of a loop that does not end; \<open>pse\<close> is the compile-time switch
  \<^verbatim>\<open>TP1_PSE\<close>.\<close>

partial_function (option) boot_map_region ::
  "bool \<Rightarrow> nat \<Rightarrow> u32 \<Rightarrow> u32 \<Rightarrow> u32 \<Rightarrow> u32 \<Rightarrow> kstate \<Rightarrow> unit kres" where
  [code]: "boot_map_region pse pgdir va size' pa perm s =
     (if size' > 0 then
        if pse \<and> size' \<ge> PTSIZE \<and> va mod PTSIZE = 0 \<and> pa mod PTSIZE = 0 then
          boot_map_region pse pgdir (va + PTSIZE) (size' - PTSIZE) (pa + PTSIZE) perm
            (set_word pgdir (PDX va) (PTE_ADDR pa OR perm OR PTE_P OR PTE_PS) s)
        else do {
          (pte, s) \<leftarrow> pgdir_walk pgdir va True s;
          case pte of
            None \<Rightarrow> Some ((), s)
          | Some p \<Rightarrow>
              boot_map_region pse pgdir (va + PGSIZE) (size' - PGSIZE) (pa + PGSIZE) perm
                (wr_pte p (pa OR perm OR PTE_P) s)
        }
      else Some ((), s))"

definition mmio_map_region :: "bool \<Rightarrow> u32 \<Rightarrow> u32 \<Rightarrow> kstate \<Rightarrow> u32 kres" where
  "mmio_map_region pse pa size' s =
     (let size' = ROUNDUP size' PGSIZE in
      if mmio_base s + size' \<ge> MMIOLIM then None
      else do {
        (_, s) \<leftarrow> boot_map_region pse (kern_pgdir s) (mmio_base s) size' pa
                    (PTE_PCD OR PTE_PWT OR PTE_W) s;
        let s = s\<lparr>mmio_base := mmio_base s + size'\<rparr>;
        Some (mmio_base s - size', s)
      })"

text \<open>\<open>stacks i\<close> is the address of \<^verbatim>\<open>percpu_kstacks[i]\<close>, chosen by the linker.\<close>

definition mem_init_mp :: "bool \<Rightarrow> (nat \<Rightarrow> u32) \<Rightarrow> kstate \<Rightarrow> unit kres" where
  "mem_init_mp pse stacks = each (\<lambda>i s. do {
     pa \<leftarrow> PADDR (stacks i);
     boot_map_region pse (kern_pgdir s)
       (KSTACKTOP - KSTKSIZE - of_nat i * (KSTKSIZE + KSTKGAP)) KSTKSIZE pa PTE_W s
   }) [0..<NCPU]"

definition check_va2pa :: "nat \<Rightarrow> u32 \<Rightarrow> kstate \<Rightarrow> u32 option" where
  "check_va2pa pgdir va s =
     (let pde = phys s pgdir (PDX va) in
      if pde AND PTE_P = 0 then Some (NOT 0)
      else if pde AND PTE_PS \<noteq> 0 then Some (PGADDR (PDX pde) (PTX va) (PGOFF va))
      else do {
        p \<leftarrow> KADDR (PTE_ADDR pde) s;
        Some (if phys s p (PTX va) AND PTE_P = 0 then NOT 0 else PTE_ADDR (phys s p (PTX va)))
      })"

subsection \<open>What a kernel page directory maps\<close>

definition kinv :: "kstate \<Rightarrow> nat \<Rightarrow> nat set \<Rightarrow> nat list \<Rightarrow> bool" where
  "kinv s d I xs \<longleftrightarrow> alloc_inv s xs \<and> d < npages s \<and> d \<notin> set xs \<and>
     (\<forall>i \<in> I. \<forall>t. utab s d i = Some t \<longrightarrow> t < npages s \<and> t \<noteq> d \<and> t \<notin> set xs) \<and>
     (\<forall>i \<in> I. \<forall>j \<in> I. \<forall>t. utab s d i = Some t \<longrightarrow> utab s d j = Some t \<longrightarrow> i = j)"

lemma kinvD:
  assumes "kinv s d I xs"
  shows "alloc_inv s xs" "d < npages s" "d \<notin> set xs"
    "\<And>i t. i \<in> I \<Longrightarrow> utab s d i = Some t \<Longrightarrow> t < npages s \<and> t \<noteq> d \<and> t \<notin> set xs"
    "\<And>i j t. i \<in> I \<Longrightarrow> j \<in> I \<Longrightarrow> utab s d i = Some t \<Longrightarrow> utab s d j = Some t \<Longrightarrow> i = j"
  using assms unfolding kinv_def by blast+

lemma kwalk_old:
  assumes k: "kinv s d I xs" and "PDX va \<in> I" "utab s d (PDX va) = Some t"
  shows "pgdir_walk d va True s = Some (Some (t, PTX va), s)"
proof -
  have "PTE_VALID (phys s d (PDX va))" "PGNUM (phys s d (PDX va)) = t"
    using assms(3) by (auto simp: utab_def split: if_splits)
  moreover have "t < npages s" using kinvD(4) [OF k assms(2,3)] by simp
  ultimately show ?thesis by (simp add: pgdir_walk_def KADDR_def)
qed

lemma kwalk_new:
  assumes k: "kinv s d I (t # xs)" and none: "utab s d (PDX va) = None"
  shows "pgdir_walk d va True s = Some (Some (t, PTX va), new_table d (PDX va) t s)"
proof -
  have "t < npages s" "npages s \<le> 1048576"
    using kinvD(1) [OF k] by (auto simp: alloc_inv_def)
  with none show ?thesis
    by (auto simp: pgdir_walk_def utab_def Let_def page_alloc_Cons [OF kinvD(1) [OF k]]
      new_table_def page2kva_Some split: if_splits)
qed

lemma pde_value:
  assumes "t < 1048576"
  shows "PTE_VALID (page2pa t OR (PTE_P OR PTE_W OR PTE_U))"
    "PGNUM (page2pa t OR (PTE_P OR PTE_W OR PTE_U)) = t"
  using PGNUM_or_flags [OF _ assms, of "PTE_P OR PTE_W OR PTE_U"]
  by (simp_all add: PTE_VALID_or PTE_VALID_flag) (simp add: pte_bits)

lemma new_table_kinv:
  assumes k: "kinv s d I (t # xs)" and i: "i \<in> I" and none: "utab s d i = None"
  shows "kinv (new_table d i t s) d I xs"
    "\<And>j. utab (new_table d i t s) d j = (if j = i then Some t else utab s d j)"
    "\<And>v. v div 1024 \<in> I \<Longrightarrow> upte (new_table d i t s) d v = upte s d v"
    "keeps s (new_table d i t s)" "mmio_base (new_table d i t s) = mmio_base s"
proof -
  let ?s = "new_table d i t s"
  have t: "t < npages s" "t \<noteq> d" "d \<notin> set xs" "t \<notin> set xs" "t < 1048576"
    using kinvD(1,3) [OF k] alloc_inv_distinct [OF kinvD(1) [OF k]] by (auto simp: alloc_inv_def)
  show ut: "utab ?s d j = (if j = i then Some t else utab s d j)" for j
    using t(2) pde_value [OF t(5)] by (simp add: utab_def new_table_def)
  show "upte ?s d v = upte s d v" if "v div 1024 \<in> I" for v
  proof (cases "v div 1024 = i")
    case True
    then show ?thesis
      using ut [of i] none t(2) by (simp add: upte_def new_table_def ALLOC_ZERO_def)
  next
    case False
    then show ?thesis
      using ut [of "v div 1024"] kinvD(4) [OF k that]
      by (auto simp: upte_def new_table_def split: option.splits)
  qed
  show "kinv ?s d I xs"
    unfolding kinv_def
  proof (intro conjI ballI allI impI)
    show "alloc_inv ?s xs"
      using take_page_inv [OF kinvD(1) [OF k], of ALLOC_ZERO] t(4)
      by (auto simp: new_table_def alloc_inv_def free_list_def)
    show "d < npages ?s" using kinvD(2) [OF k] by (simp add: new_table_def)
    fix j u assume j: "j \<in> I" and u: "utab ?s d j = Some u"
    then have "u = t \<and> j = i \<or> j \<noteq> i \<and> utab s d j = Some u" by (auto simp: ut split: if_splits)
    then show "u < npages ?s" "u \<noteq> d" "u \<notin> set xs"
      using kinvD(4) [OF k j] t by (auto simp: new_table_def)
    fix j' assume j': "j' \<in> I" and u': "utab ?s d j' = Some u"
    show "j = j'"
      using u u' kinvD(4,5) [OF k] j j' by (auto simp: ut split: if_splits)
  qed (use t in auto)
  show "keeps s ?s" "mmio_base ?s = mmio_base s" by (simp_all add: new_table_def keeps_def take_page_def zero_frame_def Let_def)
qed

lemma kwrite:
  assumes k: "kinv s d I xs" and i: "v div 1024 \<in> I" and t: "utab s d (v div 1024) = Some t"
  shows "kinv (wr_pte (t, v mod 1024) x s) d I xs"
    "\<And>j. utab (wr_pte (t, v mod 1024) x s) d j = utab s d j"
    "\<And>u. u div 1024 \<in> I \<Longrightarrow> upte (wr_pte (t, v mod 1024) x s) d u = (if u = v then x else upte s d u)"
proof -
  let ?s = "wr_pte (t, v mod 1024) x s"
  have td: "t \<noteq> d" using kinvD(4) [OF k i t] by simp
  show ut: "utab ?s d j = utab s d j" for j using td by (simp add: utab_def wr_pte_def)
  show "kinv ?s d I xs"
    using k by (simp add: kinv_def ut) (simp add: wr_pte_def alloc_inv_def free_list_def)
  show "upte ?s d u = (if u = v then x else upte s d u)" if u: "u div 1024 \<in> I" for u
  proof (cases "utab s d (u div 1024) = Some t")
    case True
    then have "u div 1024 = v div 1024" using kinvD(5) [OF k u i _ t] by simp
    then have "u = v \<longleftrightarrow> u mod 1024 = v mod 1024" by (metis div_mult_mod_eq)
    with True show ?thesis by (simp add: upte_def ut) (simp add: wr_pte_def)
  next
    case False
    then have "u \<noteq> v" using t by auto
    with False show ?thesis by (auto simp: upte_def ut split: option.splits) (simp add: wr_pte_def)
  qed
qed

text \<open>The number of page tables still missing for \<open>n\<close> pages from page \<open>i\<close> on.\<close>

definition missing :: "kstate \<Rightarrow> nat \<Rightarrow> nat \<Rightarrow> nat \<Rightarrow> nat" where
  "missing s d i n = card {k. k < 1024 \<and> i div 1024 \<le> k \<and> 1024 * k < i + n \<and> utab s d k = None}"

lemma missing_mono:
  assumes "\<And>k. utab s d k \<noteq> None \<Longrightarrow> utab s' d k \<noteq> None"
  shows "missing s' d (Suc i) n \<le> missing s d i (Suc n)"
proof -
  have "utab s d k = None" if "utab s' d k = None" for k
    using assms [of k] that by (cases "utab s d k") auto
  then show ?thesis
    unfolding missing_def using div_le_mono [of i "Suc i" 1024] by (intro card_mono) auto
qed

lemma missing_less:
  assumes "\<And>k. utab s' d k = (if k = i div 1024 then Some t else utab s d k)"
    "utab s d (i div 1024) = None" "i div 1024 < 1024"
  shows "missing s' d (Suc i) n < missing s d i (Suc n)"
  unfolding missing_def
proof (rule psubset_card_mono)
  let ?A = "{k. k < 1024 \<and> Suc i div 1024 \<le> k \<and> 1024 * k < Suc i + n \<and> utab s' d k = None}"
  let ?B = "{k. k < 1024 \<and> i div 1024 \<le> k \<and> 1024 * k < i + Suc n \<and> utab s d k = None}"
  have "i div 1024 \<in> ?B" using assms(2,3) times_div_less_eq_dividend [of 1024 i] by simp
  moreover have "i div 1024 \<notin> ?A" using assms(1) by simp
  moreover have "?A \<subseteq> ?B" using assms(1,2) div_le_mono [of i "Suc i" 1024] by (auto split: if_splits)
  ultimately show "?A \<subset> ?B" by blast
qed simp


subsection \<open>The loop of boot_map_region\<close>

lemma pg_add: "pg i + of_nat (4096 * j) = pg (i + j)"
  by (simp add: pg_def algebra_simps)

lemma pg_pos: "0 < n \<Longrightarrow> n < 1048576 \<Longrightarrow> 0 < pg n"
  by (simp add: word_less_nat_alt unat_pg)

lemma pg_pred: "pg (Suc n) - PGSIZE = pg n"
  by (simp add: pg_Suc [symmetric])

text \<open>One iteration: a table for the page is found or made, and its entry is written.\<close>

lemma kmap_page:
  assumes k: "kinv s d I xs" and i: "i < 1048576" "i div 1024 \<in> I"
    and mem: "missing s d i (Suc n) \<le> length xs"
  obtains s1 t ys where "pgdir_walk d (pg i) True s = Some (Some (t, i mod 1024), s1)"
    "kinv (wr_pte (t, i mod 1024) x s1) d I ys"
    "missing (wr_pte (t, i mod 1024) x s1) d (Suc i) n \<le> length ys"
    "\<And>v. v div 1024 \<in> I \<Longrightarrow> upte (wr_pte (t, i mod 1024) x s1) d v = (if v = i then x else upte s d v)"
    "keeps s (wr_pte (t, i mod 1024) x s1)" "mmio_base (wr_pte (t, i mod 1024) x s1) = mmio_base s"
proof -
  have pd: "PDX (pg i) = i div 1024" "PTX (pg i) = i mod 1024"
    using vpn_div [of "pg i"] vpn_mod [of "pg i"] pg_page [OF i(1)] by simp_all
  have same: "keeps s (wr_pte p x s')" "mmio_base (wr_pte p x s') = mmio_base s"
    if "keeps s s'" "mmio_base s' = mmio_base s" for p s'
    using that by (simp_all add: wr_pte_def keeps_def)
  show ?thesis
  proof (cases "utab s d (i div 1024)")
    case (Some t)
    note w = kwrite [OF k i(2) Some, where x = x]
    show ?thesis
    proof (rule that [of t s xs])
      show "pgdir_walk d (pg i) True s = Some (Some (t, i mod 1024), s)"
        using kwalk_old [OF k, of "pg i" t] i(2) Some by (simp add: pd)
      show "missing (wr_pte (t, i mod 1024) x s) d (Suc i) n \<le> length xs"
        using missing_mono [of s d "wr_pte (t, i mod 1024) x s" i n] w(2) mem by simp
    qed (use w same [of s] in simp_all)
  next
    case None
    have lt: "i div 1024 < 1024" using i(1) by (simp add: div_less_iff_less_mult)
    have "i div 1024 \<in> {k. k < 1024 \<and> i div 1024 \<le> k \<and> 1024 * k < i + Suc n \<and> utab s d k = None}"
      using lt None times_div_less_eq_dividend [of 1024 i] by simp
    then have "missing s d i (Suc n) \<noteq> 0" unfolding missing_def by (subst card_0_eq) auto
    with mem obtain t ys where xs: "xs = t # ys" by (cases xs) auto
    note k' = k [unfolded xs]
    let ?s = "new_table d (i div 1024) t s"
    note nt = new_table_kinv [OF k' i(2) None]
    have t: "utab ?s d (i div 1024) = Some t" by (simp add: nt(2))
    note w = kwrite [OF nt(1) i(2) t, where x = x]
    show ?thesis
    proof (rule that [of t ?s ys])
      show "pgdir_walk d (pg i) True s = Some (Some (t, i mod 1024), ?s)"
        using kwalk_new [OF k', of "pg i"] None by (simp add: pd)
      have "missing (wr_pte (t, i mod 1024) x ?s) d (Suc i) n < missing s d i (Suc n)"
        by (rule missing_less [OF _ None lt]) (simp add: w(2) nt(2))
      then show "missing (wr_pte (t, i mod 1024) x ?s) d (Suc i) n \<le> length ys"
        using mem xs by simp
    qed (use w nt same [of ?s] in simp_all)
  qed
qed

lemma boot_map_pages:
  assumes "kinv s d I xs" "i + n \<le> 1048576" "n < 1048576" "missing s d i n \<le> length xs"
    "\<And>v. i \<le> v \<Longrightarrow> v < i + n \<Longrightarrow> v div 1024 \<in> I"
  shows "\<exists>s' ys. boot_map_region False d (pg i) (pg n) pa perm s = Some ((), s') \<and>
    kinv s' d I ys \<and> keeps s s' \<and> mmio_base s' = mmio_base s \<and>
    (\<forall>v. v div 1024 \<in> I \<longrightarrow> upte s' d v =
      (if i \<le> v \<and> v < i + n then pa + pg (v - i) OR perm OR PTE_P else upte s d v))"
  using assms
proof (induction n arbitrary: i pa s xs)
  case 0
  show ?case
    by (subst boot_map_region.simps) (use 0 in \<open>auto simp: pg_def\<close>)
next
  case (Suc n)
  let ?x = "pa OR perm OR PTE_P"
  have i: "i < 1048576" "i div 1024 \<in> I" using Suc.prems(2,5) by auto
  obtain s1 t ys where s1: "pgdir_walk d (pg i) True s = Some (Some (t, i mod 1024), s1)"
    "kinv (wr_pte (t, i mod 1024) ?x s1) d I ys"
    "missing (wr_pte (t, i mod 1024) ?x s1) d (Suc i) n \<le> length ys"
    "\<And>v. v div 1024 \<in> I \<Longrightarrow> upte (wr_pte (t, i mod 1024) ?x s1) d v = (if v = i then ?x else upte s d v)"
    "keeps s (wr_pte (t, i mod 1024) ?x s1)" "mmio_base (wr_pte (t, i mod 1024) ?x s1) = mmio_base s"
  proof (rule kmap_page [OF Suc.prems(1) i Suc.prems(4), of ?x])
    fix s1 t ys
    assume a: "pgdir_walk d (pg i) True s = Some (Some (t, i mod 1024), s1)"
      "kinv (wr_pte (t, i mod 1024) ?x s1) d I ys"
      "missing (wr_pte (t, i mod 1024) ?x s1) d (Suc i) n \<le> length ys"
      "\<And>v. v div 1024 \<in> I \<Longrightarrow> upte (wr_pte (t, i mod 1024) ?x s1) d v = (if v = i then ?x else upte s d v)"
      "keeps s (wr_pte (t, i mod 1024) ?x s1)" "mmio_base (wr_pte (t, i mod 1024) ?x s1) = mmio_base s"
    show thesis by (rule that [OF a])
  qed
  let ?s = "wr_pte (t, i mod 1024) ?x s1"
  have "\<exists>s' zs. boot_map_region False d (pg (Suc i)) (pg n) (pa + PGSIZE) perm ?s = Some ((), s') \<and>
    kinv s' d I zs \<and> keeps ?s s' \<and> mmio_base s' = mmio_base ?s \<and>
    (\<forall>v. v div 1024 \<in> I \<longrightarrow> upte s' d v =
      (if Suc i \<le> v \<and> v < Suc i + n then pa + PGSIZE + pg (v - Suc i) OR perm OR PTE_P else upte ?s d v))"
    by (rule Suc.IH [OF s1(2) _ _ s1(3)]) (use Suc.prems in auto)
  then obtain s' zs where s': "boot_map_region False d (pg (Suc i)) (pg n) (pa + PGSIZE) perm ?s = Some ((), s')"
    "kinv s' d I zs" "keeps ?s s'" "mmio_base s' = mmio_base ?s"
    "\<And>v. v div 1024 \<in> I \<Longrightarrow> upte s' d v =
      (if Suc i \<le> v \<and> v < Suc i + n then pa + PGSIZE + pg (v - Suc i) OR perm OR PTE_P else upte ?s d v)"
    by blast
  have run: "boot_map_region False d (pg i) (pg (Suc n)) pa perm s = Some ((), s')"
    by (subst boot_map_region.simps)
      (use pg_pos [of "Suc n"] Suc.prems(3) s1(1) s'(1) in \<open>simp add: pg_Suc pg_pred\<close>)
  have "upte s' d v = (if i \<le> v \<and> v < i + Suc n then pa + pg (v - i) OR perm OR PTE_P else upte s d v)"
    if v: "v div 1024 \<in> I" for v
  proof (cases "Suc i \<le> v")
    case True
    then have "v - i = Suc (v - Suc i)" by simp
    then have e: "pa + PGSIZE + pg (v - Suc i) = pa + pg (v - i)"
      by (simp only: pg_Suc [symmetric] ac_simps)
    have "v \<noteq> i" "i \<le> v" "v < Suc i + n \<longleftrightarrow> v < i + Suc n" using True by auto
    with True show ?thesis by (simp only: s'(5) [OF v] s1(4) [OF v] e simp_thms if_True if_False)
  next
    case False
    with v show ?thesis using s'(5) [OF v] s1(4) [OF v] by (auto simp: pg_def)
  qed
  then show ?case
    by (intro exI [of _ s'] exI [of _ zs] conjI allI impI)
      (simp_all add: run s'(2,4) s1(6) keeps_trans [OF s1(5) s'(3)])
qed

subsection \<open>Static mappings, device memory and kernel stacks\<close>

text \<open>C28: Mapping \<open>n\<close> pages at page \<open>i\<close> with \<open>boot_map_region\<close> returns (the loop ends) when the
  free list holds a page for each page table still missing; afterwards page \<open>i + k\<close> maps physical
  address \<open>pa + 4096 * k\<close> with the given permissions for each \<open>k < n\<close>, every other mapping under
  the directory entries considered is as before, and the free list is well formed.\<close>

theorem boot_map_region_spec:
  assumes "kinv s d I xs" "i + n \<le> 1048576" "n < 1048576" "missing s d i n \<le> length xs"
    "\<And>v. i \<le> v \<Longrightarrow> v < i + n \<Longrightarrow> v div 1024 \<in> I"
  shows "\<exists>s' ys. boot_map_region False d (pg i) (pg n) pa perm s = Some ((), s') \<and>
    kinv s' d I ys \<and> keeps s s' \<and>
    (\<forall>v. v div 1024 \<in> I \<longrightarrow> upte s' d v =
      (if i \<le> v \<and> v < i + n then pa + pg (v - i) OR perm OR PTE_P else upte s d v))"
  using boot_map_pages [OF assms] by blast

text \<open>The page number of \<open>MMIOLIM\<close>, where device mappings end.\<close>

definition MMIOLIM_PG :: nat where "MMIOLIM_PG = 0xEFC00"

lemma MMIOLIM_PG: "MMIOLIM = pg MMIOLIM_PG"
  by (simp add: layout_defs pg_def MMIOLIM_PG_def)

lemma pg_less: "i < 1048576 \<Longrightarrow> j < 1048576 \<Longrightarrow> pg i < pg j \<longleftrightarrow> i < j"
  by (simp add: word_less_nat_alt unat_pg)

text \<open>When the next free device address is page \<open>b\<close> below \<open>MMIOLIM\<close>, \<open>mmio_map_region\<close> of
  \<open>size\<close> bytes panics if the \<open>n\<close> pages they need reach \<open>MMIOLIM\<close>; otherwise it returns page \<open>b\<close>,
  maps the \<open>n\<close> pages from there uncached to the pages from \<open>pa\<close> on, leaves the other mappings
  alone, and moves the next free address to page \<open>b + n\<close>, so that successive regions are disjoint
  and stay below \<open>MMIOLIM\<close>.\<close>

theorem mmio_map_region_spec:
  assumes k: "kinv s (kern_pgdir s) I xs" and b: "mmio_base s = pg b" "b \<le> MMIOLIM_PG"
    and n: "n = (unat sz + 4095) div 4096" "unat sz \<le> 0x10000000"
    and mem: "missing s (kern_pgdir s) b n \<le> length xs"
    and I: "\<And>v. b \<le> v \<Longrightarrow> v < MMIOLIM_PG \<Longrightarrow> v div 1024 \<in> I"
  shows "if MMIOLIM_PG \<le> b + n then mmio_map_region False pa sz s = None
    else \<exists>s' ys. mmio_map_region False pa sz s = Some (pg b, s') \<and> mmio_base s' = pg (b + n) \<and>
      kinv s' (kern_pgdir s) I ys \<and> (\<forall>v. v div 1024 \<in> I \<longrightarrow> upte s' (kern_pgdir s) v =
        (if b \<le> v \<and> v < b + n then pa + pg (v - b) OR (PTE_PCD OR PTE_PWT OR PTE_W) OR PTE_P
         else upte s (kern_pgdir s) v))"
proof -
  have n': "n < 0x10001" using n by linarith
  have up: "ROUNDUP sz PGSIZE = pg n"
    unfolding ROUNDUP_pg using n by (simp add: unat_add_wrap)
  have bn: "b + n < 1048576" using b(2) n' by (simp add: MMIOLIM_PG_def)
  have sum: "pg b + pg n = pg (b + n)" by (simp add: pg_def algebra_simps)
  have d: "pg (b + n) - pg n = pg b" by (simp flip: sum)
  have le: "MMIOLIM \<le> pg (b + n) \<longleftrightarrow> MMIOLIM_PG \<le> b + n"
    using bn unfolding MMIOLIM_PG 
    by (simp add: word_le_nat_alt unat_pg MMIOLIM_PG_def) arith
  show ?thesis
  proof (cases "MMIOLIM_PG \<le> b + n")
    case True
    then show ?thesis by (simp add: mmio_map_region_def up b(1) sum le)
  next
    case False
    have "\<exists>s' ys. boot_map_region False (kern_pgdir s) (pg b) (pg n) pa (PTE_PCD OR PTE_PWT OR PTE_W) s = Some ((), s') \<and>
      kinv s' (kern_pgdir s) I ys \<and> keeps s s' \<and> mmio_base s' = mmio_base s \<and>
      (\<forall>v. v div 1024 \<in> I \<longrightarrow> upte s' (kern_pgdir s) v =
        (if b \<le> v \<and> v < b + n then pa + pg (v - b) OR (PTE_PCD OR PTE_PWT OR PTE_W) OR PTE_P
         else upte s (kern_pgdir s) v))"
      by (rule boot_map_pages [OF k _ _ mem]) (use bn False I in auto)
    then obtain s' ys where s': "boot_map_region False (kern_pgdir s) (pg b) (pg n) pa (PTE_PCD OR PTE_PWT OR PTE_W) s = Some ((), s')"
      "kinv s' (kern_pgdir s) I ys" "mmio_base s' = mmio_base s"
      "\<forall>v. v div 1024 \<in> I \<longrightarrow> upte s' (kern_pgdir s) v =
        (if b \<le> v \<and> v < b + n then pa + pg (v - b) OR (PTE_PCD OR PTE_PWT OR PTE_W) OR PTE_P
         else upte s (kern_pgdir s) v)"
      by blast
    let ?s = "s'\<lparr>mmio_base := pg (b + n)\<rparr>"
    have "mmio_map_region False pa sz s = Some (pg b, ?s)"
      using False s'(1,3) b(1) by (simp add: mmio_map_region_def up sum le d)
    moreover have "kinv ?s (kern_pgdir s) I ys" and "upte ?s = upte s'"
      using s'(2) by (simp_all add: kinv_def alloc_inv_def free_list_def utab_def upte_def fun_eq_iff)
    ultimately show ?thesis using False s'(4) by auto
  qed
qed

text \<open>The first page of the kernel stack of CPU \<open>i\<close>; the eight pages below it are its guard.\<close>

definition kstack_pg :: "nat \<Rightarrow> nat" where
  "kstack_pg i = 0xF0000 - 8 - 16 * i"

lemma kstack_addr: "i < NCPU \<Longrightarrow> KSTACKTOP - KSTKSIZE - of_nat i * (KSTKSIZE + KSTKGAP) = pg (kstack_pg i)"
  by (simp add: layout_defs pg_def kstack_pg_def NCPU_def of_nat_diff)

lemma kstack_bounds: "i < NCPU \<Longrightarrow> 982920 \<le> kstack_pg i \<and> kstack_pg i \<le> 983032"
  unfolding kstack_pg_def NCPU_def by arith

lemma kstack_in:
  assumes "i < NCPU" "kstack_pg i - 8 \<le> v" "v < kstack_pg i + 8" shows "v div 1024 = 959"
proof -
  have "982016 \<le> v" "v < 983040" using kstack_bounds [OF assms(1)] assms(2,3) by linarith+
  then show ?thesis by (intro div_nat_eqI) simp_all
qed

lemma missing_kstack:
  assumes "i < NCPU" shows "missing s d (kstack_pg i) 8 \<le> (if utab s d 959 = None then 1 else 0)"
proof -
  have "k = 959" if "kstack_pg i div 1024 \<le> k" "1024 * k < kstack_pg i + 8" for k
    using that kstack_bounds [OF assms] kstack_in [OF assms, of "kstack_pg i"] by simp
  then have "{k. k < 1024 \<and> kstack_pg i div 1024 \<le> k \<and> 1024 * k < kstack_pg i + 8 \<and> utab s d k = None}
     \<subseteq> (if utab s d 959 = None then {959} else {})" by auto
  then show ?thesis
    unfolding missing_def by (rule order_trans [OF card_mono, rotated]) (auto split: if_splits)
qed

lemma upte_utab: "upte s d v \<noteq> 0 \<Longrightarrow> utab s d (v div 1024) \<noteq> None"
  by (auto simp: upte_def split: option.splits)

text \<open>\<open>mem_init_mp\<close> gives each of the \<open>NCPU\<close> processors its own mapped kernel stack: the
  eight pages of CPU \<open>i\<close> map the physical memory of \<open>percpu_kstacks[i]\<close> writable by the kernel
  only, the eight guard pages below each stack keep the mapping they had (none, at boot), and so
  does every other page in reach of that page table.\<close>

theorem mem_init_mp_spec:
  assumes k: "kinv s (kern_pgdir s) {959} xs" and mem: "xs \<noteq> [] \<or> utab s (kern_pgdir s) 959 \<noteq> None"
    and st: "\<And>i. i < NCPU \<Longrightarrow> KERNBASE \<le> stacks i"
  shows "\<exists>s' ys. mem_init_mp False stacks s = Some ((), s') \<and> kinv s' (kern_pgdir s) {959} ys \<and>
    (\<forall>i < NCPU. \<forall>j < 8. upte s' (kern_pgdir s) (kstack_pg i + j)
       = stacks i - KERNBASE + pg j OR PTE_W OR PTE_P) \<and>
    (\<forall>v. v div 1024 = 959 \<and> (\<forall>i < NCPU. v < kstack_pg i \<or> kstack_pg i + 8 \<le> v) \<longrightarrow>
       upte s' (kern_pgdir s) v = upte s (kern_pgdir s) v) \<and>
    (\<forall>i < NCPU. \<forall>j < 8. upte s' (kern_pgdir s) (kstack_pg i - 8 + j)
       = upte s (kern_pgdir s) (kstack_pg i - 8 + j))"
proof -
  let ?d = "kern_pgdir s"
  define P where "P n s' \<longleftrightarrow> (\<exists>ys. kinv s' ?d {959} ys \<and> (ys \<noteq> [] \<or> utab s' ?d 959 \<noteq> None)) \<and> kern_pgdir s' = ?d \<and>
    (\<forall>i < n. \<forall>j < 8. upte s' ?d (kstack_pg i + j) = stacks i - KERNBASE + pg j OR PTE_W OR PTE_P) \<and>
    (\<forall>v. v div 1024 = 959 \<and> (\<forall>i < n. v < kstack_pg i \<or> kstack_pg i + 8 \<le> v) \<longrightarrow>
       upte s' ?d v = upte s ?d v)" for n s'
  have step: "\<exists>s2. (do { pa \<leftarrow> PADDR (stacks n); boot_map_region False (kern_pgdir s1)
       (KSTACKTOP - KSTKSIZE - of_nat n * (KSTKSIZE + KSTKGAP)) KSTKSIZE pa PTE_W s1 }) = Some ((), s2) \<and> P (Suc n) s2"
    if n: "n < NCPU" and "P n s1" for n s1
  proof -
    note P' = \<open>P n s1\<close> [unfolded P_def]
    then obtain ys where ys: "kinv s1 ?d {959} ys" "ys \<noteq> [] \<or> utab s1 ?d 959 \<noteq> None" by blast
    have m: "missing s1 ?d (kstack_pg n) 8 \<le> length ys"
      using missing_kstack [OF n, of s1 ?d] ys(2) by (cases ys) (auto split: if_splits)
    have p8: "KSTKSIZE = pg 8" by (simp add: layout_defs pg_def)
    have "\<exists>s2 zs. boot_map_region False ?d (pg (kstack_pg n)) (pg 8) (stacks n - KERNBASE) PTE_W s1 = Some ((), s2) \<and>
      kinv s2 ?d {959} zs \<and> keeps s1 s2 \<and> (\<forall>v. v div 1024 \<in> {959} \<longrightarrow> upte s2 ?d v =
        (if kstack_pg n \<le> v \<and> v < kstack_pg n + 8 then stacks n - KERNBASE + pg (v - kstack_pg n) OR PTE_W OR PTE_P
         else upte s1 ?d v))"
      using boot_map_pages [OF ys(1) _ _ m, of "stacks n - KERNBASE" PTE_W] kstack_in [OF n]
      by (fastforce simp: kstack_pg_def)
    then obtain s2 zs where s2: "boot_map_region False ?d (pg (kstack_pg n)) (pg 8) (stacks n - KERNBASE) PTE_W s1 = Some ((), s2)"
      "kinv s2 ?d {959} zs" "keeps s1 s2" "\<And>v. v div 1024 = 959 \<Longrightarrow> upte s2 ?d v =
        (if kstack_pg n \<le> v \<and> v < kstack_pg n + 8 then stacks n - KERNBASE + pg (v - kstack_pg n) OR PTE_W OR PTE_P
         else upte s1 ?d v)"
      by auto
    have run: "PADDR (stacks n) = Some (stacks n - KERNBASE)"
      using st [OF n] by (simp add: PADDR_def not_le not_less)
    have new: "upte s2 ?d (kstack_pg n + j) = stacks n - KERNBASE + pg j OR PTE_W OR PTE_P" if "j < 8" for j
      using s2(4) [of "kstack_pg n + j"] kstack_in [OF n] that by simp
    have old: "upte s2 ?d (kstack_pg i + j) = upte s1 ?d (kstack_pg i + j)" if "i < n" "j < 8" for i j
    proof -
      have "kstack_pg n + 8 \<le> kstack_pg i" using that n by (simp add: kstack_pg_def NCPU_def)
      then show ?thesis
        using s2(4) [of "kstack_pg i + j"] kstack_in [of i "kstack_pg i + j"] that n by simp
    qed
    have "utab s2 ?d 959 \<noteq> None"
    proof -
      have "upte s2 ?d (kstack_pg n + 0) \<noteq> 0"
        using new [of 0] by (metis PTE_VALID_0 PTE_VALID_P or.assoc zero_less_numeral)
      then show ?thesis using upte_utab kstack_in [OF n, of "kstack_pg n + 0"] by fastforce
    qed
    then have "P (Suc n) s2"
      using s2(2,3) P' new old s2(4) unfolding P_def by (auto simp: less_Suc_eq keeps_def)
    then show ?thesis
      using run s2(1) P' kstack_addr [OF n] by (intro exI [of _ s2]) (simp only: bind.bind_lunit p8 simp_thms)
  qed
  have "\<exists>s'. mem_init_mp False stacks s = Some ((), s') \<and> P NCPU s'"
    unfolding mem_init_mp_def
  proof (rule each_upt_inv [where P = P])
    show "P 0 s" unfolding P_def using k mem by auto
  qed (rule step)
  then obtain s' ys where s': "mem_init_mp False stacks s = Some ((), s')" "kinv s' ?d {959} ys" "P NCPU s'"
    unfolding P_def by blast
  have "upte s' ?d (kstack_pg i - 8 + j) = upte s ?d (kstack_pg i - 8 + j)" if "i < NCPU" "j < 8" for i j
  proof -
    have "kstack_pg i - 8 + j < kstack_pg i' \<or> kstack_pg i' + 8 \<le> kstack_pg i - 8 + j" if "i' < NCPU" for i'
      using \<open>i < NCPU\<close> \<open>j < 8\<close> that
      by (cases i i' rule: linorder_cases) (auto simp: kstack_pg_def NCPU_def)
    then show ?thesis using s'(3) [unfolded P_def] kstack_in [OF that(1), of "kstack_pg i - 8 + j"] that by (simp add: kstack_pg_def NCPU_def)
  qed
  with s' show ?thesis unfolding P_def by blast
qed


text \<open>A machine at boot: frame 2 is the empty kernel directory and frame 5 is free.\<close>

definition small_kern :: kstate where
  "small_kern = zero_state\<lparr>npages := 6, kern_pgdir := 2, page_free_list := Some 5,
     mmio_base := MMIOBASE\<rparr>"

lemma small_kern_sel:
  "npages small_kern = 6" "kern_pgdir small_kern = 2" "page_free_list small_kern = Some 5"
  "utab small_kern d i = None" "upte small_kern d v = 0" "mmio_base small_kern = MMIOBASE"
  by (simp_all add: small_kern_def zero_state_def utab_def upte_def)

lemma small_kern_kinv: "kinv small_kern 2 I [5]"
  by (auto simp: kinv_def small_kern_sel alloc_inv_def free_list_def)
    (auto simp: small_kern_def zero_state_def zero_page_def)

lemma small_kern_missing:
  assumes "i div 1024 = a" "i + n \<le> 1024 * Suc a"
  shows "missing small_kern 2 i n \<le> 1"
proof -
  have "{k. k < 1024 \<and> i div 1024 \<le> k \<and> 1024 * k < i + n \<and> utab small_kern 2 k = None} \<subseteq> {a}"
    using assms by auto
  then show ?thesis unfolding missing_def using card_mono [of "{a}"] by fastforce
qed

theorem boot_map_region_spec_witness:
  "\<exists>s'. boot_map_region False 2 (pg 982016) (pg 2) 0x7000 PTE_W small_kern = Some ((), s') \<and>
     upte s' 2 982017 = 0x8003 \<and> upte s' 2 982018 = 0"
proof -
  have in959: "v div 1024 = 959" if "982016 \<le> v" "v < 983040" for v :: nat
    using that by (intro div_nat_eqI) simp_all
  have "\<exists>s' ys. boot_map_region False 2 (pg 982016) (pg 2) 0x7000 PTE_W small_kern = Some ((), s') \<and>
    kinv s' 2 {959} ys \<and> keeps small_kern s' \<and> (\<forall>v. v div 1024 \<in> {959} \<longrightarrow> upte s' 2 v =
      (if 982016 \<le> v \<and> v < 982016 + 2 then 0x7000 + pg (v - 982016) OR PTE_W OR PTE_P else upte small_kern 2 v))"
    by (rule boot_map_region_spec [OF small_kern_kinv [of "{959}"]])
      (use small_kern_missing [of 982016 959 2] in959 in auto)
  then obtain s' where s': "boot_map_region False 2 (pg 982016) (pg 2) 0x7000 PTE_W small_kern = Some ((), s')"
    "\<And>v. v div 1024 = 959 \<Longrightarrow> upte s' 2 v =
      (if 982016 \<le> v \<and> v < 982016 + 2 then 0x7000 + pg (v - 982016) OR PTE_W OR PTE_P else upte small_kern 2 v)"
    by blast
  then show ?thesis
    using s'(2) [of 982017] s'(2) [of 982018] by (auto simp: small_kern_sel pte_bits pg_def)
qed

theorem mmio_map_region_spec_witness:
  "mmio_map_region False 0xFEE00000 0x400000 small_kern = None \<and>
   (\<exists>s'. mmio_map_region False 0xFEE00000 4097 small_kern = Some (MMIOBASE, s') \<and>
     mmio_base s' = MMIOBASE + 0x2000 \<and> upte s' 2 0xEF801 = 0xFEE0101B)"
proof
  have base: "mmio_base small_kern = pg 0xEF800" by (simp add: small_kern_sel layout_defs pg_def)
  have in958: "v div 1024 = 958" if "0xEF800 \<le> v" "v < 0xEFC00" for v :: nat
    using that by (intro div_nat_eqI) simp_all
  note spec = mmio_map_region_spec [OF small_kern_kinv [of "{958}", folded small_kern_sel(2)] base]
  show "mmio_map_region False 0xFEE00000 0x400000 small_kern = None"
    by (rule if_holdsD [OF spec [of 1024 "0x400000" "0xFEE00000"]])
      (use small_kern_missing [of "0xEF800" 958 1024] in958 in \<open>auto simp: MMIOLIM_PG_def small_kern_sel\<close>)
  have "\<exists>s' ys. mmio_map_region False 0xFEE00000 4097 small_kern = Some (pg 0xEF800, s') \<and>
    mmio_base s' = pg (0xEF800 + 2) \<and> kinv s' (kern_pgdir small_kern) {958} ys \<and>
    (\<forall>v. v div 1024 \<in> {958} \<longrightarrow> upte s' (kern_pgdir small_kern) v =
        (if 0xEF800 \<le> v \<and> v < 0xEF800 + 2 then 0xFEE00000 + pg (v - 0xEF800) OR (PTE_PCD OR PTE_PWT OR PTE_W) OR PTE_P
         else upte small_kern (kern_pgdir small_kern) v))"
    by (rule if_notD [OF spec [of 2 4097 "0xFEE00000"]])
      (use small_kern_missing [of "0xEF800" 958 2] in958 in \<open>auto simp: MMIOLIM_PG_def small_kern_sel\<close>)
  then obtain s' where s': "mmio_map_region False 0xFEE00000 4097 small_kern = Some (pg 0xEF800, s')"
    "mmio_base s' = pg (0xEF800 + 2)" "\<And>v. v div 1024 = 958 \<Longrightarrow> upte s' 2 v =
        (if 0xEF800 \<le> v \<and> v < 0xEF800 + 2 then 0xFEE00000 + pg (v - 0xEF800) OR (PTE_PCD OR PTE_PWT OR PTE_W) OR PTE_P
         else 0)"
    unfolding small_kern_sel by blast
  have "MMIOBASE = pg 0xEF800" "MMIOBASE + 0x2000 = pg (0xEF800 + 2)" by (simp_all add: layout_defs pg_def)
  with s'(1,2) s'(3) [of "0xEF801"]
  show "\<exists>s'. mmio_map_region False 0xFEE00000 4097 small_kern = Some (MMIOBASE, s') \<and>
     mmio_base s' = MMIOBASE + 0x2000 \<and> upte s' 2 0xEF801 = 0xFEE0101B"
    by (intro exI [of _ s']) (simp add: pte_bits, simp add: pg_def)
qed

theorem mem_init_mp_spec_witness:
  "\<exists>s'. mem_init_mp False (\<lambda>i. 0xF0200000 + of_nat i * KSTKSIZE) small_kern = Some ((), s') \<and>
     upte s' 2 (kstack_pg 1) = 0x208003 \<and> upte s' 2 (kstack_pg 1 - 8) = 0"
proof -
  let ?st = "\<lambda>i. 0xF0200000 + of_nat i * KSTKSIZE :: u32"
  have st: "KERNBASE \<le> ?st i" if "i < NCPU" for i
  proof -
    have "unat (of_nat i * KSTKSIZE :: u32) = i * 32768"
      using that by (simp add: layout_defs NCPU_def unat_word_ariths unat_of_nat)
    then show ?thesis using that by (simp add: word_le_nat_alt unat_add_wrap layout_defs NCPU_def)
  qed
  from mem_init_mp_spec [OF small_kern_kinv [of "{959}", folded small_kern_sel(2)], of ?st] st
  obtain s' where s': "mem_init_mp False ?st small_kern = Some ((), s')"
    "\<forall>i < NCPU. \<forall>j < 8. upte s' 2 (kstack_pg i + j) = ?st i - KERNBASE + pg j OR PTE_W OR PTE_P"
    "\<forall>i < NCPU. \<forall>j < 8. upte s' 2 (kstack_pg i - 8 + j) = upte small_kern 2 (kstack_pg i - 8 + j)"
    unfolding small_kern_sel(2) by blast
  from s'(2) [rule_format, of 1 0] s'(3) [rule_format, of 1 0]
  have "upte s' 2 (kstack_pg 1) = ?st 1 - KERNBASE + pg 0 OR PTE_W OR PTE_P" "upte s' 2 (kstack_pg 1 - 8) = 0"
    by (simp_all add: NCPU_def small_kern_sel)
  with s'(1) show ?thesis
    by (intro exI [of _ s']) (simp add: pte_bits layout_defs pg_def)
qed

end
