(* ===== verification/BootCheck.thy ===== *)
theory BootCheck
  imports BootMap
begin

text \<open>
  The boot sequence \<^verbatim>\<open>mem_init\<close> and the self-tests it runs: the free-list check, which
  reorders the list in place, the checks of the kernel's mappings and of the page-table
  operations.
\<close>

subsection \<open>check_page_free_list\<close>

text \<open>
  The two output chains are built with pointers to pointers: \<open>tp0\<close> and \<open>tp1\<close> are the places
  where the next low and the next high page is to be linked, \<open>None\<close> for the local variables
  \<^verbatim>\<open>pp1\<close> and \<^verbatim>\<open>pp2\<close> and \<open>Some p\<close> for the link of page \<open>p\<close>.
\<close>

definition store_link :: "nat option \<Rightarrow> nat option \<Rightarrow> nat option \<times> kstate \<Rightarrow> nat option \<times> kstate" where
  "store_link tp v vs = (case tp of
     None \<Rightarrow> (v, snd vs)
   | Some p \<Rightarrow> (fst vs, upd_page p (\<lambda>q. q\<lparr>pp_link := v\<rparr>) (snd vs)))"

partial_function (option) reorder_loop :: "nat \<Rightarrow> nat option \<Rightarrow> nat option \<Rightarrow> nat option \<Rightarrow>
    nat option \<Rightarrow> nat option \<Rightarrow> kstate \<Rightarrow> (nat option \<times> nat option \<times> nat option \<times> nat option \<times> kstate) option" where
  [code]: "reorder_loop pdx_limit pp tp0 tp1 pp1 pp2 s =
     (case pp of
        None \<Rightarrow> Some (tp0, tp1, pp1, pp2, s)
      | Some p \<Rightarrow>
          if PDX (page2pa p) < pdx_limit then
            let (pp1, s) = store_link tp0 (Some p) (pp1, s)
            in reorder_loop pdx_limit (pp_link (pages s p)) (Some p) tp1 pp1 pp2 s
          else
            let (pp2, s) = store_link tp1 (Some p) (pp2, s)
            in reorder_loop pdx_limit (pp_link (pages s p)) tp0 (Some p) pp1 pp2 s)"

definition reorder :: "nat \<Rightarrow> kstate \<Rightarrow> unit kres" where
  "reorder pdx_limit s = do {
     (tp0, tp1, pp1, pp2, s) \<leftarrow> reorder_loop pdx_limit (page_free_list s) None None None None s;
     let (pp2, s) = store_link tp1 None (pp2, s);
     let (pp1, s) = store_link tp0 pp2 (pp1, s);
     Some ((), s\<lparr>page_free_list := pp1\<rparr>)
   }"

text \<open>\<^verbatim>\<open>memset(page2kva(pp), 0x97, 128)\<close>: the first 32 words of the page.\<close>

definition smudge :: "nat \<Rightarrow> kstate \<Rightarrow> kstate" where
  "smudge f s = s\<lparr>phys := (phys s)(f := (\<lambda>i. if i < 32 then 0x97979797 else phys s f i))\<rparr>"

partial_function (option) smudge_loop :: "nat \<Rightarrow> nat option \<Rightarrow> kstate \<Rightarrow> unit kres" where
  [code]: "smudge_loop pdx_limit pp s =
     (case pp of
        None \<Rightarrow> Some ((), s)
      | Some p \<Rightarrow>
          if PDX (page2pa p) < pdx_limit
          then do { kva \<leftarrow> page2kva p s; smudge_loop pdx_limit (pp_link (pages s p)) (smudge kva s) }
          else smudge_loop pdx_limit (pp_link (pages s p)) s)"

partial_function (option) check_free_loop ::
  "u32 \<Rightarrow> nat option \<Rightarrow> nat \<Rightarrow> nat \<Rightarrow> kstate \<Rightarrow> (nat \<times> nat) option" where
  [code]: "check_free_loop first_free_page pp nfree_basemem nfree_extmem s =
     (case pp of
        None \<Rightarrow> Some (nfree_basemem, nfree_extmem)
      | Some p \<Rightarrow> do {
          _ \<leftarrow> assert_ok (p < npages s);
          _ \<leftarrow> assert_ok (page2pa p \<noteq> 0);
          _ \<leftarrow> assert_ok (page2pa p \<noteq> IOPHYSMEM);
          _ \<leftarrow> assert_ok (page2pa p \<noteq> EXTPHYSMEM - PGSIZE);
          _ \<leftarrow> assert_ok (page2pa p \<noteq> EXTPHYSMEM);
          _ \<leftarrow> (if page2pa p < EXTPHYSMEM then Some ()
               else do { kva \<leftarrow> page2kva p s; assert_ok (KERNBASE + page2pa kva \<ge> first_free_page) });
          _ \<leftarrow> assert_ok (page2pa p \<noteq> MPENTRY_PADDR);
          if page2pa p < EXTPHYSMEM
          then check_free_loop first_free_page (pp_link (pages s p)) (Suc nfree_basemem) nfree_extmem s
          else check_free_loop first_free_page (pp_link (pages s p)) nfree_basemem (Suc nfree_extmem) s
        })"

definition check_page_free_list :: "u32 \<Rightarrow> bool \<Rightarrow> kstate \<Rightarrow> unit kres" where
  "check_page_free_list kend only_low_memory s =
     (let pdx_limit = (if only_low_memory then 1 else NPDENTRIES) in do {
        _ \<leftarrow> assert_ok (page_free_list s \<noteq> None);
        (_, s) \<leftarrow> (if only_low_memory then reorder pdx_limit s else Some ((), s));
        (_, s) \<leftarrow> smudge_loop pdx_limit (page_free_list s) s;
        (first_free_page, s) \<leftarrow> boot_alloc kend 0 s;
        (nb, ne) \<leftarrow> check_free_loop first_free_page (page_free_list s) 0 0 s;
        _ \<leftarrow> assert_ok (nb > 0);
        _ \<leftarrow> assert_ok (ne > 0);
        Some ((), s)
      })"

subsection \<open>The reordering is a stable partition\<close>

text \<open>\<open>chain s h t xs\<close>: the list built so far from \<open>h\<close>, whose last cell \<open>t\<close> is still open.\<close>

definition chain :: "kstate \<Rightarrow> nat option \<Rightarrow> nat option \<Rightarrow> nat list \<Rightarrow> bool" where
  "chain s h t xs \<longleftrightarrow> (if xs = [] then t = None else
     t = Some (last xs) \<and> linked (\<lambda>p. if p = last xs then None else pp_link (pages s p)) h xs)"

abbreviation lk :: "kstate \<Rightarrow> nat \<Rightarrow> nat option" where "lk s p \<equiv> pp_link (pages s p)"

lemma linked_snoc:
  assumes "linked (\<lambda>p. if p = last xs then None else f p) h xs" "xs \<noteq> []" "x \<notin> set xs" "distinct xs"
  shows "linked (\<lambda>p. if p = x then None else if p = last xs then Some x else f p) h (xs @ [x])"
  using assms
proof (induction xs arbitrary: h)
  case Nil
  then show ?case by simp
next
  case (Cons y ys)
  show ?case
  proof (cases "ys = []")
    case True
    with Cons.prems show ?thesis by auto
  next
    case False
    then have "linked (\<lambda>p. if p = last ys then None else f p) (f y) ys"
      using Cons.prems by (auto split: if_splits)
    with Cons.IH [of "f y"] Cons.prems False show ?thesis by (auto simp: last_ConsR [OF False] cong: if_cong)
  qed
qed

lemma chain_add:
  assumes "chain s h t xs" "x \<notin> set xs" "distinct xs" "store_link t (Some x) (h, s) = (h', s')"
  shows "chain s' h' (Some x) (xs @ [x])" "page_free_list s' = page_free_list s"
    "\<And>q. q \<notin> set xs \<Longrightarrow> pages s' q = pages s q" "\<And>q. pp_ref (pages s' q) = pp_ref (pages s q)"
    "phys s' = phys s" "npages s' = npages s" "nextfree s' = nextfree s"
proof -
  have l: "linked (\<lambda>p. if p = x then None else if p = last xs then Some x else lk s p) h (xs @ [x])"
    if "xs \<noteq> []"
    using assms(1-3) that by (intro linked_snoc) (auto simp: chain_def)
  show "chain s' h' (Some x) (xs @ [x])"
  proof (cases "xs = []")
    case True
    with assms show ?thesis by (simp add: chain_def store_link_def)
  next
    case False
    then have "t = Some (last xs)" using assms(1) by (simp add: chain_def)
    then have s': "h' = h" "lk s' p = (if p = last xs then Some x else lk s p)" for p
      using assms(4) by (auto simp: store_link_def)
    show ?thesis using l [OF False] by (simp add: chain_def s' cong: if_cong)
  qed
  show "page_free_list s' = page_free_list s"
    "\<And>q. q \<notin> set xs \<Longrightarrow> pages s' q = pages s q" "\<And>q. pp_ref (pages s' q) = pp_ref (pages s q)"
    "phys s' = phys s" "npages s' = npages s" "nextfree s' = nextfree s"
    using assms(1,4) by (auto simp: store_link_def chain_def split: option.splits if_splits)
qed

lemma chain_frame:
  "chain s h t xs \<Longrightarrow> (\<And>q. q \<in> set xs \<Longrightarrow> pages s' q = pages s q) \<Longrightarrow> chain s' h t xs"
  unfolding chain_def by (auto intro: linked_cong [THEN iffD1, rotated])

lemma reorder_loop_chains:
  assumes "linked (lk s) pp zs" "chain s pp1 tp0 xs" "chain s pp2 tp1 ys" "distinct (xs @ ys @ zs)"
  shows "\<exists>h0 h1 t0 t1 s'. reorder_loop lim pp tp0 tp1 pp1 pp2 s = Some (t0, t1, h0, h1, s') \<and>
    chain s' h0 t0 (xs @ filter (\<lambda>p. PDX (page2pa p) < lim) zs) \<and>
    chain s' h1 t1 (ys @ filter (\<lambda>p. \<not> PDX (page2pa p) < lim) zs) \<and>
    (\<forall>q. q \<notin> set xs \<union> set ys \<union> set zs \<longrightarrow> pages s' q = pages s q) \<and>
    (\<forall>q. pp_ref (pages s' q) = pp_ref (pages s q)) \<and> phys s' = phys s \<and> npages s' = npages s \<and>
    nextfree s' = nextfree s"
  using assms
proof (induction zs arbitrary: s pp xs ys tp0 tp1 pp1 pp2)
  case Nil
  then show ?case by (subst reorder_loop.simps) auto
next
  case (Cons z zs)
  show ?case
  proof (cases "PDX (page2pa z) < lim")
    case True
    obtain h s1 where st: "store_link tp0 (Some z) (pp1, s) = (h, s1)" by fastforce
    have add: "chain s1 h (Some z) (xs @ [z])"
      "\<And>q. q \<notin> set xs \<Longrightarrow> pages s1 q = pages s q" "\<And>q. pp_ref (pages s1 q) = pp_ref (pages s q)"
      "phys s1 = phys s" "npages s1 = npages s" "nextfree s1 = nextfree s"
      using chain_add [OF Cons.prems(2) _ _ st] Cons.prems(4) by auto
    have nz: "lk s1 q = lk s q" if "q = z \<or> q \<in> set zs" for q
    proof -
      have "q \<notin> set xs \<and> q \<notin> set ys" using that Cons.prems(4) by (auto simp: disjoint_iff)
      then show ?thesis by (simp add: add(2))
    qed
    have "linked (lk s1) (lk s1 z) zs"
      using Cons.prems(1) nz linked_cong [of zs "lk s1" "lk s" "lk s z"] by simp
    moreover have "chain s1 pp2 tp1 ys"
      by (rule chain_frame [OF Cons.prems(3)]) (use Cons.prems(4) add(2) in auto)
    ultimately show ?thesis
      using Cons.IH [of s1 "lk s1 z" h "Some z" "xs @ [z]" pp2 tp1 ys] add Cons.prems(1,4) True st
      by (subst reorder_loop.simps) auto
  next
    case False
    obtain h s1 where st: "store_link tp1 (Some z) (pp2, s) = (h, s1)" by fastforce
    have add: "chain s1 h (Some z) (ys @ [z])"
      "\<And>q. q \<notin> set ys \<Longrightarrow> pages s1 q = pages s q" "\<And>q. pp_ref (pages s1 q) = pp_ref (pages s q)"
      "phys s1 = phys s" "npages s1 = npages s" "nextfree s1 = nextfree s"
      using chain_add [OF Cons.prems(3) _ _ st] Cons.prems(4) by auto
    have nz: "lk s1 q = lk s q" if "q = z \<or> q \<in> set zs" for q
    proof -
      have "q \<notin> set xs \<and> q \<notin> set ys" using that Cons.prems(4) by (auto simp: disjoint_iff)
      then show ?thesis by (simp add: add(2))
    qed
    have "linked (lk s1) (lk s1 z) zs"
      using Cons.prems(1) nz linked_cong [of zs "lk s1" "lk s" "lk s z"] by simp
    moreover have "chain s1 pp1 tp0 xs"
      by (rule chain_frame [OF Cons.prems(2)]) (use Cons.prems(4) add(2) in auto)
    ultimately show ?thesis
      using Cons.IH [of s1 "lk s1 z" pp1 tp0 xs h "Some z" "ys @ [z]"] add Cons.prems(1,4) False st
      by (subst reorder_loop.simps) auto
  qed
qed


text \<open>The whole reordering: the low pages first, each part in its old order.\<close>

lemma chain_empty: "chain s None None []" by (simp add: chain_def)

lemma linked_app:
  assumes "linked (\<lambda>p. if p = last xs then None else f p) h xs" "distinct (xs @ ys)" "xs \<noteq> []"
    "f (last xs) = k" "linked f k ys"
  shows "linked f h (xs @ ys)"
  using assms
proof (induction xs arbitrary: h)
  case Nil
  then show ?case by simp
next
  case (Cons x xs)
  then show ?case by (cases "xs = []") (auto cong: if_cong split: if_splits)
qed

lemma reorder_ok:
  fixes lim :: nat
  assumes ai: "alloc_inv s xs"
  defines "lo \<equiv> filter (\<lambda>p. PDX (page2pa p) < lim) xs" and "hi \<equiv> filter (\<lambda>p. \<not> PDX (page2pa p) < lim) xs"
  shows "\<exists>s'. reorder lim s = Some ((), s') \<and> alloc_inv s' (lo @ hi) \<and> phys s' = phys s \<and>
    npages s' = npages s \<and> nextfree s' = nextfree s \<and>
    (\<forall>q. q \<notin> set xs \<longrightarrow> pages s' q = pages s q) \<and> (\<forall>q. pp_ref (pages s' q) = pp_ref (pages s q))"
proof -
  have fl: "linked (lk s) (page_free_list s) xs" and dx: "distinct xs"
    using ai alloc_inv_distinct [OF ai] by (auto simp: alloc_inv_def free_list_def)
  obtain h0 h1 t0 t1 s1 where r: "reorder_loop lim (page_free_list s) None None None None s = Some (t0, t1, h0, h1, s1)"
    "chain s1 h0 t0 lo" "chain s1 h1 t1 hi" "\<forall>q. q \<notin> set xs \<longrightarrow> pages s1 q = pages s q"
    "\<forall>q. pp_ref (pages s1 q) = pp_ref (pages s q)" "phys s1 = phys s" "npages s1 = npages s" "nextfree s1 = nextfree s"
    using reorder_loop_chains [OF fl chain_empty chain_empty, of lim] dx by (auto simp: lo_def hi_def)
  obtain k1 s2 where st1: "store_link t1 None (h1, s1) = (k1, s2)" by fastforce
  obtain k0 s3 where st0: "store_link t0 k1 (h0, s2) = (k0, s3)" by fastforce
  have dist: "distinct (lo @ hi)" "set (lo @ hi) = set xs" using dx by (auto simp: lo_def hi_def)
  have l1: "linked (lk s2) k1 hi" and s2: "\<And>q. q \<notin> set hi \<Longrightarrow> pages s2 q = pages s1 q"
  proof -
    show "linked (lk s2) k1 hi"
    proof (cases "hi = []")
      case True
      with r(3) st1 show ?thesis by (simp add: chain_def store_link_def)
    next
      case False
      then have "k1 = h1" "lk s2 p = (if p = last hi then None else lk s1 p)" for p
        using r(3) st1 by (auto simp: chain_def store_link_def)
      then show ?thesis using r(3) False by (simp add: chain_def cong: if_cong)
    qed
    show "pages s2 q = pages s1 q" if "q \<notin> set hi" for q
      using that r(3) st1 by (auto simp: chain_def store_link_def split: if_splits)
  qed
  have l0: "linked (lk s3) k0 (lo @ hi)"
  proof (cases "lo = []")
    case True
    with r(2) st0 l1 show ?thesis by (simp add: chain_def store_link_def)
  next
    case False
    then have k: "k0 = h0" "lk s3 p = (if p = last lo then k1 else lk s2 p)" for p
      using r(2) st0 by (auto simp: chain_def store_link_def)
    have ne: "last lo \<notin> set hi" using False dist(1) last_in_set [OF False] by (auto simp: disjoint_iff)
    show ?thesis
    proof (rule linked_app [OF _ dist(1) False])
      show "linked (\<lambda>p. if p = last lo then None else lk s3 p) k0 lo"
      proof -
        have "pages s2 x = pages s1 x" if "x \<in> set lo" for x
          using that dist(1) by (intro s2) (auto simp: disjoint_iff)
        then have "linked (\<lambda>p. if p = last lo then None else lk s3 p) k0 lo =
           linked (\<lambda>p. if p = last lo then None else lk s1 p) h0 lo"
          unfolding k(1) by (intro linked_cong) (simp add: k(2))
        then show ?thesis using r(2) False by (simp add: chain_def)
      qed
      show "lk s3 (last lo) = k1" by (simp add: k)
      show "linked (lk s3) k1 hi"
        using l1 ne by (subst linked_cong [of hi _ "lk s2"]) (auto simp: k)
    qed
  qed
  let ?s = "s3\<lparr>page_free_list := k0\<rparr>"
  have fr: "q \<notin> set xs \<longrightarrow> pages s3 q = pages s q" "pp_ref (pages s3 q) = pp_ref (pages s q)"
    "phys s3 = phys s" "npages s3 = npages s" "nextfree s3 = nextfree s" for q
    using st0 st1 r dist(2)
    by (auto simp: store_link_def chain_def split: option.splits if_splits)
  have "alloc_inv ?s (lo @ hi)"
    using ai l0 dist(2) fr by (auto simp: alloc_inv_def free_list_def)
  then show ?thesis using r(1) st0 st1 fr by (auto simp: reorder_def)
qed


lemma smudge_loop_ok:
  assumes "linked (lk s) pp zs" "\<And>p. p \<in> set zs \<Longrightarrow> p < npages s" "npages s \<le> 1048576"
  shows "\<exists>ph. smudge_loop lim pp s = Some ((), s\<lparr>phys := ph\<rparr>) \<and> (\<forall>f. f \<notin> set zs \<longrightarrow> ph f = phys s f)"
  using assms
proof (induction zs arbitrary: s pp)
  case Nil
  then show ?case by (subst smudge_loop.simps) (auto intro: exI [of _ "phys s"])
next
  case (Cons z zs)
  show ?case
  proof (cases "PDX (page2pa z) < lim")
    case True
    have "page2kva z s = Some z" using Cons.prems by (simp add: page2kva_Some)
    moreover obtain ph where "smudge_loop lim (lk s z) (smudge z s) = Some ((), (smudge z s)\<lparr>phys := ph\<rparr>)"
      "\<forall>f. f \<notin> set zs \<longrightarrow> ph f = phys (smudge z s) f"
      using Cons.IH [of "smudge z s" "lk s z"] Cons.prems by (auto simp: smudge_def)
    ultimately show ?thesis
      using Cons.prems True by (subst smudge_loop.simps) (auto simp: smudge_def)
  next
    case False
    with Cons.prems Cons.IH [of s "lk s z"] show ?thesis by (subst smudge_loop.simps) auto
  qed
qed

lemma check_free_loop_ok:
  assumes "linked (lk s) pp zs" "\<And>p. p \<in> set zs \<Longrightarrow> p < npages s" "npages s \<le> 65536"
    "\<And>p. p \<in> set zs \<Longrightarrow> page_ok s p" "0xF0101000 \<le> nextfree s"
  shows "check_free_loop (nextfree s) pp a b s =
    Some (a + length (filter (\<lambda>p. page2pa p < EXTPHYSMEM) zs), b + length (filter (\<lambda>p. \<not> page2pa p < EXTPHYSMEM) zs))"
  using assms
proof (induction zs arbitrary: pp a b)
  case Nil
  then show ?case by (subst check_free_loop.simps) simp
next
  case (Cons z zs)
  have z: "z < npages s" "page_ok s z" using Cons.prems(2,4) by auto
  then have z6: "z < 65536" using Cons.prems(3) by simp
  then have u: "unat (page2pa z) = 4096 * z" using z6 by (simp add: unat_page2pa)
  have pad: "unat (nextfree s - KERNBASE) = unat (nextfree s) - unat KERNBASE"
    using Cons.prems(5) by (subst unat_sub) (auto simp: word_le_nat_alt layout_defs)
  have ok: "page2pa z \<noteq> 0" "page2pa z \<noteq> MPENTRY_PADDR" "page2pa z < IOPHYSMEM \<or> nextfree s - KERNBASE \<le> page2pa z"
    using z(2) by (auto simp: page_ok_def not_less)
  then have r: "unat (page2pa z) < 0xA0000 \<or> unat (nextfree s) - 0xF0000000 \<le> unat (page2pa z)"
    by (simp add: word_le_nat_alt word_less_nat_alt pad) (simp add: layout_defs)
  have nf: "0xF0101000 \<le> unat (nextfree s)" using Cons.prems(5) by (simp add: word_le_nat_alt)
  have kv: "KERNBASE + page2pa z \<ge> nextfree s" if "\<not> page2pa z < EXTPHYSMEM"
    using that r u z6 by (simp add: word_le_nat_alt word_less_nat_alt unat_add_wrap layout_defs)
  have ne: "page2pa z \<noteq> IOPHYSMEM" "page2pa z \<noteq> EXTPHYSMEM - PGSIZE" "page2pa z \<noteq> EXTPHYSMEM"
    using r nf by (auto simp: layout_defs)
  have "page2kva z s = Some z" using z Cons.prems(3) by (simp add: page2kva_Some)
  then show ?case
    using Cons z ok ne kv by (subst check_free_loop.simps) (auto simp: assert_ok_def)
qed


text \<open>A machine of 8 MiB with three free pages, one of them above 4 MiB.\<close>

definition small_list :: kstate where
  "small_list = zero_state\<lparr>npages := 2048, nextfree := 0xF0101000, page_free_list := Some 1024,
     pages := (\<lambda>_. zero_page)(1024 := \<lparr>pp_link = Some 2, pp_ref = 0\<rparr>,
       2 := \<lparr>pp_link = Some 257, pp_ref = 0\<rparr>)\<rparr>"

lemma small_list_inv: "alloc_inv small_list [1024, 2, 257]"
  by (auto simp: alloc_inv_def free_list_def small_list_def zero_state_def zero_page_def)


subsection \<open>The other self-tests and mem_init\<close>

definition va2pa_is :: "nat \<Rightarrow> u32 \<Rightarrow> u32 \<Rightarrow> kstate \<Rightarrow> unit option" where
  "va2pa_is pgdir va pa s = do { x \<leftarrow> check_va2pa pgdir va s; assert_ok (x = pa) }"

text \<open>\<^verbatim>\<open>*pgdir_walk(pgdir, va, 0)\<close>; a null pointer faults.\<close>

definition walk_read :: "nat \<Rightarrow> u32 \<Rightarrow> kstate \<Rightarrow> u32 option" where
  "walk_read pgdir va s = (case pgdir_walk pgdir va False s of
     Some (Some p, s) \<Rightarrow> Some (rd_pte p s) | _ \<Rightarrow> None)"

fun all_ok :: "('a \<Rightarrow> unit option) \<Rightarrow> 'a list \<Rightarrow> unit option" where
  "all_ok f [] = Some ()"
| "all_ok f (x # xs) = do { _ \<leftarrow> f x; all_ok f xs }"

definition sizeof_PageInfo :: u32 where "sizeof_PageInfo = 8"
definition sizeof_Env :: u32 where "sizeof_Env = 124"

text \<open>The page offsets \<open>0, PGSIZE, ...\<close> below \<open>n\<close>.\<close>

definition offsets :: "u32 \<Rightarrow> u32 list" where
  "offsets n = map (\<lambda>k. of_nat k * PGSIZE) [0..<(unat n + 4095) div 4096]"

definition check_kern_pgdir :: "u32 \<Rightarrow> u32 \<Rightarrow> (nat \<Rightarrow> u32) \<Rightarrow> kstate \<Rightarrow> unit kres" where
  "check_kern_pgdir pages_va envs_va stacks s = (let pgdir = kern_pgdir s in do {
     pages_pa \<leftarrow> PADDR pages_va;
     _ \<leftarrow> all_ok (\<lambda>i. do {
          _ \<leftarrow> va2pa_is pgdir (UPAGES + i) (pages_pa + i) s;
          pte \<leftarrow> walk_read pgdir (UPAGES + i) s;
          assert_ok (PGOFF pte = PTE_U OR PTE_P) })
        (offsets (ROUNDUP (of_nat (npages s) * sizeof_PageInfo) PGSIZE));
     envs_pa \<leftarrow> PADDR envs_va;
     _ \<leftarrow> all_ok (\<lambda>i. do {
          _ \<leftarrow> va2pa_is pgdir (UENVS + i) (envs_pa + i) s;
          pte \<leftarrow> walk_read pgdir (UENVS + i) s;
          assert_ok (PGOFF pte = PTE_U OR PTE_P) })
        (offsets (ROUNDUP (of_nat NENV * sizeof_Env) PGSIZE));
     _ \<leftarrow> all_ok (\<lambda>i. va2pa_is pgdir (KERNBASE + i) i s) (offsets (of_nat (npages s) * PGSIZE));
     _ \<leftarrow> all_ok (\<lambda>n. let base = KSTACKTOP - (KSTKSIZE + KSTKGAP) * (of_nat n + 1) in do {
          pa \<leftarrow> PADDR (stacks n);
          _ \<leftarrow> all_ok (\<lambda>i. va2pa_is pgdir (base + KSTKGAP + i) (pa + i) s) (offsets KSTKSIZE);
          all_ok (\<lambda>i. va2pa_is pgdir (base + i) (NOT 0) s) (offsets KSTKGAP) })
        [0..<NCPU];
     _ \<leftarrow> all_ok (\<lambda>i. let pde = phys s pgdir i in
          if i \<in> {PDX UVPT, PDX (KSTACKTOP - 1), PDX UPAGES, PDX UENVS, PDX MMIOBASE}
          then assert_ok (pde AND PTE_P \<noteq> 0)
          else if i \<ge> PDX KERNBASE
          then assert_ok (pde AND PTE_P \<noteq> 0 \<and> pde AND PTE_W \<noteq> 0)
          else assert_ok (pde = 0))
        [0..<NPDENTRIES];
     Some ((), s)
   })"

text \<open>The accesses of the last self-test go through the installed page directory.\<close>

definition vread :: "u32 \<Rightarrow> kstate \<Rightarrow> u32 option" where
  "vread va s = do {
     pa \<leftarrow> check_va2pa (kern_pgdir s) va s;
     if pa = NOT 0 then None else Some (phys s (PGNUM pa) (unat (PGOFF va) div 4))
   }"

definition vwrite :: "u32 \<Rightarrow> u32 \<Rightarrow> kstate \<Rightarrow> unit kres" where
  "vwrite va v s = do {
     pa \<leftarrow> check_va2pa (kern_pgdir s) va s;
     if pa = NOT 0 then None else Some ((), set_word (PGNUM pa) (unat (PGOFF va) div 4) v s)
   }"

definition check_page_installed_pgdir :: "nat \<Rightarrow> kstate \<Rightarrow> unit kres" where
  "check_page_installed_pgdir c s = do {
     (pp0, s) \<leftarrow> alloc_or_panic 0 s;
     (pp1, s) \<leftarrow> alloc_or_panic 0 s;
     (pp2, s) \<leftarrow> alloc_or_panic 0 s;
     (_, s) \<leftarrow> page_free pp0 s;
     kva1 \<leftarrow> page2kva pp1 s;
     let s = fill_frame kva1 0x01010101 s;
     kva2 \<leftarrow> page2kva pp2 s;
     let s = fill_frame kva2 0x02020202 s;
     (_, s) \<leftarrow> page_insert c (kern_pgdir s) pp1 PGSIZE PTE_W s;
     _ \<leftarrow> assert_ok (pp_ref (pages s pp1) = 1);
     x \<leftarrow> vread PGSIZE s;
     _ \<leftarrow> assert_ok (x = 0x01010101);
     (_, s) \<leftarrow> page_insert c (kern_pgdir s) pp2 PGSIZE PTE_W s;
     x \<leftarrow> vread PGSIZE s;
     _ \<leftarrow> assert_ok (x = 0x02020202);
     _ \<leftarrow> assert_ok (pp_ref (pages s pp2) = 1);
     _ \<leftarrow> assert_ok (pp_ref (pages s pp1) = 0);
     (_, s) \<leftarrow> vwrite PGSIZE 0x03030303 s;
     kva2 \<leftarrow> page2kva pp2 s;
     _ \<leftarrow> assert_ok (phys s kva2 0 = 0x03030303);
     (_, s) \<leftarrow> page_remove c (kern_pgdir s) PGSIZE s;
     _ \<leftarrow> assert_ok (pp_ref (pages s pp2) = 0);
     _ \<leftarrow> assert_ok (PTE_ADDR (phys s (kern_pgdir s) 0) = page2pa pp0);
     let s = set_word (kern_pgdir s) 0 0 s;
     _ \<leftarrow> assert_ok (pp_ref (pages s pp0) = 1);
     let s = upd_page pp0 (\<lambda>p. p\<lparr>pp_ref := 0\<rparr>) s;
     page_free pp0 s
   }"


definition insert_is :: "bool \<Rightarrow> nat \<Rightarrow> nat \<Rightarrow> u32 \<Rightarrow> u32 \<Rightarrow> kstate \<Rightarrow> unit kres" where
  "insert_is ok c pp va perm s = do {
     (r, s) \<leftarrow> page_insert c (kern_pgdir s) pp va perm s;
     _ \<leftarrow> assert_ok (isl r = (\<not> ok));
     Some ((), s)
   }"

definition no_free_memory :: "kstate \<Rightarrow> unit kres" where
  "no_free_memory s = do { (r, s) \<leftarrow> page_alloc 0 s; _ \<leftarrow> assert_ok (r = None); Some ((), s) }"

definition set_pte :: "nat \<Rightarrow> u32 \<Rightarrow> u32 \<Rightarrow> kstate \<Rightarrow> unit kres" where
  "set_pte pgdir va v s = (case pgdir_walk pgdir va False s of
     Some (Some p, s) \<Rightarrow> Some ((), wr_pte p v s) | _ \<Rightarrow> None)"

text \<open>The part of \<^verbatim>\<open>check_page\<close> on \<open>mmio_map_region\<close>.\<close>

definition check_mmio :: "bool \<Rightarrow> kstate \<Rightarrow> unit kres" where
  "check_mmio pse s = (let kd = kern_pgdir s in do {
     (mm1, s) \<leftarrow> mmio_map_region pse 0 4097 s;
     (mm2, s) \<leftarrow> mmio_map_region pse 0 4096 s;
     _ \<leftarrow> assert_ok (mm1 \<ge> MMIOBASE \<and> mm1 + 8096 < MMIOLIM);
     _ \<leftarrow> assert_ok (mm2 \<ge> MMIOBASE \<and> mm2 + 8096 < MMIOLIM);
     _ \<leftarrow> assert_ok (mm1 mod PGSIZE = 0 \<and> mm2 mod PGSIZE = 0);
     _ \<leftarrow> assert_ok (mm1 + 8096 \<le> mm2);
     _ \<leftarrow> va2pa_is kd mm1 0 s;
     _ \<leftarrow> va2pa_is kd (mm1 + PGSIZE) PGSIZE s;
     _ \<leftarrow> va2pa_is kd mm2 0 s;
     _ \<leftarrow> va2pa_is kd (mm2 + PGSIZE) (NOT 0) s;
     x \<leftarrow> walk_read kd mm1 s;
     _ \<leftarrow> assert_ok (x AND (PTE_W OR PTE_PWT OR PTE_PCD) \<noteq> 0);
     _ \<leftarrow> assert_ok (x AND PTE_U = 0);
     (_, s) \<leftarrow> set_pte kd mm1 0 s;
     (_, s) \<leftarrow> set_pte kd (mm1 + PGSIZE) 0 s;
     set_pte kd mm2 0 s
   })"

definition check_page :: "bool \<Rightarrow> nat \<Rightarrow> kstate \<Rightarrow> unit kres" where
  "check_page pse c s = (let kd = kern_pgdir s in do {
     (pp0, s) \<leftarrow> alloc_or_panic 0 s;
     (pp1, s) \<leftarrow> alloc_or_panic 0 s;
     (pp2, s) \<leftarrow> alloc_or_panic 0 s;
     _ \<leftarrow> assert_ok (pp1 \<noteq> pp0);
     _ \<leftarrow> assert_ok (pp2 \<noteq> pp1 \<and> pp2 \<noteq> pp0);
     let fl = page_free_list s;
     let s = s\<lparr>page_free_list := None\<rparr>;
     (_, s) \<leftarrow> no_free_memory s;
     (r, s) \<leftarrow> page_lookup kd 0 s;
     _ \<leftarrow> assert_ok (r = None);
     (_, s) \<leftarrow> insert_is False c pp1 0 PTE_W s;
     (_, s) \<leftarrow> page_free pp0 s;
     (_, s) \<leftarrow> insert_is True c pp1 0 PTE_W s;
     _ \<leftarrow> assert_ok (PTE_ADDR (phys s kd 0) = page2pa pp0);
     _ \<leftarrow> va2pa_is kd 0 (page2pa pp1) s;
     _ \<leftarrow> assert_ok (pp_ref (pages s pp1) = 1);
     _ \<leftarrow> assert_ok (pp_ref (pages s pp0) = 1);
     (_, s) \<leftarrow> insert_is True c pp2 PGSIZE PTE_W s;
     _ \<leftarrow> va2pa_is kd PGSIZE (page2pa pp2) s;
     _ \<leftarrow> assert_ok (pp_ref (pages s pp2) = 1);
     (_, s) \<leftarrow> no_free_memory s;
     (_, s) \<leftarrow> insert_is True c pp2 PGSIZE PTE_W s;
     _ \<leftarrow> va2pa_is kd PGSIZE (page2pa pp2) s;
     _ \<leftarrow> assert_ok (pp_ref (pages s pp2) = 1);
     (_, s) \<leftarrow> no_free_memory s;
     ptep \<leftarrow> KADDR (PTE_ADDR (phys s kd (PDX PGSIZE))) s;
     (w, s) \<leftarrow> pgdir_walk kd PGSIZE False s;
     _ \<leftarrow> assert_ok (w = Some (ptep, PTX PGSIZE));
     (_, s) \<leftarrow> insert_is True c pp2 PGSIZE (PTE_W OR PTE_U) s;
     _ \<leftarrow> va2pa_is kd PGSIZE (page2pa pp2) s;
     _ \<leftarrow> assert_ok (pp_ref (pages s pp2) = 1);
     x \<leftarrow> walk_read kd PGSIZE s;
     _ \<leftarrow> assert_ok (x AND PTE_U \<noteq> 0);
     _ \<leftarrow> assert_ok (phys s kd 0 AND PTE_U \<noteq> 0);
     (_, s) \<leftarrow> insert_is True c pp2 PGSIZE PTE_W s;
     x \<leftarrow> walk_read kd PGSIZE s;
     _ \<leftarrow> assert_ok (x AND PTE_W \<noteq> 0);
     _ \<leftarrow> assert_ok (x AND PTE_U = 0);
     (_, s) \<leftarrow> insert_is False c pp0 PTSIZE PTE_W s;
     (_, s) \<leftarrow> insert_is True c pp1 PGSIZE PTE_W s;
     x \<leftarrow> walk_read kd PGSIZE s;
     _ \<leftarrow> assert_ok (x AND PTE_U = 0);
     _ \<leftarrow> va2pa_is kd 0 (page2pa pp1) s;
     _ \<leftarrow> va2pa_is kd PGSIZE (page2pa pp1) s;
     _ \<leftarrow> assert_ok (pp_ref (pages s pp1) = 2);
     _ \<leftarrow> assert_ok (pp_ref (pages s pp2) = 0);
     (pp, s) \<leftarrow> alloc_or_panic 0 s;
     _ \<leftarrow> assert_ok (pp = pp2);
     (_, s) \<leftarrow> page_remove c kd 0 s;
     _ \<leftarrow> va2pa_is kd 0 (NOT 0) s;
     _ \<leftarrow> va2pa_is kd PGSIZE (page2pa pp1) s;
     _ \<leftarrow> assert_ok (pp_ref (pages s pp1) = 1);
     _ \<leftarrow> assert_ok (pp_ref (pages s pp2) = 0);
     (_, s) \<leftarrow> insert_is True c pp1 PGSIZE 0 s;
     _ \<leftarrow> assert_ok (pp_ref (pages s pp1) \<noteq> 0);
     _ \<leftarrow> assert_ok (pp_link (pages s pp1) = None);
     (_, s) \<leftarrow> page_remove c kd PGSIZE s;
     _ \<leftarrow> va2pa_is kd 0 (NOT 0) s;
     _ \<leftarrow> va2pa_is kd PGSIZE (NOT 0) s;
     _ \<leftarrow> assert_ok (pp_ref (pages s pp1) = 0);
     _ \<leftarrow> assert_ok (pp_ref (pages s pp2) = 0);
     (pp, s) \<leftarrow> alloc_or_panic 0 s;
     _ \<leftarrow> assert_ok (pp = pp1);
     (_, s) \<leftarrow> no_free_memory s;
     _ \<leftarrow> assert_ok (PTE_ADDR (phys s kd 0) = page2pa pp0);
     let s = set_word kd 0 0 s;
     _ \<leftarrow> assert_ok (pp_ref (pages s pp0) = 1);
     let s = upd_page pp0 (\<lambda>p. p\<lparr>pp_ref := 0\<rparr>) s;
     (_, s) \<leftarrow> page_free pp0 s;
     let va = PGSIZE * of_nat NPDENTRIES + PGSIZE;
     (ptep, s) \<leftarrow> pgdir_walk kd va True s;
     ptep1 \<leftarrow> KADDR (PTE_ADDR (phys s kd (PDX va))) s;
     _ \<leftarrow> assert_ok (ptep = Some (ptep1, PTX va));
     let s = set_word kd (PDX va) 0 s;
     let s = upd_page pp0 (\<lambda>p. p\<lparr>pp_ref := 0\<rparr>) s;
     kva \<leftarrow> page2kva pp0 s;
     let s = fill_frame kva 0xFFFFFFFF s;
     (_, s) \<leftarrow> page_free pp0 s;
     (_, s) \<leftarrow> pgdir_walk kd 0 True s;
     kva \<leftarrow> page2kva pp0 s;
     _ \<leftarrow> all_ok (\<lambda>i. assert_ok (phys s kva i AND PTE_P = 0)) [0..<NPTENTRIES];
     let s = set_word kd 0 0 s;
     let s = upd_page pp0 (\<lambda>p. p\<lparr>pp_ref := 0\<rparr>) s;
     let s = s\<lparr>page_free_list := fl\<rparr>;
     (_, s) \<leftarrow> page_free pp0 s;
     (_, s) \<leftarrow> page_free pp1 s;
     (_, s) \<leftarrow> page_free pp2 s;
     check_mmio pse s
   })"

text \<open>The control register bits that \<^verbatim>\<open>mem_init\<close> turns on and off.\<close>

definition CR0_on :: u32 where "CR0_on = 0x00000001 OR 0x80000000 OR 0x00040000 OR 0x00010000 OR 0x00000020 OR 0x00000002"
definition CR0_off :: u32 where "CR0_off = 0x00000008 OR 0x00000004"

text \<open>
  \<open>rd\<close> reads the clock chip's memory, \<open>kend\<close>, \<open>bootstack\<close> and \<open>stacks\<close> are addresses chosen
  by the linker, \<open>cr0\<close> the value read from the control register; the result is the value
  written back to it.
\<close>

definition mem_init :: "bool \<Rightarrow> (u32 \<Rightarrow> u8) \<Rightarrow> u32 \<Rightarrow> u32 \<Rightarrow> (nat \<Rightarrow> u32) \<Rightarrow> u32 \<Rightarrow> nat \<Rightarrow> kstate \<Rightarrow> u32 kres" where
  "mem_init pse rd kend bootstack stacks cr0 c s = do {
     let s = i386_detect_memory rd s;
     (kd, s) \<leftarrow> boot_alloc kend PGSIZE s;
     let s = s\<lparr>kern_pgdir := PGNUM (kd - KERNBASE)\<rparr>;
     let s = zero_frame (kern_pgdir s) s;
     kd_pa \<leftarrow> PADDR kd;
     let s = set_word (kern_pgdir s) (PDX UVPT) (kd_pa OR PTE_U OR PTE_P) s;
     (pages_va, s) \<leftarrow> boot_alloc kend (sizeof_PageInfo * of_nat (npages s)) s;
     let s = s\<lparr>pages := (\<lambda>_. zero_page)\<rparr>;
     (envs_va, s) \<leftarrow> boot_alloc kend (sizeof_Env * of_nat NENV) s;
     let s = s\<lparr>envs := (\<lambda>_. zero_env)\<rparr>;
     (_, s) \<leftarrow> page_init kend s;
     (_, s) \<leftarrow> check_page_free_list kend True s;
     (_, s) \<leftarrow> check_page_alloc (npages s) s;
     (_, s) \<leftarrow> check_page pse c s;
     pages_pa \<leftarrow> PADDR pages_va;
     (_, s) \<leftarrow> boot_map_region pse (kern_pgdir s) UPAGES PTSIZE pages_pa PTE_U s;
     envs_pa \<leftarrow> PADDR envs_va;
     (_, s) \<leftarrow> boot_map_region pse (kern_pgdir s) UENVS PTSIZE envs_pa PTE_U s;
     stack_pa \<leftarrow> PADDR bootstack;
     (_, s) \<leftarrow> boot_map_region pse (kern_pgdir s) (KSTACKTOP - KSTKSIZE) KSTKSIZE stack_pa PTE_W s;
     (_, s) \<leftarrow> boot_map_region pse (kern_pgdir s) KERNBASE 0x10000000 0 PTE_W s;
     (_, s) \<leftarrow> mem_init_mp pse stacks s;
     (_, s) \<leftarrow> check_kern_pgdir pages_va envs_va stacks s;
     let s = upd_cpu c (\<lambda>p. p\<lparr>cpu_cr3 := page2pa (kern_pgdir s)\<rparr>) s;
     (_, s) \<leftarrow> check_page_free_list kend False s;
     let cr0 = (cr0 OR CR0_on) AND NOT CR0_off;
     (_, s) \<leftarrow> check_page_installed_pgdir c s;
     Some (cr0, s)
   }"

end
