(* ===== verification/Boot.thy ===== *)
theory Boot
  imports Trap BootCheck
begin

text \<open>
  Starting the machine, \<^verbatim>\<open>kern/init.c\<close>: the task segment of each processor, the start of the other processors and
  the sequence of the boot CPU.
\<close>

subsection \<open>Task segments\<close>

definition seg_base :: "Segdesc \<Rightarrow> u32" where
  "seg_base d = ucast (sd_base_15_0 d) OR push_bit 16 (ucast (sd_base_23_16 d)) OR push_bit 24 (ucast (sd_base_31_24 d))"

definition seg_limit :: "Segdesc \<Rightarrow> u32" where
  "seg_limit d = ucast (sd_lim_15_0 d) OR push_bit 16 (ucast (sd_lim_19_16 d))"

lemma seg_base_SEG16: "seg_base (SEG16 t base lim dpl) = base"
proof (rule bit_word_eqI)
  fix n assume n: "n < LENGTH(32)"
  have m: "(0xFFFF :: u32) = mask 16" "(0xFF :: u32) = mask 8" by (simp_all add: mask_eq_exp_minus_1)
  show "bit (seg_base (SEG16 t base lim dpl)) n = bit base n"
    using n by (cases "n < 16"; cases "n < 24") (auto simp: seg_base_def SEG16_def bit_simps m)
qed

text \<open>\<open>trap_init_percpu\<close> on each CPU: the processor enters the kernel at the top of the stack that \<open>mem_init_mp\<close> mapped
  for this CPU, on the kernel data segment; the selector it loads names a descriptor of its own, which is a present 32-bit
  task segment whose scattered base gives back the address of this CPU's task state and whose limit is its size less
  one; no other descriptor changes, so the CPUs do not disturb each other.\<close>

theorem trap_init_percpu_spec:
  assumes n: "cid < NCPU" and g: "length g = length gdt"
  shows "\<exists>ts' g' seg. trap_init_percpu cid addr ts g = Some (ts', g', seg) \<and>
    ts_esp0 ts' = pg (kstack_pg cid) + KSTKSIZE \<and> ts_ss0 ts' = GD_KD \<and> unat seg = 8 * (5 + cid) \<and>
    (let d = g' ! (unat seg div 8) in seg_base d = addr \<and> seg_limit d = 103 \<and> sd_type d = STS_T32A \<and> sd_s d = 0 \<and> sd_p d = 1 \<and> sd_dpl d = 0) \<and>
    length g' = length g \<and> (\<forall>j. j \<noteq> 5 + cid \<longrightarrow> g' ! j = g ! j)"
proof -
  have c: "cid < 8" using n by (simp add: NCPU_def)
  have idx: "unat (drop_bit 3 GD_TSS0 + of_nat cid :: u16) = 5 + cid"
    using c by (simp add: GD_TSS0_def unat_word_ariths unat_of_nat)
  have "unat (push_bit 3 w :: u16) = 8 * unat w" if "unat w < 8192" for w :: u16
    using that by (simp add: push_bit_eq_mult unat_word_ariths(2))
  from this [of "drop_bit 3 GD_TSS0 + of_nat cid"] have seg: "unat (push_bit 3 (drop_bit 3 GD_TSS0 + of_nat cid :: u16)) = 8 * (5 + cid)"
    using c unfolding idx by simp
  have l: "5 + cid < length g" using c g by (simp add: gdt_def NCPU_def)
  have "KSTACKTOP - of_nat cid * (KSTKSIZE + KSTKGAP) = pg (kstack_pg cid) + KSTKSIZE"
    by (simp add: kstack_addr [OF n, symmetric] algebra_simps)
  moreover define d where "d = (SEG16 STS_T32A addr (ucast sizeof_Taskstate - 1) 0)\<lparr>sd_s := 0\<rparr>"
  have "seg_base d = addr" using seg_base_SEG16 [of STS_T32A addr] by (simp add: d_def seg_base_def)
  moreover have "seg_limit d = 103" "sd_type d = STS_T32A \<and> sd_s d = 0 \<and> sd_p d = 1 \<and> sd_dpl d = 0"
    by (simp_all add: d_def seg_limit_def SEG16_def sizeof_Taskstate_def)
  ultimately show ?thesis
    using l by (simp add: trap_init_percpu_def Let_def idx seg d_def [symmetric])
qed

theorem trap_init_percpu_spec_witness:
  "\<exists>ts' g'. trap_init_percpu 3 0xF0271000 ts gdt = Some (ts', g', 0x40) \<and> ts_esp0 ts' = 0xEFFD0000 \<and> seg_base (g' ! 8) = 0xF0271000"
proof -
  have n: "3 < NCPU" by (simp add: NCPU_def)
  obtain ts' g' seg where A: "trap_init_percpu 3 0xF0271000 ts gdt = Some (ts', g', seg)" "ts_esp0 ts' = pg (kstack_pg 3) + KSTKSIZE"
    "unat seg = 64" "seg_base (g' ! (unat seg div 8)) = 0xF0271000"
    using trap_init_percpu_spec [OF n refl, of "0xF0271000" ts] by (auto simp: Let_def)
  have "pg (kstack_pg 3) + KSTKSIZE = 0xEFFD0000" by (simp add: kstack_addr [OF n, symmetric] layout_defs)
  moreover have "seg = 0x40" by (rule unsigned_word_eqI) (use A(3) in simp)
  ultimately show ?thesis using A by simp
qed


subsection \<open>Starting the processors (kern/init.c)\<close>

text \<open>The machine while it boots: the kernel state, the tables of \<^verbatim>\<open>trap_init_percpu\<close>, the variable
  \<^verbatim>\<open>mpentry_kstack\<close>, and the calls of \<^verbatim>\<open>lapic_startap\<close> so far: the CPU, its stack pointer and the physical
  address it starts at.\<close>

record machine =
  ks :: kstate
  tss :: "nat \<Rightarrow> Taskstate"
  gdt_tab :: "Segdesc list"
  mpentry_kstack :: u32
  startups :: "(nat \<times> u32 \<times> u32) list"

text \<open>The first part of \<^verbatim>\<open>mp_main\<close>, up to the exchange that tells \<open>boot_aps\<close> that this CPU is up; \<open>ts c\<close> is the
  address of its task state. The local interrupt controller and the segment registers are not in the model.\<close>

definition mp_setup :: "(nat \<Rightarrow> u32) \<Rightarrow> nat \<Rightarrow> machine \<Rightarrow> machine option" where
  "mp_setup ts c m = do {
     let s = lcr3 c (page2pa (kern_pgdir (ks m))) (ks m);
     (_, s) \<leftarrow> cprintf (ln ''SMP: CPU %d starting'') [VInt (of_nat c)] s;
     (t, g, seg) \<leftarrow> trap_init_percpu c (ts c) (tss m c) (gdt_tab m);
     let s = upd_cpu c (\<lambda>x. x\<lparr>cpu_status := CPU_STARTED\<rparr>) s;
     Some (m\<lparr>ks := s, tss := (tss m)(c := t), gdt_tab := g\<rparr>)
   }"

text \<open>The second part, when the boot CPU releases the lock.\<close>

definition mp_main :: "nat \<Rightarrow> kstate \<Rightarrow> unit ctl kres" where
  "mp_main c s = do { (_, s) \<leftarrow> lock_kernel c s; sched_yield c s }"

text \<open>\<^verbatim>\<open>memmove\<close> into the kernel's view of physical memory.\<close>

fun copy_phys :: "u32 \<Rightarrow> u8 list \<Rightarrow> kstate \<Rightarrow> kstate" where
  "copy_phys pa [] s = s"
| "copy_phys pa (b # bs) s =
     (let f = PGNUM pa; i = unat (PGOFF pa) div 4
      in copy_phys (pa + 1) bs (set_word f i (put_byte (unat pa mod 4) b (phys s f i)) s))"

text \<open>\<open>boot_aps\<close> on the boot CPU \<open>b\<close>. The started CPU runs while the boot CPU waits for it, so its \<open>mp_setup\<close> is a step of the
  loop; \<open>code\<close> is the program of \<^verbatim>\<open>kern/mpentry.S\<close> and \<open>stacks c\<close> the address of \<^verbatim>\<open>percpu_kstacks[c]\<close>.\<close>

fun boot_aps_loop :: "(nat \<Rightarrow> u32) \<Rightarrow> (nat \<Rightarrow> u32) \<Rightarrow> nat \<Rightarrow> nat list \<Rightarrow> machine \<Rightarrow> machine option" where
  "boot_aps_loop stacks ts b [] m = Some m"
| "boot_aps_loop stacks ts b (c # cs) m =
     (if c = b then boot_aps_loop stacks ts b cs m
      else do {
        let m = m\<lparr>mpentry_kstack := stacks c + KSTKSIZE\<rparr>;
        let m = m\<lparr>startups := startups m @ [(c, mpentry_kstack m, MPENTRY_PADDR)]\<rparr>;
        m \<leftarrow> mp_setup ts c m;
        boot_aps_loop stacks ts b cs m
      })"

definition boot_aps :: "u8 list \<Rightarrow> (nat \<Rightarrow> u32) \<Rightarrow> (nat \<Rightarrow> u32) \<Rightarrow> nat \<Rightarrow> nat \<Rightarrow> machine \<Rightarrow> machine option" where
  "boot_aps code stacks ts ncpu b m =
     boot_aps_loop stacks ts b [0..<ncpu] (m\<lparr>ks := copy_phys MPENTRY_PADDR code (ks m)\<rparr>)"

text \<open>The whole start of the kernel on the boot CPU 0, with the programs linked into it. Clearing the zero-initialised
  variables and setting up the interrupt controllers is not in the model.\<close>

definition i386_init :: "bool \<Rightarrow> (nat \<Rightarrow> u16) \<Rightarrow> u8 \<Rightarrow> u8 \<Rightarrow> u8 \<Rightarrow> (u32 \<Rightarrow> u8) \<Rightarrow> u32 \<Rightarrow> u32 \<Rightarrow> (nat \<Rightarrow> u32) \<Rightarrow> (nat \<Rightarrow> u32) \<Rightarrow>
    u32 \<Rightarrow> u8 list \<Rightarrow> nat \<Rightarrow> image \<Rightarrow> image \<Rightarrow> machine \<Rightarrow> (unit ctl \<times> machine) option" where
  "i386_init pse crt hi lo lsr rd kend bootstack stacks ts cr0 code ncpu fs_fs user_icode m = do {
     k \<leftarrow> cons_init crt hi lo lsr (kcons (ks m));
     let s = (ks m)\<lparr>kcons := k\<rparr>;
     (_, s) \<leftarrow> cprintf (ln ''6828 decimal is %o octal!'') [VInt 6828] s;
     (_, s) \<leftarrow> mem_init pse rd kend bootstack stacks cr0 0 s;
     (_, s) \<leftarrow> env_init s;
     (t, g, seg) \<leftarrow> trap_init_percpu 0 (ts 0) (tss m 0) (gdt_tab m);
     (_, s) \<leftarrow> lock_kernel 0 s;
     m \<leftarrow> boot_aps code stacks ts ncpu 0 (m\<lparr>ks := s, tss := (tss m)(0 := t), gdt_tab := g\<rparr>);
     (_, s) \<leftarrow> env_create 0 fs_fs ENV_TYPE_FS (ks m);
     (_, s) \<leftarrow> env_create 0 user_icode ENV_TYPE_USER s;
     k \<leftarrow> kbd_intr (kcons s);
     (r, s) \<leftarrow> sched_yield 0 (s\<lparr>kcons := k\<rparr>);
     Some (r, m\<lparr>ks := s\<rparr>)
   }"


lemma copy_phys_frame: "\<exists>p. copy_phys pa bs s = s\<lparr>phys := p\<rparr>"
proof (induction bs arbitrary: pa s)
  case Nil
  have "s = s\<lparr>phys := phys s\<rparr>" by simp
  then show ?case by (metis copy_phys.simps(1))
next
  case (Cons b bs)
  let ?v = "(phys s)(PGNUM pa := (phys s (PGNUM pa))(unat (PGOFF pa) div 4 :=
    put_byte (unat pa mod 4) b (phys s (PGNUM pa) (unat (PGOFF pa) div 4))))"
  obtain p where "copy_phys (pa + 1) bs (s\<lparr>phys := ?v\<rparr>) = s\<lparr>phys := ?v, phys := p\<rparr>" using Cons.IH by blast
  then have "copy_phys pa (b # bs) s = s\<lparr>phys := p\<rparr>" by (simp add: Let_def set_word_def)
  then show ?case by blast
qed

lemma page_seven: "0x7000 \<le> unat pa \<Longrightarrow> unat pa < 0x8000 \<Longrightarrow> PGNUM pa = 7"
proof -
  assume "0x7000 \<le> unat pa" "unat pa < 0x8000"
  then obtain r where r: "unat pa = r + 4096 * 7" "r < 4096" by (intro that [of "unat pa - 28672"]) simp_all
  have "(r + 4096 * 7) div 4096 = 7 + r div 4096" by (rule div_mult_self2) simp
  then show ?thesis using r by (simp add: PGNUM_nat)
qed

lemma copy_phys_page:
  "0x7000 \<le> unat pa \<Longrightarrow> unat pa + length bs \<le> 0x8000 \<Longrightarrow> f \<noteq> 7 \<Longrightarrow> phys (copy_phys pa bs s) f = phys s f"
proof (induction bs arbitrary: pa s)
  case (Cons b bs)
  have "unat (pa + 1) = unat pa + 1" using Cons.prems(2) by (simp add: unat_word_ariths)
  then show ?case using Cons.IH [of "pa + 1"] Cons.prems page_seven [of pa] by (simp add: Let_def set_word_def)
qed simp

text \<open>What holds of a CPU once its \<open>mp_setup\<close> has run.\<close>

definition cpu_up :: "(nat \<Rightarrow> u32) \<Rightarrow> machine \<Rightarrow> nat \<Rightarrow> bool" where
  "cpu_up ts m c \<longleftrightarrow> cpu_status (cpus (ks m) c) = CPU_STARTED \<and> cpu_cr3 (cpus (ks m) c) = page2pa (kern_pgdir (ks m)) \<and>
     ts_esp0 (tss m c) = pg (kstack_pg c) + KSTKSIZE \<and> ts_ss0 (tss m c) = GD_KD \<and> seg_base (gdt_tab m ! (5 + c)) = ts c"

lemma mp_setup_ok:
  assumes n: "c < NCPU" and g: "length (gdt_tab m) = length gdt"
  shows "\<exists>m' k. mp_setup ts c m = Some m' \<and> cpu_up ts m' c \<and> length (gdt_tab m') = length gdt \<and>
    ks m' = (ks m)\<lparr>kcons := k, cpus := cpus (ks m')\<rparr> \<and> mpentry_kstack m' = mpentry_kstack m \<and> startups m' = startups m \<and>
    (\<forall>c'. cpu_env (cpus (ks m') c') = cpu_env (cpus (ks m) c')) \<and>
    (\<forall>c'. c' \<noteq> c \<longrightarrow> cpus (ks m') c' = cpus (ks m) c' \<and> tss m' c' = tss m c' \<and> gdt_tab m' ! (5 + c') = gdt_tab m ! (5 + c'))"
proof -
  let ?s = "lcr3 c (page2pa (kern_pgdir (ks m))) (ks m)"
  obtain k where k: "cprintf (ln ''SMP: CPU %d starting'') [VInt (of_nat c)] ?s = Some ((), ?s\<lparr>kcons := k\<rparr>)"
    using only_prints_int [of "ln ''SMP: CPU %d starting''" "of_nat c"] by (auto simp: ln_def fmt_simps only_prints_def)
  obtain t g' seg where A: "trap_init_percpu c (ts c) (tss m c) (gdt_tab m) = Some (t, g', seg)"
    "ts_esp0 t = pg (kstack_pg c) + KSTKSIZE \<and> ts_ss0 t = GD_KD" "unat seg = 8 * (5 + c)"
    "seg_base (g' ! (unat seg div 8)) = ts c" "length g' = length gdt" "\<forall>j. j \<noteq> 5 + c \<longrightarrow> g' ! j = gdt_tab m ! j"
    using trap_init_percpu_spec [OF n g, of "ts c" "tss m c"] g by (auto simp: Let_def)
  have "unat seg div 8 = 5 + c" using A(3) by simp
  note A = A(1,2) A(4) [unfolded this] A(5,6)
  define m' where "m' = m\<lparr>ks := upd_cpu c (\<lambda>x. x\<lparr>cpu_status := CPU_STARTED\<rparr>) (?s\<lparr>kcons := k\<rparr>), tss := (tss m)(c := t), gdt_tab := g'\<rparr>"
  have "mp_setup ts c m = Some m'" by (simp add: mp_setup_def k A(1) m'_def)
  moreover have "cpu_up ts m' c" "ks m' = (ks m)\<lparr>kcons := k, cpus := cpus (ks m')\<rparr>"
    using A(2,3) by (simp_all add: cpu_up_def m'_def lcr3_def upd_cpu_def)
  moreover have "length (gdt_tab m') = length gdt" "mpentry_kstack m' = mpentry_kstack m" "startups m' = startups m"
    "\<forall>c'. cpu_env (cpus (ks m') c') = cpu_env (cpus (ks m) c')"
    "\<forall>c'. c' \<noteq> c \<longrightarrow> cpus (ks m') c' = cpus (ks m) c' \<and> tss m' c' = tss m c' \<and> gdt_tab m' ! (5 + c') = gdt_tab m ! (5 + c')"
    using A(4,5) by (simp_all add: m'_def lcr3_def)
  ultimately show ?thesis by blast
qed

lemma boot_aps_loop_ok:
  assumes "set cs \<subseteq> {..<NCPU}" "distinct cs" "length (gdt_tab m) = length gdt"
  shows "\<exists>m' k. boot_aps_loop stacks ts b cs m = Some m' \<and> (\<forall>c \<in> set cs - {b}. cpu_up ts m' c) \<and>
    ks m' = (ks m)\<lparr>kcons := k, cpus := cpus (ks m')\<rparr> \<and>
    startups m' = startups m @ map (\<lambda>c. (c, stacks c + KSTKSIZE, MPENTRY_PADDR)) (filter (\<lambda>c. c \<noteq> b) cs) \<and>
    (\<forall>c'. cpu_env (cpus (ks m') c') = cpu_env (cpus (ks m) c')) \<and>
    (\<forall>c'. c' \<notin> set cs - {b} \<longrightarrow> cpus (ks m') c' = cpus (ks m) c' \<and> tss m' c' = tss m c' \<and> gdt_tab m' ! (5 + c') = gdt_tab m ! (5 + c'))"
  using assms
proof (induction cs arbitrary: m)
  case Nil
  have "ks m = (ks m)\<lparr>kcons := kcons (ks m), cpus := cpus (ks m)\<rparr>" by simp
  then show ?case by (intro exI [of _ m] exI [of _ "kcons (ks m)"]) simp
next
  case (Cons c cs)
  show ?case
  proof (cases "c = b")
    case True
    obtain m' k where "boot_aps_loop stacks ts b cs m = Some m'" "\<forall>c \<in> set cs - {b}. cpu_up ts m' c"
      "ks m' = (ks m)\<lparr>kcons := k, cpus := cpus (ks m')\<rparr>"
      "startups m' = startups m @ map (\<lambda>c. (c, stacks c + KSTKSIZE, MPENTRY_PADDR)) (filter (\<lambda>c. c \<noteq> b) cs)"
      "\<forall>c'. cpu_env (cpus (ks m') c') = cpu_env (cpus (ks m) c')"
      "\<forall>c'. c' \<notin> set cs - {b} \<longrightarrow> cpus (ks m') c' = cpus (ks m) c' \<and> tss m' c' = tss m c' \<and> gdt_tab m' ! (5 + c') = gdt_tab m ! (5 + c')"
      using Cons.IH [of m] Cons.prems by auto
    then show ?thesis using True by (intro exI [of _ m'] exI [of _ k]) simp
  next
    case False
    define m1 where "m1 = m\<lparr>mpentry_kstack := stacks c + KSTKSIZE, startups := startups m @ [(c, stacks c + KSTKSIZE, MPENTRY_PADDR)]\<rparr>"
    have m1: "length (gdt_tab m1) = length gdt" "ks m1 = ks m" "tss m1 = tss m" "gdt_tab m1 = gdt_tab m"
      "startups m1 = startups m @ [(c, stacks c + KSTKSIZE, MPENTRY_PADDR)]"
      using Cons.prems(3) by (simp_all add: m1_def)
    have n: "c < NCPU" using Cons.prems(1) by simp
    obtain m2 k2 where B: "mp_setup ts c m1 = Some m2" "cpu_up ts m2 c" "length (gdt_tab m2) = length gdt"
      "ks m2 = (ks m)\<lparr>kcons := k2, cpus := cpus (ks m2)\<rparr>" "startups m2 = startups m1"
      "\<forall>c'. cpu_env (cpus (ks m2) c') = cpu_env (cpus (ks m) c')"
      "\<forall>c'. c' \<noteq> c \<longrightarrow> cpus (ks m2) c' = cpus (ks m) c' \<and> tss m2 c' = tss m c' \<and> gdt_tab m2 ! (5 + c') = gdt_tab m ! (5 + c')"
      using mp_setup_ok [OF n m1(1), of ts, unfolded m1(2-4)] by blast
    obtain m' k where C: "boot_aps_loop stacks ts b cs m2 = Some m'" "\<forall>c \<in> set cs - {b}. cpu_up ts m' c"
      "ks m' = (ks m2)\<lparr>kcons := k, cpus := cpus (ks m')\<rparr>"
      "startups m' = startups m2 @ map (\<lambda>c. (c, stacks c + KSTKSIZE, MPENTRY_PADDR)) (filter (\<lambda>c. c \<noteq> b) cs)"
      "\<forall>c'. cpu_env (cpus (ks m') c') = cpu_env (cpus (ks m2) c')"
      "\<forall>c'. c' \<notin> set cs - {b} \<longrightarrow> cpus (ks m') c' = cpus (ks m2) c' \<and> tss m' c' = tss m2 c' \<and> gdt_tab m' ! (5 + c') = gdt_tab m2 ! (5 + c')"
      using Cons.IH [of m2] Cons.prems B(3) by auto
    have run: "boot_aps_loop stacks ts b (c # cs) m = Some m'"
      using False B(1) C(1) by (simp add: m1_def)
    have kp: "kern_pgdir (ks m') = kern_pgdir (ks m2)" by (subst C(3)) simp
    have cn: "c \<notin> set cs - {b}" using Cons.prems(2) by auto
    have "cpu_up ts m' c" using B(2) C(6) [rule_format, OF cn] unfolding cpu_up_def kp by simp
    then have up: "\<forall>c \<in> set (c # cs) - {b}. cpu_up ts m' c" using C(2) by auto
    have k: "ks m' = (ks m)\<lparr>kcons := k, cpus := cpus (ks m')\<rparr>" by (subst C(3), subst B(4)) simp
    show ?thesis
      by (intro exI [of _ m'] exI [of _ k] conjI run up k) (use False B(5-7) C(4-6) m1(5) in auto)
  qed
qed



end
