(* ===== verification/Spinlock.thy ===== *)
theory Spinlock
  imports Env
begin

text \<open>
  The spin lock of \<^verbatim>\<open>kern/spinlock.c\<close> (with \<^verbatim>\<open>DEBUG_SPINLOCK\<close>), run by several processors whose memory accesses
  interleave in any order. The other theories see the kernel lock as a field of the state that one CPU sets and
  clears at once; the last theorem here says that the code implements this.
\<close>

subsection \<open>The lock\<close>

record spinlock =
  locked :: u32
  lk_name :: string
  lk_cpu :: "nat option"
  lk_pcs :: "u32 list"

text \<open>\<open>mem\<close> gives the words in kernel memory: a saved frame pointer has the return address above it.\<close>

fun caller_pcs :: "(u32 \<Rightarrow> u32) \<Rightarrow> nat \<Rightarrow> u32 \<Rightarrow> u32 list" where
  "caller_pcs mem 0 ebp = []"
| "caller_pcs mem (Suc n) ebp =
     (if ebp = 0 \<or> ebp < ULIM then replicate (Suc n) 0
      else mem (ebp + 4) # caller_pcs mem n (mem ebp))"

definition get_caller_pcs :: "(u32 \<Rightarrow> u32) \<Rightarrow> u32 \<Rightarrow> u32 list" where
  "get_caller_pcs mem ebp = caller_pcs mem 10 ebp"

lemma length_caller_pcs [simp]: "length (caller_pcs mem n ebp) = n"
  by (induction n arbitrary: ebp) auto

definition holding :: "nat \<Rightarrow> spinlock \<Rightarrow> bool" where
  "holding c lk \<longleftrightarrow> locked lk \<noteq> 0 \<and> lk_cpu lk = Some c"

definition spin_initlock :: "string \<Rightarrow> spinlock \<Rightarrow> spinlock" where
  "spin_initlock name lk = lk\<lparr>locked := 0, lk_name := name, lk_cpu := None\<rparr>"

definition kernel_lock :: spinlock where
  "kernel_lock = \<lparr>locked = 0, lk_name = ''kernel_lock'', lk_cpu = None, lk_pcs = replicate 10 0\<rparr>"

text \<open>The atomic exchange instruction (\<^verbatim>\<open>inc/x86.h\<close>) on the lock word: the old value and the new lock.\<close>

definition xchg :: "u32 \<Rightarrow> spinlock \<Rightarrow> u32 \<times> spinlock" where
  "xchg v lk = (locked lk, lk\<lparr>locked := v\<rparr>)"

subsection \<open>One access at a time\<close>

text \<open>Where a processor is: outside, at one of the accesses of \<open>spin_lock\<close>, between the two calls, at one of the
  accesses of \<open>spin_unlock\<close>, or stopped by a panic. \<open>holding\<close> reads the lock word first and the CPU next.\<close>

datatype place = Outside | LockReadCpu | LockXchg | LockSetCpu | LockSetPcs | Inside
  | UnlockReadCpu | UnlockPcs | UnlockCpu | UnlockXchg | Panicked

fun spin_lock :: "nat \<Rightarrow> u32 list \<Rightarrow> place \<Rightarrow> spinlock \<Rightarrow> place \<times> spinlock" where
  "spin_lock c stack Outside lk = (if locked lk = 0 then LockXchg else LockReadCpu, lk)"
| "spin_lock c stack LockReadCpu lk = (if lk_cpu lk = Some c then Panicked else LockXchg, lk)"
| "spin_lock c stack LockXchg lk = (let (old, lk) = xchg 1 lk in (if old \<noteq> 0 then LockXchg else LockSetCpu, lk))"
| "spin_lock c stack LockSetCpu lk = (LockSetPcs, lk\<lparr>lk_cpu := Some c\<rparr>)"
| "spin_lock c stack LockSetPcs lk = (Inside, lk\<lparr>lk_pcs := stack\<rparr>)"
| "spin_lock c stack p lk = (p, lk)"

fun spin_unlock :: "nat \<Rightarrow> place \<Rightarrow> spinlock \<Rightarrow> place \<times> spinlock" where
  "spin_unlock c Inside lk = (if locked lk = 0 then Panicked else UnlockReadCpu, lk)"
| "spin_unlock c UnlockReadCpu lk = (if lk_cpu lk = Some c then UnlockPcs else Panicked, lk)"
| "spin_unlock c UnlockPcs lk = (UnlockCpu, lk\<lparr>lk_pcs := (lk_pcs lk)[0 := 0]\<rparr>)"
| "spin_unlock c UnlockCpu lk = (UnlockXchg, lk\<lparr>lk_cpu := None\<rparr>)"
| "spin_unlock c UnlockXchg lk = (Outside, snd (xchg 0 lk))"
| "spin_unlock c p lk = (p, lk)"

text \<open>A system of processors: the place of each and the lock. The program of each takes and releases the lock again
  and again, which is all the kernel does with it.\<close>

type_synonym sys = "(nat \<Rightarrow> place) \<times> spinlock"

definition in_lock :: "place \<Rightarrow> bool" where
  "in_lock p \<longleftrightarrow> p \<in> {Outside, LockReadCpu, LockXchg, LockSetCpu, LockSetPcs}"

inductive lock_step :: "sys \<Rightarrow> sys \<Rightarrow> bool" where
  locking: "in_lock (ps c) \<Longrightarrow> spin_lock c (get_caller_pcs mem ebp) (ps c) lk = (p, lk') \<Longrightarrow> lock_step (ps, lk) (ps(c := p), lk')"
| unlocking: "\<not> in_lock (ps c) \<Longrightarrow> spin_unlock c (ps c) lk = (p, lk') \<Longrightarrow> lock_step (ps, lk) (ps(c := p), lk')"

inductive_cases lock_stepE: "lock_step (ps, lk) t"

inductive reachable :: "sys \<Rightarrow> bool" where
  start: "reachable (\<lambda>_. Outside, kernel_lock)"
| step: "reachable s \<Longrightarrow> lock_step s t \<Longrightarrow> reachable t"

subsection \<open>Mutual exclusion\<close>

definition owns :: "place \<Rightarrow> bool" where
  "owns p \<longleftrightarrow> p \<in> {LockSetCpu, LockSetPcs, Inside, UnlockReadCpu, UnlockPcs, UnlockCpu, UnlockXchg}"

definition marked :: "place \<Rightarrow> bool" where
  "marked p \<longleftrightarrow> p \<in> {LockSetPcs, Inside, UnlockReadCpu, UnlockPcs, UnlockCpu}"

definition lock_inv :: "sys \<Rightarrow> bool" where
  "lock_inv s \<longleftrightarrow> (case s of (ps, lk) \<Rightarrow>
     (\<forall>c. ps c \<noteq> Panicked) \<and> (\<forall>c c'. owns (ps c) \<and> owns (ps c') \<longrightarrow> c = c') \<and>
     locked lk \<in> {0, 1} \<and> (locked lk = 1 \<longleftrightarrow> (\<exists>c. owns (ps c))) \<and>
     (\<forall>c. lk_cpu lk = Some c \<longleftrightarrow> marked (ps c)) \<and> length (lk_pcs lk) = 10)"

lemmas place_defs = in_lock_def owns_def marked_def

lemma place_eval [simp]:
  "owns Outside = False" "owns LockReadCpu = False" "owns LockXchg = False" "owns LockSetCpu = True" "owns LockSetPcs = True"
  "owns Inside = True" "owns UnlockReadCpu = True" "owns UnlockPcs = True" "owns UnlockCpu = True" "owns UnlockXchg = True"
  "owns Panicked = False"
  "marked Outside = False" "marked LockReadCpu = False" "marked LockXchg = False" "marked LockSetCpu = False" "marked LockSetPcs = True"
  "marked Inside = True" "marked UnlockReadCpu = True" "marked UnlockPcs = True" "marked UnlockCpu = True" "marked UnlockXchg = False"
  "marked Panicked = False"
  by (simp_all add: place_defs)

lemma lock_inv_start: "lock_inv (\<lambda>_. Outside, kernel_lock)"
  by (simp add: lock_inv_def kernel_lock_def place_defs)

lemma marked_owns: "marked p \<Longrightarrow> owns p"
  by (auto simp: place_defs)

lemma lock_invD:
  assumes "lock_inv (ps, lk)"
  shows "ps c \<noteq> Panicked" "owns (ps c) \<Longrightarrow> owns (ps c') \<Longrightarrow> c = c'" "locked lk = 0 \<or> locked lk = 1"
    "locked lk = 1 \<longleftrightarrow> (\<exists>c. owns (ps c))" "lk_cpu lk = Some c \<longleftrightarrow> marked (ps c)" "length (lk_pcs lk) = 10"
  using assms unfolding lock_inv_def by blast+

lemma lock_inv_upd:
  assumes i: "lock_inv (ps, lk)" and p: "p \<noteq> Panicked" and l: "length (lk_pcs lk') = 10"
    and ow: "owns p = owns (ps c)" "locked lk' = locked lk" and m: "\<And>c'. lk_cpu lk' = Some c' \<longleftrightarrow> (if c' = c then marked p else marked (ps c'))"
  shows "lock_inv (ps(c := p), lk')"
proof -
  have own: "owns ((ps(c := p)) c') = owns (ps c')" for c' using ow(1) by simp
  have "(ps(c := p)) c' \<noteq> Panicked" for c' using p lock_invD(1) [OF i, of c'] by simp
  moreover have "lk_cpu lk' = Some c' \<longleftrightarrow> marked ((ps(c := p)) c')" for c' using m [of c'] by simp
  ultimately show ?thesis
    using lock_invD(2-4) [OF i] l unfolding lock_inv_def prod.case own ow(2) by blast
qed

lemma unmarked: "lock_inv (ps, lk) \<Longrightarrow> owns (ps c) \<Longrightarrow> \<not> marked (ps c) \<Longrightarrow> lk_cpu lk = None"
  using lock_invD(5) [of ps lk] lock_invD(2) [of ps lk c] marked_owns by (metis not_Some_eq)

lemma lock_inv_take:
  assumes i: "lock_inv (ps, lk)" and p: "ps c = LockXchg" "locked lk = 0"
  shows "lock_inv (ps(c := LockSetCpu), lk\<lparr>locked := 1\<rparr>)"
proof -
  have no: "\<not> owns (ps c')" for c' using lock_invD(4) [OF i] p(2) by auto
  have ow: "owns ((ps(c := LockSetCpu)) c') \<longleftrightarrow> c' = c" for c' using no by (simp add: owns_def)
  have "lk_cpu lk = Some c' \<longleftrightarrow> marked ((ps(c := LockSetCpu)) c')" for c'
    using lock_invD(5) [OF i, of c'] p(1) by (simp add: marked_def)
  moreover have "(ps(c := LockSetCpu)) c' \<noteq> Panicked" for c' using lock_invD(1) [OF i, of c'] by simp
  ultimately show ?thesis using lock_invD(6) [OF i] unfolding lock_inv_def prod.case ow by simp
qed

lemma lock_inv_drop:
  assumes i: "lock_inv (ps, lk)" and p: "ps c = UnlockXchg"
  shows "lock_inv (ps(c := Outside), lk\<lparr>locked := 0\<rparr>)"
proof -
  have oc: "owns (ps c)" "\<not> marked (ps c)" using p by (simp_all add: place_defs)
  have "\<not> owns Outside" by (simp add: owns_def)
  then have ow: "\<not> owns ((ps(c := Outside)) c')" for c' using lock_invD(2) [OF i oc(1), of c'] by auto
  have "\<not> marked ((ps(c := Outside)) c')" for c' using ow [of c'] marked_owns by blast
  moreover have "(ps(c := Outside)) c' \<noteq> Panicked" for c' using lock_invD(1) [OF i, of c'] by simp
  ultimately show ?thesis using lock_invD(6) [OF i] unmarked [OF i oc] ow unfolding lock_inv_def prod.case by simp
qed

lemma lock_inv_same:
  assumes i: "lock_inv (ps, lk)" and p: "p \<noteq> Panicked" "owns p = owns (ps c)" "marked p = marked (ps c)"
    and l: "length (lk_pcs lk') = 10" "locked lk' = locked lk" "lk_cpu lk' = lk_cpu lk"
  shows "lock_inv (ps(c := p), lk')"
  by (rule lock_inv_upd [OF i p(1) l(1) p(2) l(2)]) (use lock_invD(5) [OF i] p(3) l(3) in simp)

lemma lock_inv_locking:
  assumes i: "lock_inv (ps, lk)" and p: "in_lock (ps c)" and s: "spin_lock c stack (ps c) lk = (p, lk')" and l: "length stack = 10"
  shows "lock_inv (ps(c := p), lk')"
proof (cases "ps c")
  case LockXchg
  show ?thesis
  proof (cases "locked lk = 0")
    case True
    then show ?thesis using s lock_inv_take [OF i LockXchg] LockXchg by (auto simp: xchg_def)
  next
    case False
    then have "lk\<lparr>locked := 1\<rparr> = lk" using lock_invD(3) [OF i] by simp
    then show ?thesis using s False LockXchg i by (auto simp: xchg_def fun_upd_idem)
  qed
next
  case LockReadCpu
  then have "lk_cpu lk \<noteq> Some c" using lock_invD(5) [OF i, of c] by simp
  then show ?thesis using s LockReadCpu lock_invD(6) [OF i] by (intro lock_inv_same [OF i]) auto
next
  case LockSetCpu
  then have "lk_cpu lk = None" by (intro unmarked [OF i, of c]) simp_all
  then have "\<not> marked (ps c')" for c' using lock_invD(5) [OF i, of c'] by simp
  moreover have "p = LockSetPcs" "lk' = lk\<lparr>lk_cpu := Some c\<rparr>" using s LockSetCpu by auto
  ultimately show ?thesis using LockSetCpu lock_invD(6) [OF i] by (intro lock_inv_upd [OF i]) auto
next
  case Outside
  then have "p = (if locked lk = 0 then LockXchg else LockReadCpu)" "lk' = lk" using s by auto
  then show ?thesis using Outside lock_invD(6) [OF i] by (intro lock_inv_same [OF i]) auto
next
  case LockSetPcs
  then show ?thesis using s l by (intro lock_inv_same [OF i]) auto
qed (use p in \<open>simp_all add: in_lock_def\<close>)

lemma lock_inv_unlocking:
  assumes i: "lock_inv (ps, lk)" and p: "\<not> in_lock (ps c)" and s: "spin_unlock c (ps c) lk = (p, lk')"
  shows "lock_inv (ps(c := p), lk')"
proof (cases "ps c")
  case UnlockXchg
  then show ?thesis using s lock_inv_drop [OF i UnlockXchg] by (simp add: xchg_def)
next
  case Inside
  then have "locked lk = 1" using lock_invD(4) [OF i] by (metis place_eval(6))
  then have "p = UnlockReadCpu" "lk' = lk" using s Inside by auto
  then show ?thesis using Inside lock_invD(6) [OF i] by (intro lock_inv_same [OF i]) auto
next
  case UnlockReadCpu
  then have "lk_cpu lk = Some c" using lock_invD(5) [OF i, of c] by simp
  then have "p = UnlockPcs" "lk' = lk" using s UnlockReadCpu by auto
  then show ?thesis using UnlockReadCpu lock_invD(6) [OF i] by (intro lock_inv_same [OF i]) auto
next
  case UnlockCpu
  then have m: "marked (ps c') \<Longrightarrow> c' = c" for c'
    using lock_invD(2) [OF i, of c c'] marked_owns [of "ps c'"] by simp
  have "p = UnlockXchg" "lk' = lk\<lparr>lk_cpu := None\<rparr>" using s UnlockCpu by auto
  then show ?thesis using UnlockCpu lock_invD(6) [OF i] m by (intro lock_inv_upd [OF i]) auto
next
  case UnlockPcs
  then have "p = UnlockCpu" "lk' = lk\<lparr>lk_pcs := (lk_pcs lk)[0 := 0]\<rparr>" using s by auto
  then show ?thesis using UnlockPcs lock_invD(6) [OF i] by (intro lock_inv_same [OF i]) auto
qed (use p lock_invD(1) [OF i, of c] in \<open>simp_all add: in_lock_def\<close>)

lemma lock_inv_step: "lock_step s t \<Longrightarrow> lock_inv s \<Longrightarrow> lock_inv t"
  by (induction rule: lock_step.induct) (auto intro: lock_inv_locking lock_inv_unlocking simp: get_caller_pcs_def)

lemma reachable_lock_inv: "reachable s \<Longrightarrow> lock_inv s"
  by (induction rule: reachable.induct) (auto intro: lock_inv_start lock_inv_step)

subsection \<open>What the lock promises\<close>

definition own_step :: "nat \<Rightarrow> u32 list \<Rightarrow> place \<Rightarrow> spinlock \<Rightarrow> place \<times> spinlock" where
  "own_step c stack p lk = (if in_lock p then spin_lock c stack p lk else spin_unlock c p lk)"

text \<open>How many accesses a processor still makes before it has given the lock back.\<close>

definition accesses_left :: "place \<Rightarrow> nat" where
  "accesses_left p = (case p of LockSetCpu \<Rightarrow> 7 | LockSetPcs \<Rightarrow> 6 | Inside \<Rightarrow> 5 | UnlockReadCpu \<Rightarrow> 4 | UnlockPcs \<Rightarrow> 3
     | UnlockCpu \<Rightarrow> 2 | UnlockXchg \<Rightarrow> 1 | _ \<Rightarrow> 0)"

lemma owner_advances:
  assumes i: "lock_inv (ps, lk)" and o: "owns (ps c)" and s: "own_step c stack (ps c) lk = (p, lk')"
  shows "accesses_left (ps c) = Suc (accesses_left p)"
proof -
  have l: "locked lk = 1" using lock_invD(4) [OF i] o by blast
  have m: "lk_cpu lk = Some c" if "marked (ps c)" using that lock_invD(5) [OF i] by blast
  show ?thesis
    using o s l m by (cases "ps c") (auto simp: own_step_def in_lock_def accesses_left_def xchg_def)
qed

text \<open>C35: Mutual exclusion, for any number of processors whose accesses to the lock interleave in any order: at most
  one of them is past the exchange of \<open>spin_lock\<close> and before the one of \<open>spin_unlock\<close>, the lock word is 0 exactly when
  there is none, and the two debugging checks (already holding, not holding) never make a processor panic. Nobody
  is stuck either: an owner gives the lock back after at most seven accesses of its own, and the next exchange of a
  processor that waits for a free lock takes it.\<close>

theorem spin_lock_excludes:
  assumes r: "reachable (ps, lk)"
  shows "(\<forall>c c'. owns (ps c) \<and> owns (ps c') \<longrightarrow> c = c') \<and> (locked lk = 0 \<longleftrightarrow> (\<forall>c. \<not> owns (ps c))) \<and> (\<forall>c. ps c \<noteq> Panicked) \<and>
    (\<forall>c stack. owns (ps c) \<longrightarrow> accesses_left (ps c) = Suc (accesses_left (fst (own_step c stack (ps c) lk))) \<and> accesses_left (ps c) \<le> 7) \<and>
    (\<forall>c stack. locked lk = 0 \<and> ps c = LockXchg \<longrightarrow> own_step c stack (ps c) lk = (LockSetCpu, lk\<lparr>locked := 1\<rparr>))"
proof -
  note i = reachable_lock_inv [OF r]
  have "accesses_left (ps c) \<le> 7" for c by (simp add: accesses_left_def split: place.splits)
  moreover have "locked lk = 0 \<longleftrightarrow> (\<forall>c. \<not> owns (ps c))" using lock_invD(3,4) [OF i] by auto
  moreover have "own_step c stack LockXchg lk = (LockSetCpu, lk\<lparr>locked := 1\<rparr>)" if "locked lk = 0" for c stack
    using that by (simp add: own_step_def in_lock_def xchg_def)
  ultimately show ?thesis
    using lock_invD(1,2) [OF i] owner_advances [OF i] by (metis prod.collapse)
qed

text \<open>The abstract lock of the kernel state: which CPU has it.\<close>

definition lock_rel :: "sys \<Rightarrow> nat option \<Rightarrow> bool" where
  "lock_rel s k \<longleftrightarrow> (\<forall>c. k = Some c \<longleftrightarrow> owns (fst s c))"

lemma lock_rel_None: "lock_rel (ps, lk) None \<longleftrightarrow> (\<forall>c. \<not> owns (ps c))"
  by (simp add: lock_rel_def)

lemma acquire_step:
  "own_step c stack p lk = (q, lk') \<Longrightarrow> \<not> owns p \<Longrightarrow> owns q \<Longrightarrow> p = LockXchg \<and> locked lk = 0 \<and> q = LockSetCpu"
  by (cases p) (auto simp: own_step_def in_lock_def xchg_def split: if_splits)

lemma release_step:
  assumes "own_step c stack p lk = (q, lk')" "owns p" "\<not> owns q" and l: "locked lk = 1" "marked p \<Longrightarrow> lk_cpu lk = Some c"
  shows "p = UnlockXchg \<and> q = Outside"
  using assms by (cases p) (auto simp: own_step_def in_lock_def split: if_splits)

lemma lock_step_own: "lock_step (ps, lk) (ps', lk') \<Longrightarrow> \<exists>c p stack. ps' = ps(c := p) \<and> own_step c stack (ps c) lk = (p, lk')"
  by (erule lock_stepE) (auto simp: own_step_def intro!: exI)

text \<open>C34: The lock code implements \<open>lock_kernel\<close> and \<open>unlock_kernel\<close>, as the rest of the model uses them: each access
  of a processor to the lock is invisible in the abstract state, or it is the successful exchange of \<open>spin_lock\<close> and \<open>lock_kernel\<close>
  takes the free lock for this processor, or it is the exchange of \<open>spin_unlock\<close> and \<open>unlock_kernel\<close> gives it back.\<close>

theorem spin_lock_refines:
  assumes r: "reachable (ps, lk)" and s: "lock_step (ps, lk) (ps', lk')" and k: "lock_rel (ps, lk) (klock k)"
  shows "lock_rel (ps', lk') (klock k) \<or>
    (\<exists>c k'. ps c = LockXchg \<and> ps' = ps(c := LockSetCpu) \<and> lock_kernel c k = Some ((), k') \<and> lock_rel (ps', lk') (klock k')) \<or>
    (\<exists>c k'. ps c = UnlockXchg \<and> ps' = ps(c := Outside) \<and> unlock_kernel c k = Some ((), k') \<and> lock_rel (ps', lk') (klock k'))"
proof -
  note i = reachable_lock_inv [OF r]
  obtain c p stack where p: "ps' = ps(c := p)" "own_step c stack (ps c) lk = (p, lk')" using lock_step_own [OF s] by blast
  show ?thesis
  proof (cases "owns p = owns (ps c)")
    case True
    then have "lock_rel (ps', lk') (klock k)" using k p(1) by (simp add: lock_rel_def)
    then show ?thesis by blast
  next
    case ne: False
    show ?thesis
    proof (cases "owns (ps c)")
      case True
      have "locked lk = 1" using lock_invD(4) [OF i] True by blast
      moreover have "lk_cpu lk = Some c" if "marked (ps c)" using that lock_invD(5) [OF i] by blast
      ultimately have "p = Outside \<and> ps c = UnlockXchg"
        using release_step [OF p(2) True] ne True by blast
      moreover have "klock k = Some c" using k True by (simp add: lock_rel_def)
      then have "unlock_kernel c k = Some ((), k\<lparr>klock := None\<rparr>)" by (simp add: unlock_kernel_def)
      moreover have "\<not> owns (ps' c')" for c'
      proof (cases "c' = c")
        case True
        then show ?thesis using ne \<open>owns (ps c)\<close> p(1) by simp
      next
        case False
        then have "\<not> owns (ps c')" using lock_invD(2) [OF i \<open>owns (ps c)\<close>, of c'] by blast
        then show ?thesis using False p(1) by simp
      qed
      then have "lock_rel (ps', lk') (klock (k\<lparr>klock := None\<rparr>))" by (simp add: lock_rel_def)
      ultimately show ?thesis using p(1) by blast
    next
      case False
      have xc: "ps c = LockXchg \<and> locked lk = 0 \<and> p = LockSetCpu"
        using acquire_step [OF p(2) False] ne False by blast
      then have no: "\<not> owns (ps c')" for c' using lock_invD(4) [OF i] by auto
      then have "klock k = None" using k by (auto simp: lock_rel_def)
      then have "lock_kernel c k = Some ((), k\<lparr>klock := Some c\<rparr>)" by (simp add: lock_kernel_def)
      moreover have "lock_rel (ps', lk') (klock (k\<lparr>klock := Some c\<rparr>))" using no xc p(1) by (auto simp: lock_rel_def)
      ultimately show ?thesis using xc p(1) by blast
    qed
  qed
qed


text \<open>Two processors compete for the lock.\<close>

lemma two_spinning: "reachable ((\<lambda>_. Outside)(0 := LockXchg, 1 := LockXchg), kernel_lock)"
proof -
  have "lock_step (\<lambda>_. Outside, kernel_lock) ((\<lambda>_. Outside)(0 := LockXchg), kernel_lock)"
    by (rule locking [where mem = "\<lambda>_. 0" and ebp = 0]) (simp_all add: in_lock_def kernel_lock_def)
  moreover have "lock_step ((\<lambda>_. Outside)(0 := LockXchg), kernel_lock) ((\<lambda>_. Outside)(0 := LockXchg, 1 := LockXchg), kernel_lock)"
    by (rule locking [where mem = "\<lambda>_. 0" and ebp = 0]) (simp_all add: in_lock_def kernel_lock_def)
  ultimately show ?thesis using reachable.intros by blast
qed

lemma two_spinning_step: "lock_step ((\<lambda>_. Outside)(0 := LockXchg, 1 := LockXchg), kernel_lock)
    ((\<lambda>_. Outside)(0 := LockXchg, 1 := LockXchg, 0 := LockSetCpu), kernel_lock\<lparr>locked := 1\<rparr>)"
  by (rule locking [where mem = "\<lambda>_. 0" and ebp = 0]) (simp_all add: in_lock_def kernel_lock_def xchg_def)

theorem spin_lock_excludes_witness:
  "\<exists>ps lk. reachable (ps, lk) \<and> ps 0 = LockSetCpu \<and> ps 1 = LockXchg \<and> (\<forall>c. owns (ps c) \<longrightarrow> c = 0) \<and> locked lk \<noteq> 0"
proof -
  note r = reachable.step [OF two_spinning two_spinning_step]
  have p: "((\<lambda>_. Outside)(0 := LockXchg, 1 := LockXchg, 0 := LockSetCpu)) 0 = LockSetCpu"
    "((\<lambda>_. Outside)(0 := LockXchg, 1 := LockXchg, 0 := LockSetCpu)) (1 :: nat) = LockXchg" by simp_all
  have "owns (((\<lambda>_. Outside)(0 := LockXchg, 1 := LockXchg, 0 := LockSetCpu)) (0 :: nat))" by simp
  with spin_lock_excludes [OF r] r p show ?thesis by blast
qed

theorem spin_lock_refines_witness:
  "\<exists>k k'. klock k = None \<and> lock_kernel 0 k = Some ((), k') \<and>
    lock_rel ((\<lambda>_. Outside)(0 := LockXchg, 1 := LockXchg, 0 := LockSetCpu), kernel_lock\<lparr>locked := 1\<rparr>) (klock k')"
proof -
  define k where "k = zero_state\<lparr>klock := None\<rparr>"
  have k: "klock k = None" by (simp add: k_def)
  have rel: "lock_rel ((\<lambda>_. Outside)(0 := LockXchg, 1 := LockXchg), kernel_lock) (klock k)" by (simp add: k lock_rel_None)
  have no: "\<not> lock_rel ((\<lambda>_. Outside)(0 := LockXchg, 1 := LockXchg, 0 := LockSetCpu), kernel_lock\<lparr>locked := 1\<rparr>) (klock k)"
    unfolding k lock_rel_None by (auto intro!: exI [of _ 0])
  obtain c k' where A: "((\<lambda>_. Outside)(0 := LockXchg, 1 := LockXchg)) c = LockXchg"
    "((\<lambda>_. Outside)(0 := LockXchg, 1 := LockXchg, 0 := LockSetCpu)) = ((\<lambda>_. Outside)(0 := LockXchg, 1 := LockXchg))(c := LockSetCpu)"
    "lock_kernel c k = Some ((), k')"
    "lock_rel ((\<lambda>_. Outside)(0 := LockXchg, 1 := LockXchg, 0 := LockSetCpu), kernel_lock\<lparr>locked := 1\<rparr>) (klock k')"
    using spin_lock_refines [OF two_spinning two_spinning_step rel] no by (auto simp: unlock_kernel_def k)
  have "c = 0" using fun_cong [OF A(2), of 0] by (cases "c = 0") auto
  with A k show ?thesis by blast
qed

end
