(* ===== verification/LibPrintf.thy ===== *)
theory LibPrintf
  imports Printf
begin

text \<open>
  The printing functions of user programs, \<^verbatim>\<open>lib/printf.c\<close> and \<^verbatim>\<open>lib/fprintf.c\<close>: they
  collect characters in a buffer of 256 bytes and hand it to the system call \<open>cputs\<close> and to
  \<open>write\<close>, which are parameters on a state \<open>'w\<close> of the world outside.
\<close>

subsection \<open>To the console (lib/printf.c)\<close>

record printbuf =
  pb_idx :: nat
  pb_cnt :: int
  pb_buf :: "nat \<Rightarrow> u8"

definition pb_bytes :: "printbuf \<Rightarrow> u8 list" where
  "pb_bytes b = map (pb_buf b) [0..<pb_idx b]"

definition user_putch :: "(u8 list \<Rightarrow> 'w \<Rightarrow> 'w) \<Rightarrow> u32 \<Rightarrow> printbuf \<times> 'w \<Rightarrow> printbuf \<times> 'w" where
  "user_putch cputs ch st =
     (let (b, w) = st;
          b = b\<lparr>pb_buf := (pb_buf b)(pb_idx b := ucast ch), pb_idx := pb_idx b + 1\<rparr>;
          (b, w) = (if pb_idx b = 256 - 1 then (b\<lparr>pb_idx := 0\<rparr>, cputs (pb_bytes b) w) else (b, w))
      in (b\<lparr>pb_cnt := pb_cnt b + 1\<rparr>, w))"

text \<open>The buffer is not initialised: \<open>junk\<close> is what it held.\<close>

definition user_vcprintf ::
  "(u8 list \<Rightarrow> 'w \<Rightarrow> 'w) \<Rightarrow> (nat \<Rightarrow> u8) \<Rightarrow> string \<Rightarrow> va list \<Rightarrow> 'w \<Rightarrow> (int \<times> 'w) option" where
  "user_vcprintf cputs junk fmt ap w = do {
     (b, w) \<leftarrow> vprintfmt (user_putch cputs) fmt ap (\<lparr>pb_idx = 0, pb_cnt = 0, pb_buf = junk\<rparr>, w);
     Some (pb_cnt b, cputs (pb_bytes b) w)
   }"

definition printed :: "(u8 list \<Rightarrow> 'w \<Rightarrow> 'w) \<Rightarrow> 'w \<Rightarrow> u32 list \<Rightarrow> printbuf \<times> 'w \<Rightarrow> bool" where
  "printed cputs w out st \<longleftrightarrow> (\<exists>chunks. snd st = fold cputs chunks w \<and> (\<forall>c \<in> set chunks. length c = 255) \<and>
     concat chunks @ pb_bytes (fst st) = map ucast out \<and> pb_idx (fst st) < 255 \<and> pb_cnt (fst st) = int (length out))"

lemma pb_bytes_snoc:
  "map ((pb_buf b)(pb_idx b := x)) [0..<Suc (pb_idx b)] = pb_bytes b @ [x]"
  by (auto simp: pb_bytes_def)

lemma user_putch_printed:
  assumes "printed cputs w out st"
  shows "printed cputs w (out @ [c]) (user_putch cputs c st)"
proof -
  obtain b v where st: "st = (b, v)" by fastforce
  obtain chunks where ch: "v = fold cputs chunks w" "\<forall>c \<in> set chunks. length c = 255"
    "concat chunks @ pb_bytes b = map ucast out" "pb_idx b < 255" "pb_cnt b = int (length out)"
    using assms by (auto simp: printed_def st)
  let ?bs = "pb_bytes b @ [ucast c]"
  have len: "length ?bs = Suc (pb_idx b)" by (simp add: pb_bytes_def)
  have cat: "concat chunks @ ?bs = map ucast (out @ [c])" using ch(3) by simp
  have bytes: "pb_bytes (b\<lparr>pb_buf := (pb_buf b)(pb_idx b := ucast c), pb_idx := Suc (pb_idx b), pb_cnt := n\<rparr>) = ?bs" for n
    using pb_bytes_snoc [of b "ucast c"] by (simp add: pb_bytes_def del: upt_Suc)
  have bytes': "pb_bytes (b\<lparr>pb_buf := (pb_buf b)(pb_idx b := ucast c), pb_idx := Suc (pb_idx b)\<rparr>) = ?bs"
    using pb_bytes_snoc [of b "ucast c"] by (simp add: pb_bytes_def del: upt_Suc)
  show ?thesis
  proof (cases "Suc (pb_idx b) = 255")
    case True
    have "printed cputs w (out @ [c]) (b\<lparr>pb_buf := (pb_buf b)(pb_idx b := ucast c), pb_idx := 0, pb_cnt := pb_cnt b + 1\<rparr>, cputs ?bs v)"
      unfolding printed_def using ch cat len True
      by (intro exI [of _ "chunks @ [?bs]"]) (auto simp: pb_bytes_def)
    then show ?thesis using True bytes' by (simp add: user_putch_def st Let_def)
  next
    case False
    then show ?thesis
      unfolding printed_def user_putch_def st
      using ch cat bytes by (auto simp: Let_def intro!: exI [of _ chunks])
  qed
qed


lemma user_putch_fold: "printed cputs w out st \<Longrightarrow> printed cputs w (out @ cs) (fold (user_putch cputs) cs st)"
proof (induction cs arbitrary: out st)
  case Nil
  then show ?case by simp
next
  case (Cons c cs)
  from Cons.IH [OF user_putch_printed [OF Cons.prems, of c]] show ?case by simp
qed

text \<open>\<open>cprintf\<close> of a user program reaches the console in system calls of at most 255 bytes which,
  one after the other, carry exactly the formatted text, and returns its length.\<close>

theorem user_vcprintf_chunks:
  assumes "vprintfmt (\<lambda>c out. out @ [c]) fmt ap [] = Some out"
  shows "\<exists>chunks. user_vcprintf cputs junk fmt ap w = Some (int (length out), fold cputs chunks w) \<and>
    concat chunks = map ucast out \<and> (\<forall>c \<in> set chunks. length c \<le> 255)"
proof -
  let ?st = "(\<lparr>pb_idx = 0, pb_cnt = 0, pb_buf = junk\<rparr>, w)"
  let ?st' = "fold (user_putch cputs) out ?st"
  have "printed cputs w [] ?st" by (auto simp: printed_def pb_bytes_def intro!: exI [of _ "[]"])
  from user_putch_fold [OF this, of out]
  obtain chunks where ch: "snd ?st' = fold cputs chunks w" "\<forall>c \<in> set chunks. length c = 255"
    "concat chunks @ pb_bytes (fst ?st') = map ucast out" "pb_idx (fst ?st') < 255" "pb_cnt (fst ?st') = int (length out)"
    by (auto simp: printed_def)
  have "vprintfmt (user_putch cputs) fmt ap ?st = Some ?st'"
    using vprintfmt_out [of "user_putch cputs" fmt ap ?st] assms by simp
  then have "user_vcprintf cputs junk fmt ap w = Some (int (length out), fold cputs (chunks @ [pb_bytes (fst ?st')]) w)"
    using ch(1,5) by (simp add: user_vcprintf_def split_beta)
  moreover have "\<forall>c \<in> set (chunks @ [pb_bytes (fst ?st')]). length c \<le> 255"
    using ch(2,4) by (auto simp: pb_bytes_def)
  ultimately show ?thesis using ch(3) by (intro exI [of _ "chunks @ [pb_bytes (fst ?st')]"]) simp
qed

theorem user_vcprintf_chunks_witness:
  "\<exists>chunks. user_vcprintf (\<lambda>bs log. log @ [bs]) (\<lambda>_. 0) ''%c%%'' [VInt 65] [] = Some (2, fold (\<lambda>bs log. log @ [bs]) chunks []) \<and>
     concat chunks = [65, 37]"
proof -
  have "vprintfmt (\<lambda>c out. out @ [c]) ''%c%%'' [VInt 65] [] = Some [65, 37]"
    by (simp add: conv_known_def convert_def is_digit_def less_eq_char_def uch_def)
  from user_vcprintf_chunks [OF this, of "\<lambda>bs log. log @ [bs]" "\<lambda>_. 0" "[]"] show ?thesis by auto
qed

subsection \<open>To a file (lib/fprintf.c)\<close>

text \<open>\<open>fwrite bs\<close> stands for \<^verbatim>\<open>write(fd, ...)\<close>: a byte count or a negative error.\<close>

record fprintbuf =
  fb_idx :: nat
  fb_result :: int
  fb_error :: int
  fb_buf :: "nat \<Rightarrow> u8"

definition fb_bytes :: "fprintbuf \<Rightarrow> u8 list" where
  "fb_bytes b = map (fb_buf b) [0..<fb_idx b]"

definition writebuf :: "(u8 list \<Rightarrow> 'w \<Rightarrow> int \<times> 'w) \<Rightarrow> fprintbuf \<times> 'w \<Rightarrow> fprintbuf \<times> 'w" where
  "writebuf fwrite st =
     (let (b, w) = st in
      if fb_error b > 0 then
        let (result, w) = fwrite (fb_bytes b) w;
            b = (if result > 0 then b\<lparr>fb_result := fb_result b + result\<rparr> else b);
            b = (if result \<noteq> int (fb_idx b) then b\<lparr>fb_error := (if result < 0 then result else 0)\<rparr> else b)
        in (b, w)
      else st)"

definition file_putch :: "(u8 list \<Rightarrow> 'w \<Rightarrow> int \<times> 'w) \<Rightarrow> u32 \<Rightarrow> fprintbuf \<times> 'w \<Rightarrow> fprintbuf \<times> 'w" where
  "file_putch fwrite ch st =
     (let (b, w) = st;
          b = b\<lparr>fb_buf := (fb_buf b)(fb_idx b := ucast ch), fb_idx := fb_idx b + 1\<rparr>
      in if fb_idx b = 256 then (let (b, w) = writebuf fwrite (b, w) in (b\<lparr>fb_idx := 0\<rparr>, w))
         else (b, w))"

definition vfprintf ::
  "(u8 list \<Rightarrow> 'w \<Rightarrow> int \<times> 'w) \<Rightarrow> (nat \<Rightarrow> u8) \<Rightarrow> string \<Rightarrow> va list \<Rightarrow> 'w \<Rightarrow> (int \<times> 'w) option" where
  "vfprintf fwrite junk fmt ap w = do {
     (b, w) \<leftarrow> vprintfmt (file_putch fwrite) fmt ap
       (\<lparr>fb_idx = 0, fb_result = 0, fb_error = 1, fb_buf = junk\<rparr>, w);
     let (b, w) = (if fb_idx b > 0 then writebuf fwrite (b, w) else (b, w));
     Some (if fb_result b \<noteq> 0 then fb_result b else fb_error b, w)
   }"

text \<open>A file that takes everything.\<close>

definition takes_all :: "(u8 list \<Rightarrow> 'w \<Rightarrow> int \<times> 'w) \<Rightarrow> (u8 list \<Rightarrow> 'w \<Rightarrow> 'w) \<Rightarrow> bool" where
  "takes_all fwrite app \<longleftrightarrow> (\<forall>bs w. fwrite bs w = (int (length bs), app bs w))"

definition written :: "(u8 list \<Rightarrow> 'w \<Rightarrow> 'w) \<Rightarrow> 'w \<Rightarrow> u32 list \<Rightarrow> fprintbuf \<times> 'w \<Rightarrow> bool" where
  "written app w out st \<longleftrightarrow> (\<exists>chunks. snd st = fold app chunks w \<and> (\<forall>c \<in> set chunks. length c \<le> 256) \<and>
     concat chunks @ fb_bytes (fst st) = map ucast out \<and> fb_idx (fst st) < 256 \<and>
     fb_result (fst st) = int (length (concat chunks)) \<and> fb_error (fst st) = 1)"

lemma fb_bytes_snoc:
  "map ((fb_buf b)(fb_idx b := x)) [0..<Suc (fb_idx b)] = fb_bytes b @ [x]"
  by (auto simp: fb_bytes_def)

lemma length_fb_bytes [simp]: "length (fb_bytes b) = fb_idx b"
  by (simp add: fb_bytes_def)

lemma writebuf_takes_all:
  assumes "takes_all fwrite app" "fb_error b = 1"
  shows "writebuf fwrite (b, w) = (b\<lparr>fb_result := fb_result b + int (fb_idx b)\<rparr>, app (fb_bytes b) w)"
  using assms by (auto simp: writebuf_def takes_all_def Let_def)

lemma file_putch_written:
  assumes fw: "takes_all fwrite app" and st0: "written app w out st"
  shows "written app w (out @ [c]) (file_putch fwrite c st)"
proof -
  obtain b v where st: "st = (b, v)" by fastforce
  obtain chunks where ch: "v = fold app chunks w" "\<forall>c \<in> set chunks. length c \<le> 256"
    "concat chunks @ fb_bytes b = map ucast out" "fb_idx b < 256" "fb_result b = int (length (concat chunks))" "fb_error b = 1"
    using st0 by (auto simp: written_def st)
  let ?b = "b\<lparr>fb_buf := (fb_buf b)(fb_idx b := ucast c), fb_idx := Suc (fb_idx b)\<rparr>"
  have bytes: "fb_bytes ?b = fb_bytes b @ [ucast c]"
    using fb_bytes_snoc [of b "ucast c"] by (simp add: fb_bytes_def del: upt_Suc)
  have cat: "concat chunks @ fb_bytes ?b = map ucast (out @ [c])" using ch(3) bytes by simp
  show ?thesis
  proof (cases "Suc (fb_idx b) = 256")
    case True
    define bs where "bs = fb_bytes ?b"
    have len: "length bs = 256" using True by (simp add: bs_def)
    have "file_putch fwrite c st = (?b\<lparr>fb_result := fb_result b + 256, fb_idx := 0\<rparr>, app bs v)"
      using True by (simp add: file_putch_def st Let_def writebuf_takes_all [OF fw] ch(6) bs_def)
    moreover have "length (concat chunks) + 256 = Suc (length out)"
      using arg_cong [OF cat, of length] len by (simp add: bs_def [symmetric])
    ultimately show ?thesis
      unfolding written_def using ch(1,2,5,6) cat len
      by (intro exI [of _ "chunks @ [bs]"]) (simp add: bs_def [symmetric] fb_bytes_def [of "_\<lparr>fb_idx := 0\<rparr>"])
  next
    case False
    then have "file_putch fwrite c st = (?b, v)" by (simp add: file_putch_def st Let_def)
    then show ?thesis
      unfolding written_def using ch False cat by (intro exI [of _ chunks]) auto
  qed
qed

lemma file_putch_fold:
  "takes_all fwrite app \<Longrightarrow> written app w out st \<Longrightarrow> written app w (out @ cs) (fold (file_putch fwrite) cs st)"
proof (induction cs arbitrary: out st)
  case Nil
  then show ?case by simp
next
  case (Cons c cs)
  from Cons.IH [OF Cons.prems(1) file_putch_written [OF Cons.prems, of c]] show ?case by simp
qed

text \<open>On a file that takes everything, \<open>vfprintf\<close> writes the formatted text in pieces of at most
  256 bytes and returns its length, except that the empty text gives 1.\<close>

theorem vfprintf_takes_all:
  assumes fw: "takes_all fwrite app" and out: "vprintfmt (\<lambda>c out. out @ [c]) fmt ap [] = Some out"
  shows "\<exists>chunks. vfprintf fwrite junk fmt ap w =
      Some (if out = [] then 1 else int (length out), fold app chunks w) \<and>
    concat chunks = map ucast out \<and> (\<forall>c \<in> set chunks. length c \<le> 256)"
proof -
  let ?st = "(\<lparr>fb_idx = 0, fb_result = 0, fb_error = 1, fb_buf = junk\<rparr>, w)"
  obtain b v where st': "fold (file_putch fwrite) out ?st = (b, v)" by fastforce
  have "written app w [] ?st" by (auto simp: written_def fb_bytes_def intro!: exI [of _ "[]"])
  from file_putch_fold [OF fw this, of out]
  obtain chunks where ch: "v = fold app chunks w" "\<forall>c \<in> set chunks. length c \<le> 256"
    "concat chunks @ fb_bytes b = map ucast out" "fb_idx b < 256" "fb_result b = int (length (concat chunks))" "fb_error b = 1"
    by (auto simp: written_def st')
  let ?chunks = "chunks @ (if fb_idx b > 0 then [fb_bytes b] else [])"
  have cat: "concat ?chunks = map ucast out" using ch(3) by (cases "fb_idx b") (auto simp: fb_bytes_def)
  have len: "int (length (concat chunks)) + int (fb_idx b) = int (length out)"
    using arg_cong [OF ch(3), of length] by simp
  have "vprintfmt (file_putch fwrite) fmt ap ?st = Some (b, v)"
    using vprintfmt_out [of "file_putch fwrite" fmt ap ?st] out st' by simp
  then have "vfprintf fwrite junk fmt ap w = Some (if out = [] then 1 else int (length out), fold app ?chunks w)"
    using ch(1,5,6) len
    by (cases "length (concat chunks)") (auto simp: vfprintf_def writebuf_takes_all [OF fw] simp del: length_concat)
  moreover have "\<forall>c \<in> set ?chunks. length c \<le> 256" using ch(2,4) by auto
  ultimately show ?thesis using cat by blast
qed

theorem vfprintf_takes_all_witness:
  "vfprintf (\<lambda>bs log. (int (length bs), log @ [bs])) (\<lambda>_. 0) [] [] [] = Some (1, [])"
proof -
  have "takes_all (\<lambda>bs log. (int (length bs), log @ [bs])) (\<lambda>bs log. log @ [bs])" by (simp add: takes_all_def)
  moreover have "vprintfmt (\<lambda>c out. out @ [c]) [] [] [] = Some []" by simp
  ultimately obtain chunks where "vfprintf (\<lambda>bs log. (int (length bs), log @ [bs])) (\<lambda>_. 0) [] [] [] =
      Some (1, fold (\<lambda>bs log. log @ [bs]) chunks [])"
    using vfprintf_takes_all [of "\<lambda>bs log. (int (length bs), log @ [bs])" "\<lambda>bs log. log @ [bs]" "[]" "[]" "[]" "\<lambda>_. 0" "[]"]
    by auto
  then show ?thesis by (simp add: vfprintf_def)
qed

end
