(* ===== verification/Strings.thy ===== *)
theory Strings
  imports Printf
begin

text \<open>
  The string and memory routines of \<^verbatim>\<open>lib/string.c\<close> on byte-addressed memory, with \<^verbatim>\<open>ASM\<close> set: the block
  operations are the string instructions of the processor. A loop that would run through memory forever has
  the result \<open>None\<close>.
\<close>

subsection \<open>Strings\<close>

type_synonym memory = "u32 \<Rightarrow> u8"

partial_function (option) strlen_loop :: "memory \<Rightarrow> u32 \<Rightarrow> u32 \<Rightarrow> u32 option" where
  [code]: "strlen_loop m s n = (if m s \<noteq> 0 then strlen_loop m (s + 1) (n + 1) else Some n)"

definition strlen :: "memory \<Rightarrow> u32 \<Rightarrow> u32 option" where
  "strlen m s = strlen_loop m s 0"

partial_function (option) strcpy_loop :: "u32 \<Rightarrow> u32 \<Rightarrow> memory \<Rightarrow> memory option" where
  [code]: "strcpy_loop dst src m =
     (let b = m src; m = m(dst := b) in if b \<noteq> 0 then strcpy_loop (dst + 1) (src + 1) m else Some m)"

definition strcpy :: "u32 \<Rightarrow> u32 \<Rightarrow> memory \<Rightarrow> (u32 \<times> memory) option" where
  "strcpy dst src m = map_option (Pair dst) (strcpy_loop dst src m)"

definition strcat :: "u32 \<Rightarrow> u32 \<Rightarrow> memory \<Rightarrow> (u32 \<times> memory) option" where
  "strcat dst src m = do {
     len \<leftarrow> strlen m dst;
     (_, m) \<leftarrow> strcpy (dst + len) src m;
     Some (dst, m)
   }"

text \<open>The counters of the bounded loops are natural numbers: the bytes left.\<close>

fun strncpy_loop :: "nat \<Rightarrow> u32 \<Rightarrow> u32 \<Rightarrow> memory \<Rightarrow> memory" where
  "strncpy_loop 0 dst src m = m"
| "strncpy_loop (Suc n) dst src m =
     (let m' = m(dst := m src) in strncpy_loop n (dst + 1) (if m' src \<noteq> 0 then src + 1 else src) m')"

definition strncpy :: "u32 \<Rightarrow> u32 \<Rightarrow> u32 \<Rightarrow> memory \<Rightarrow> u32 \<times> memory" where
  "strncpy dst src n m = (dst, strncpy_loop (unat n) dst src m)"

fun strlcpy_loop :: "nat \<Rightarrow> u32 \<Rightarrow> u32 \<Rightarrow> memory \<Rightarrow> u32 \<times> memory" where
  "strlcpy_loop n dst src m =
     (if n - 1 > 0 \<and> m src \<noteq> 0 then strlcpy_loop (n - 1) (dst + 1) (src + 1) (m(dst := m src))
      else (dst, m(dst := 0)))"

definition strlcpy :: "u32 \<Rightarrow> u32 \<Rightarrow> u32 \<Rightarrow> memory \<Rightarrow> u32 \<times> memory" where
  "strlcpy dst src n m =
     (if n > 0 then let (d, m) = strlcpy_loop (unat n) dst src m in (d - dst, m) else (0, m))"

partial_function (option) strcmp :: "memory \<Rightarrow> u32 \<Rightarrow> u32 \<Rightarrow> int option" where
  [code]: "strcmp m p q =
     (if m p \<noteq> 0 \<and> m p = m q then strcmp m (p + 1) (q + 1) else Some (int (unat (m p)) - int (unat (m q))))"

fun strncmp_loop :: "memory \<Rightarrow> u32 \<Rightarrow> u32 \<Rightarrow> nat \<Rightarrow> int" where
  "strncmp_loop m p q n =
     (if n > 0 \<and> m p \<noteq> 0 \<and> m p = m q then strncmp_loop m (p + 1) (q + 1) (n - 1)
      else if n = 0 then 0 else int (unat (m p)) - int (unat (m q)))"

definition strncmp :: "memory \<Rightarrow> u32 \<Rightarrow> u32 \<Rightarrow> u32 \<Rightarrow> int" where
  "strncmp m p q n = strncmp_loop m p q (unat n)"

text \<open>A pointer to the character, or the null pointer.\<close>

partial_function (option) strchr :: "memory \<Rightarrow> u32 \<Rightarrow> u8 \<Rightarrow> u32 option" where
  [code]: "strchr m s c = (if m s \<noteq> 0 then if m s = c then Some s else strchr m (s + 1) c else Some 0)"

partial_function (option) strfind :: "memory \<Rightarrow> u32 \<Rightarrow> u8 \<Rightarrow> u32 option" where
  [code]: "strfind m s c = (if m s \<noteq> 0 then if m s = c then Some s else strfind m (s + 1) c else Some s)"

subsection \<open>Blocks\<close>

definition get32 :: "memory \<Rightarrow> u32 \<Rightarrow> u32" where
  "get32 m p = push_bit 24 (ucast (m (p + 3))) OR push_bit 16 (ucast (m (p + 2))) OR push_bit 8 (ucast (m (p + 1))) OR ucast (m p)"

definition put32 :: "u32 \<Rightarrow> u32 \<Rightarrow> memory \<Rightarrow> memory" where
  "put32 p w m = m(p := ucast w, p + 1 := ucast (drop_bit 8 w), p + 2 := ucast (drop_bit 16 w), p + 3 := ucast (drop_bit 24 w))"

text \<open>The string instructions: \<open>n\<close> elements, upwards or (with the direction flag) downwards.\<close>

fun rep_stosl :: "nat \<Rightarrow> u32 \<Rightarrow> u32 \<Rightarrow> memory \<Rightarrow> memory" where
  "rep_stosl 0 d a m = m"
| "rep_stosl (Suc n) d a m = rep_stosl n (d + 4) a (put32 d a m)"

fun rep_stosb :: "nat \<Rightarrow> u32 \<Rightarrow> u32 \<Rightarrow> memory \<Rightarrow> memory" where
  "rep_stosb 0 d a m = m"
| "rep_stosb (Suc n) d a m = rep_stosb n (d + 1) a (m(d := ucast a))"

fun rep_movsl :: "bool \<Rightarrow> nat \<Rightarrow> u32 \<Rightarrow> u32 \<Rightarrow> memory \<Rightarrow> memory" where
  "rep_movsl down 0 d s m = m"
| "rep_movsl down (Suc n) d s m =
     (let m = put32 d (get32 m s) m in if down then rep_movsl down n (d - 4) (s - 4) m else rep_movsl down n (d + 4) (s + 4) m)"

fun rep_movsb :: "bool \<Rightarrow> nat \<Rightarrow> u32 \<Rightarrow> u32 \<Rightarrow> memory \<Rightarrow> memory" where
  "rep_movsb down 0 d s m = m"
| "rep_movsb down (Suc n) d s m =
     (let m = m(d := m s) in if down then rep_movsb down n (d - 1) (s - 1) m else rep_movsb down n (d + 1) (s + 1) m)"

definition aligned4 :: "u32 \<Rightarrow> bool" where "aligned4 w \<longleftrightarrow> w mod 4 = 0"

definition memset :: "u32 \<Rightarrow> u32 \<Rightarrow> u32 \<Rightarrow> memory \<Rightarrow> u32 \<times> memory" where
  "memset v c n m =
     (if n = 0 then (v, m)
      else if aligned4 v \<and> aligned4 n then
        let c = c AND 0xFF; c = push_bit 24 c OR push_bit 16 c OR push_bit 8 c OR c in (v, rep_stosl (unat (n div 4)) v c m)
      else (v, rep_stosb (unat n) v c m))"

definition memmove :: "u32 \<Rightarrow> u32 \<Rightarrow> u32 \<Rightarrow> memory \<Rightarrow> u32 \<times> memory" where
  "memmove dst src n m =
     (if src < dst \<and> src + n > dst then
        let s = src + n; d = dst + n in
        if aligned4 s \<and> aligned4 d \<and> aligned4 n then (dst, rep_movsl True (unat (n div 4)) (d - 4) (s - 4) m)
        else (dst, rep_movsb True (unat n) (d - 1) (s - 1) m)
      else if aligned4 src \<and> aligned4 dst \<and> aligned4 n then (dst, rep_movsl False (unat (n div 4)) dst src m)
      else (dst, rep_movsb False (unat n) dst src m))"

definition memcpy :: "u32 \<Rightarrow> u32 \<Rightarrow> u32 \<Rightarrow> memory \<Rightarrow> u32 \<times> memory" where
  "memcpy dst src n m = memmove dst src n m"

fun memcmp_loop :: "memory \<Rightarrow> u32 \<Rightarrow> u32 \<Rightarrow> nat \<Rightarrow> int" where
  "memcmp_loop m s1 s2 0 = 0"
| "memcmp_loop m s1 s2 (Suc n) =
     (if m s1 \<noteq> m s2 then int (unat (m s1)) - int (unat (m s2)) else memcmp_loop m (s1 + 1) (s2 + 1) n)"

definition memcmp :: "memory \<Rightarrow> u32 \<Rightarrow> u32 \<Rightarrow> u32 \<Rightarrow> int" where
  "memcmp m v1 v2 n = memcmp_loop m v1 v2 (unat n)"

function memfind_loop :: "memory \<Rightarrow> u32 \<Rightarrow> u32 \<Rightarrow> u32 \<Rightarrow> u32" where
  "memfind_loop m s ends c =
     (if s < ends then if m s = ucast c then s else memfind_loop m (s + 1) ends c else s)"
  by auto
termination
proof (relation "measure (\<lambda>(m, s, ends, c). unat ends - unat s)")
  fix m :: memory and s ends c :: u32
  assume "s < ends"
  then have "unat s < unat ends" by (simp add: word_less_nat_alt)
  moreover from this have "unat (s + 1) = unat s + 1" using unsigned_less [of ends, where 'a = nat] by (simp add: unat_word_ariths)
  ultimately show "((m, s + 1, ends, c), m, s, ends, c) \<in> measure (\<lambda>(m, s, ends, c). unat ends - unat s)" by simp
qed simp

definition memfind :: "memory \<Rightarrow> u32 \<Rightarrow> u32 \<Rightarrow> u32 \<Rightarrow> u32" where
  "memfind m s c n = memfind_loop m s (s + n) c"

declare strlcpy_loop.simps [simp del] strncmp_loop.simps [simp del] memfind_loop.simps [simp del]

subsection \<open>Numbers\<close>

partial_function (option) skip_blanks :: "memory \<Rightarrow> u32 \<Rightarrow> u32 option" where
  [code]: "skip_blanks m s = (if m s = 32 \<or> m s = 9 then skip_blanks m (s + 1) else Some s)"

definition digit_of :: "u8 \<Rightarrow> u32 option" where
  "digit_of b =
     (if b \<ge> 48 \<and> b \<le> 57 then Some (ucast b - 48)
      else if b \<ge> 97 \<and> b \<le> 122 then Some (ucast b - 97 + 10)
      else if b \<ge> 65 \<and> b \<le> 90 then Some (ucast b - 65 + 10)
      else None)"

partial_function (option) strtol_digits :: "memory \<Rightarrow> u32 \<Rightarrow> u32 \<Rightarrow> u32 \<Rightarrow> (u32 \<times> u32) option" where
  [code]: "strtol_digits m s base val =
     (case digit_of (m s) of
        None \<Rightarrow> Some (val, s)
      | Some dig \<Rightarrow> if sint dig \<ge> sint base then Some (val, s) else strtol_digits m (s + 1) base (val * base + dig))"

text \<open>The value and the end pointer; overflow wraps around.\<close>

definition strtol :: "memory \<Rightarrow> u32 \<Rightarrow> u32 \<Rightarrow> (u32 \<times> u32) option" where
  "strtol m s base = do {
     s \<leftarrow> skip_blanks m s;
     let neg = m s = 45;
     let s = (if m s = 43 \<or> m s = 45 then s + 1 else s);
     let (s, base) =
       (if (base = 0 \<or> base = 16) \<and> m s = 48 \<and> m (s + 1) = 120 then (s + 2, 16)
        else if base = 0 \<and> m s = 48 then (s + 1, 8)
        else if base = 0 then (s, 10)
        else (s, base));
     (val, s) \<leftarrow> strtol_digits m s base 0;
     Some (if neg then - val else val, s)
   }"

subsection \<open>Reading and writing stretches of memory\<close>

definition peek :: "memory \<Rightarrow> u32 \<Rightarrow> nat \<Rightarrow> u8 list" where
  "peek m p n = map (\<lambda>i. m (p + of_nat i)) [0..<n]"

fun poke :: "u32 \<Rightarrow> u8 list \<Rightarrow> memory \<Rightarrow> memory" where
  "poke p [] m = m"
| "poke p (b # bs) m = poke (p + 1) bs (m(p := b))"

definition span :: "u32 \<Rightarrow> nat \<Rightarrow> u32 set" where
  "span p n = (\<lambda>i. p + of_nat i) ` {..<n}"

lemma length_peek [simp]: "length (peek m p n) = n"
  by (simp add: peek_def)

lemma peek_nth: "i < n \<Longrightarrow> peek m p n ! i = m (p + of_nat i)"
  by (simp add: peek_def)

lemma peek_0 [simp]: "peek m p 0 = []"
  by (simp add: peek_def)

lemma peek_Suc: "peek m p (Suc n) = m p # peek m (p + 1) n"
  by (rule nth_equalityI) (simp_all add: peek_nth nth_Cons add.assoc split: nat.splits)

lemma peek_add: "peek m p (k + n) = peek m p k @ peek m (p + of_nat k) n"
  by (induction k arbitrary: p) (simp_all add: peek_Suc algebra_simps)

lemma peek_cong: "(\<And>i. i < n \<Longrightarrow> m' (p + of_nat i) = m (p + of_nat i)) \<Longrightarrow> peek m' p n = peek m p n"
  by (simp add: peek_def)

lemma span_upt: "span p n = set (map (\<lambda>i. p + of_nat i) [0..<n])"
  by (simp add: span_def lessThan_atLeast0)

lemma span_Suc: "span p (Suc n) = insert p (span (p + 1) n)"
proof -
  have "(\<lambda>i. p + of_nat i) ` {..<Suc n} = insert p ((\<lambda>i. p + of_nat (Suc i)) ` {..<n})"
    by (simp add: lessThan_Suc_eq_insert_0 image_image)
  then show ?thesis by (simp add: span_def algebra_simps)
qed

lemma poke_other: "a \<notin> span p (length bs) \<Longrightarrow> poke p bs m a = m a"
  by (induction bs arbitrary: p m) (auto simp: span_Suc)

lemma poke_append: "poke p (bs @ cs) m = poke (p + of_nat (length bs)) cs (poke p bs m)"
  by (induction bs arbitrary: p m) (simp_all add: algebra_simps)

lemma poke_upd: "a \<notin> span p (length bs) \<Longrightarrow> poke p bs (m(a := b)) = (poke p bs m)(a := b)"
  by (induction bs arbitrary: p m) (auto simp: span_Suc fun_upd_twist)

lemma offset_inj: "i < 2 ^ 32 \<Longrightarrow> j < 2 ^ 32 \<Longrightarrow> p + of_nat i = p + (of_nat j :: u32) \<longleftrightarrow> i = j"
  by (simp add: word_of_nat_eq_iff take_bit_nat_eq_self)

lemma span_next: "n < 2 ^ 32 \<Longrightarrow> i \<notin> {..<n} \<Longrightarrow> i < 2 ^ 32 \<Longrightarrow> p + of_nat i \<notin> span p n"
  by (auto simp: span_def offset_inj simp del: add_left_cancel)

lemma poke_nth: "i < length bs \<Longrightarrow> length bs \<le> 2 ^ 32 \<Longrightarrow> poke p bs m (p + of_nat i) = bs ! i"
proof (induction bs arbitrary: p m i)
  case (Cons b bs)
  show ?case
  proof (cases i)
    case 0
    have "p \<notin> span (p + 1) (length bs)"
    proof
      assume "p \<in> span (p + 1) (length bs)"
      then obtain k where k: "k < length bs" "p + of_nat (Suc k) = p + of_nat 0" by (auto simp: span_def algebra_simps)
      moreover have "Suc k < 2 ^ 32" using k(1) Cons.prems(2) by simp
      ultimately show False using offset_inj [of "Suc k" 0 p] by simp
    qed
    then show ?thesis using 0 by (simp add: poke_other)
  next
    case (Suc k)
    then show ?thesis using Cons.IH [of k "p + 1"] Cons.prems by (simp add: algebra_simps)
  qed
qed simp

lemma peek_poke: "length bs \<le> 2 ^ 32 \<Longrightarrow> peek (poke p bs m) p (length bs) = bs"
  by (rule nth_equalityI) (simp_all add: peek_nth poke_nth)

subsection \<open>Block moves\<close>

lemma put32_poke: "put32 d (get32 m s) m = poke d (peek m s 4) m"
proof -
  have p: "peek m s 4 = [m s, m (s + 1), m (s + 2), m (s + 3)]"
    by (simp add: peek_def numeral_eq_Suc)
  have b: "ucast (get32 m s) = m s" "ucast (drop_bit 8 (get32 m s)) = m (s + 1)" "ucast (drop_bit 16 (get32 m s)) = m (s + 2)"
    "ucast (drop_bit 24 (get32 m s)) = m (s + 3)"
    by (rule bit_word_eqI; auto simp: get32_def bit_simps dest: bit_imp_le_length)+
  show ?thesis by (simp add: put32_def b p add.assoc)
qed

text \<open>\<open>apart d s lo n\<close>: writing byte \<open>i\<close> at \<open>d\<close> does not change byte \<open>j\<close> at \<open>s\<close>, for those read later.\<close>

lemma movsb_up:
  assumes "\<And>i j. i < j \<Longrightarrow> j < n \<Longrightarrow> d + of_nat i \<noteq> s + of_nat j"
  shows "rep_movsb False n d s m = poke d (peek m s n) m"
  using assms
proof (induction n arbitrary: d s m)
  case (Suc n)
  have d: "d \<noteq> s + 1 + of_nat j" if "j < n" for j
    using Suc.prems [of 0 "Suc j"] that by (simp add: add.assoc)
  then have "peek (m(d := m s)) (s + 1) n = peek m (s + 1) n" by (intro peek_cong) (metis fun_upd_other)
  moreover have "d + 1 + of_nat i \<noteq> s + 1 + of_nat j" if "i < j" "j < n" for i j
    using Suc.prems [of "Suc i" "Suc j"] that by (simp add: add.assoc)
  ultimately show ?case using Suc.IH [of "d + 1" "s + 1" "m(d := m s)"] by (simp add: peek_Suc Let_def del: fun_upd_apply)
qed simp

lemma movsl_up:
  assumes "\<And>i j. i < j \<Longrightarrow> j < 4 * n \<Longrightarrow> d + of_nat i \<noteq> s + of_nat j"
  shows "rep_movsl False n d s m = poke d (peek m s (4 * n)) m"
  using assms
proof (induction n arbitrary: d s m)
  case (Suc n)
  let ?m = "poke d (peek m s 4) m"
  have "s + 4 + of_nat j \<notin> span d 4" if "j < 4 * n" for j
  proof
    assume "s + 4 + of_nat j \<in> span d 4"
    then obtain i where i: "i < 4" "d + of_nat i = s + of_nat (4 + j)" by (auto simp: span_def algebra_simps)
    then show False using Suc.prems [of i "4 + j"] that by simp
  qed
  then have "peek ?m (s + 4) (4 * n) = peek m (s + 4) (4 * n)" by (intro peek_cong) (simp add: poke_other)
  moreover have "d + 4 + of_nat i \<noteq> s + 4 + of_nat j" if "i < j" "j < 4 * n" for i j
    using Suc.prems [of "4 + i" "4 + j"] that by (simp add: algebra_simps)
  ultimately have "rep_movsl False (Suc n) d s m = poke (d + 4) (peek m (s + 4) (4 * n)) ?m"
    using Suc.IH [of "d + 4" "s + 4" ?m] by (simp add: put32_poke Let_def)
  also have "\<dots> = poke d (peek m s 4 @ peek m (s + 4) (4 * n)) m" by (simp add: poke_append)
  also have "peek m s 4 @ peek m (s + 4) (4 * n) = peek m s (4 * Suc n)" using peek_add [of m s 4 "4 * n"] by simp
  finally show ?case .
qed simp

lemma poke_apart: "span p (length bs) \<inter> span q (length cs) = {} \<Longrightarrow> poke p bs (poke q cs m) = poke q cs (poke p bs m)"
proof (induction cs arbitrary: q m)
  case (Cons c cs)
  have "q \<notin> span p (length bs)" "span p (length bs) \<inter> span (q + 1) (length cs) = {}" using Cons.prems by (auto simp: span_Suc)
  then show ?case using Cons.IH [of "q + 1" "m(q := c)"] by (simp add: poke_upd del: fun_upd_apply)
qed simp

lemma span_disjoint:
  assumes "k + n \<le> 2 ^ 32"
  shows "span p k \<inter> span (p + of_nat k) n = {}"
proof (rule ccontr)
  assume "span p k \<inter> span (p + of_nat k) n \<noteq> {}"
  then obtain i j where "i < k" "j < n" "p + of_nat i = p + of_nat (k + j)" by (auto simp: span_def algebra_simps)
  then show False using offset_inj [of i "k + j" p] assms by simp
qed

lemma movsb_down:
  assumes "\<And>i j. j < i \<Longrightarrow> i < n \<Longrightarrow> d + of_nat i \<noteq> s + of_nat j" "n \<le> 2 ^ 32"
  shows "rep_movsb True n (d + of_nat n - 1) (s + of_nat n - 1) m = poke d (peek m s n) m"
  using assms
proof (induction n arbitrary: m)
  case (Suc n)
  let ?b = "m (s + of_nat n)" and ?m = "m(d + of_nat n := m (s + of_nat n))"
  have "peek ?m s n = peek m s n" by (rule peek_cong) (metis Suc.prems(1) lessI fun_upd_other)
  moreover have "d + of_nat n \<notin> span d n" by (rule span_next) (use Suc.prems(2) in simp_all)
  ultimately have "rep_movsb True n (d + of_nat n - 1) (s + of_nat n - 1) ?m = (poke d (peek m s n) m)(d + of_nat n := ?b)"
    using Suc.IH [of ?m] Suc.prems by (simp add: poke_upd del: fun_upd_apply)
  moreover have "peek m s (Suc n) = peek m s n @ [?b]" using peek_add [of m s n 1] by (simp add: peek_Suc)
  ultimately show ?case by (simp add: poke_append Let_def algebra_simps)
qed simp

lemma movsl_down:
  assumes "\<And>i j. j < i \<Longrightarrow> i < 4 * n \<Longrightarrow> d + of_nat i \<noteq> s + of_nat j" "4 * n \<le> 2 ^ 32"
  shows "rep_movsl True n (d + of_nat (4 * n) - 4) (s + of_nat (4 * n) - 4) m = poke d (peek m s (4 * n)) m"
  using assms
proof (induction n arbitrary: m)
  case (Suc n)
  let ?b = "peek m (s + of_nat (4 * n)) 4"
  let ?m = "poke (d + of_nat (4 * n)) ?b m"
  have "s + of_nat j \<notin> span (d + of_nat (4 * n)) 4" if "j < 4 * n" for j
  proof
    assume "s + of_nat j \<in> span (d + of_nat (4 * n)) 4"
    then obtain i where i: "i < 4" "d + of_nat (4 * n + i) = s + of_nat j" by (auto simp: span_def algebra_simps)
    then show False using Suc.prems(1) [of j "4 * n + i"] that by simp
  qed
  then have "peek ?m s (4 * n) = peek m s (4 * n)" by (intro peek_cong) (simp add: poke_other)
  moreover have "span d (length (peek m s (4 * n))) \<inter> span (d + of_nat (4 * n)) (length ?b) = {}"
    using span_disjoint [of "4 * n" 4 d] Suc.prems(2) by simp
  note apart = poke_apart [OF this]
  moreover have "rep_movsl True n (d + of_nat (4 * n) - 4) (s + of_nat (4 * n) - 4) ?m = poke d (peek ?m s (4 * n)) ?m"
    by (rule Suc.IH) (use Suc.prems in simp_all)
  ultimately have "rep_movsl True n (d + of_nat (4 * n) - 4) (s + of_nat (4 * n) - 4) ?m = poke (d + of_nat (4 * n)) ?b (poke d (peek m s (4 * n)) m)"
    by (simp only: apart)
  moreover have "peek m s (4 * Suc n) = peek m s (4 * n) @ ?b" using peek_add [of m s "4 * n" 4] by (simp add: add.commute)
  moreover have "d + of_nat (4 * Suc n) - 4 = d + of_nat (4 * n)" "s + of_nat (4 * Suc n) - 4 = s + of_nat (4 * n)" by simp_all
  ultimately show ?case by (simp only: rep_movsl.simps Let_def put32_poke if_True poke_append length_peek)
qed simp

lemma unat_offset: "unat p + i < 2 ^ 32 \<Longrightarrow> unat (p + of_nat i :: u32) = unat p + i"
  by (simp add: unat_word_ariths unat_of_nat)

lemma offset_neq:
  assumes "unat d + i < 2 ^ 32" "unat s + j < 2 ^ 32" "unat d + i \<noteq> unat s + j"
  shows "d + of_nat i \<noteq> (s + of_nat j :: u32)"
proof
  assume e: "d + of_nat i = (s + of_nat j :: u32)"
  show False using unat_offset [OF assms(1)] unat_offset [OF assms(2)] assms(3) unfolding e by simp
qed

lemma aligned_quarter: "aligned4 n \<Longrightarrow> 4 * unat (n div 4) = unat n"
proof -
  assume "aligned4 n"
  then have "unat n mod 4 = 0" using unat_mod [of n 4] by (simp add: aligned4_def)
  then have "4 * (unat n div 4) = unat n" by presburger
  then show ?thesis by (simp add: unat_div)
qed

lemma memmove_eq:
  assumes s: "unat src + unat n < 2 ^ 32" and d: "unat dst + unat n \<le> 2 ^ 32"
  shows "memmove dst src n m = (dst, poke dst (peek m src (unat n)) m)"
proof (cases "src < dst \<and> src + n > dst")
  case True
  have ne: "dst + of_nat i \<noteq> src + of_nat j" if "j < i" "i < unat n" for i j
    using True s d that by (intro offset_neq) (auto simp: word_less_nat_alt)
  have n: "unat n \<le> 2 ^ 32" using s by simp
  have "rep_movsl True (unat (n div 4)) (dst + n - 4) (src + n - 4) m = poke dst (peek m src (unat n)) m" if "aligned4 n"
    using movsl_down [of "unat (n div 4)" dst src m] ne n unfolding aligned_quarter [OF that] by simp
  moreover have "rep_movsb True (unat n) (dst + n - 1) (src + n - 1) m = poke dst (peek m src (unat n)) m"
    using movsb_down [of "unat n" dst src m] ne n by simp
  ultimately show ?thesis using True by (simp add: memmove_def Let_def)
next
  case False
  have "unat (src + n) = unat src + unat n" using s by (simp add: unat_word_ariths)
  then have c: "unat dst \<le> unat src \<or> unat src + unat n \<le> unat dst" using False by (auto simp: word_less_nat_alt)
  have ne: "dst + of_nat i \<noteq> src + of_nat j" if "i < j" "j < unat n" for i j
    using c s d that by (intro offset_neq) auto
  have "rep_movsl False (unat (n div 4)) dst src m = poke dst (peek m src (unat n)) m" if "aligned4 n"
    using movsl_up [of "unat (n div 4)" dst src m] ne unfolding aligned_quarter [OF that] by simp
  moreover have "rep_movsb False (unat n) dst src m = poke dst (peek m src (unat n)) m"
    using movsb_up [of "unat n" dst src m] ne by simp
  ultimately show ?thesis using False by (auto simp: memmove_def)
qed

text \<open>C36: \<open>memmove\<close> copies correctly for any alignment and any overlap of the two blocks: in each of the four ways it runs, the
  destination gets the bytes the source had before the call, and nothing else changes. The blocks must not wrap around the address
  space (the end of a source block at the very top wraps to 0 and would choose the wrong direction).\<close>

theorem memmove_spec:
  assumes s: "unat src + unat n < 2 ^ 32" and d: "unat dst + unat n \<le> 2 ^ 32"
  shows "\<exists>m'. memmove dst src n m = (dst, m') \<and> memcpy dst src n m = (dst, m') \<and> peek m' dst (unat n) = peek m src (unat n) \<and>
    (\<forall>a. a \<notin> span dst (unat n) \<longrightarrow> m' a = m a)"
  using memmove_eq [OF assms] peek_poke [of "peek m src (unat n)"] s poke_other [of _ dst "peek m src (unat n)" m]
  by (simp add: memcpy_def)

text \<open>Four bytes moved up by two within a block, and by four within aligned memory.\<close>

theorem memmove_spec_witness:
  "peek (snd (memmove 0x1002 0x1000 4 ucast)) 0x1000 6 = [0, 1, 0, 1, 2, 3] \<and>
   peek (snd (memmove 0x1004 0x1000 8 ucast)) 0x1000 12 = [0, 1, 2, 3, 0, 1, 2, 3, 4, 5, 6, 7]"
proof -
  have l: "[0..<12] = [0, 1, 2, 3, 4, 5, 6, 7, 8, 9, 10, 11 :: nat]" "[0..<8] = [0, 1, 2, 3, 4, 5, 6, 7 :: nat]"
    "[0..<6] = [0, 1, 2, 3, 4, 5 :: nat]" "[0..<4] = [0, 1, 2, 3 :: nat]" "[0..<2] = [0, 1 :: nat]" by code_simp+
  have a: "peek (snd (memmove 0x1002 0x1000 4 ucast)) 0x1002 4 = [0, 1, 2, 3]"
    "\<forall>a. a \<notin> span 0x1002 4 \<longrightarrow> snd (memmove 0x1002 0x1000 4 ucast) a = ucast a"
    using memmove_spec [of "0x1000" 4 "0x1002" ucast] by (auto simp: peek_def l)
  have b: "peek (snd (memmove 0x1004 0x1000 8 ucast)) 0x1004 8 = [0, 1, 2, 3, 4, 5, 6, 7]"
    "\<forall>a. a \<notin> span 0x1004 8 \<longrightarrow> snd (memmove 0x1004 0x1000 8 ucast) a = ucast a"
    using memmove_spec [of "0x1000" 8 "0x1004" ucast] by (auto simp: peek_def l)
  have "0x1000 \<notin> span 0x1002 4" "0x1001 \<notin> span 0x1002 4" "0x1000 \<notin> span 0x1004 8" "0x1001 \<notin> span 0x1004 8"
    "0x1002 \<notin> span 0x1004 8" "0x1003 \<notin> span 0x1004 8"
    unfolding span_upt l by simp_all
  with a b show ?thesis by (simp add: peek_def l)
qed

subsection \<open>Strings in memory\<close>

text \<open>\<open>str_at m p xs\<close>: the zero-terminated string at \<open>p\<close> is \<open>xs\<close>.\<close>

fun str_at :: "memory \<Rightarrow> u32 \<Rightarrow> u8 list \<Rightarrow> bool" where
  "str_at m p [] \<longleftrightarrow> m p = 0"
| "str_at m p (x # xs) \<longleftrightarrow> m p = x \<and> x \<noteq> 0 \<and> str_at m (p + 1) xs"

lemma str_at_iff: "str_at m p xs \<longleftrightarrow> peek m p (Suc (length xs)) = xs @ [0] \<and> 0 \<notin> set xs"
proof (induction xs arbitrary: p)
  case (Cons x xs)
  have "peek m p (Suc (length (x # xs))) = m p # peek m (p + 1) (Suc (length xs))" by (simp only: peek_Suc list.size add_Suc_right add_0_right)
  then show ?case using Cons.IH [of "p + 1"] by auto
qed (simp add: peek_Suc)

lemma str_at_cong: "str_at m p xs \<Longrightarrow> (\<And>i. i \<le> length xs \<Longrightarrow> m' (p + of_nat i) = m (p + of_nat i)) \<Longrightarrow> str_at m' p xs"
  using peek_cong [of "Suc (length xs)" m' p m] by (simp add: str_at_iff)

lemma str_at_poke: "length xs < 2 ^ 32 \<Longrightarrow> 0 \<notin> set xs \<Longrightarrow> str_at (poke p (xs @ [0]) m) p xs"
  using peek_poke [of "xs @ [0]" p m] by (simp add: str_at_iff)

lemma poke_same: "peek m p (length bs) = bs \<Longrightarrow> poke p bs m = m"
  by (induction bs arbitrary: p) (simp_all add: peek_Suc)

lemma strlen_loop_ok: "str_at m s xs \<Longrightarrow> strlen_loop m s n = Some (n + of_nat (length xs))"
  by (induction xs arbitrary: s n) (subst strlen_loop.simps, simp add: algebra_simps)+

lemma strlen_ok: "str_at m s xs \<Longrightarrow> strlen m s = Some (of_nat (length xs))"
  by (simp add: strlen_def strlen_loop_ok)

lemma strcpy_loop_ok:
  "str_at m s xs \<Longrightarrow> (\<And>i j. i < j \<Longrightarrow> j \<le> length xs \<Longrightarrow> d + of_nat i \<noteq> s + of_nat j) \<Longrightarrow>
     strcpy_loop d s m = Some (poke d (xs @ [0]) m)"
proof (induction xs arbitrary: d s m)
  case Nil
  then show ?case by (subst strcpy_loop.simps) (simp add: Let_def)
next
  case (Cons x xs)
  have d: "d \<noteq> s + 1 + of_nat j" if "j \<le> length xs" for j
    using Cons.prems(2) [of 0 "Suc j"] that by (simp add: add.assoc)
  have "str_at (m(d := x)) (s + 1) xs"
  proof (rule str_at_cong)
    show "str_at m (s + 1) xs" using Cons.prems(1) by simp
    show "(m(d := x)) (s + 1 + of_nat i) = m (s + 1 + of_nat i)" if "i \<le> length xs" for i
      using d [OF that] by (metis fun_upd_other)
  qed
  moreover have "d + 1 + of_nat i \<noteq> s + 1 + of_nat j" if "i < j" "j \<le> length xs" for i j
    using Cons.prems(2) [of "Suc i" "Suc j"] that by (simp add: add.assoc)
  ultimately have "strcpy_loop (d + 1) (s + 1) (m(d := x)) = Some (poke (d + 1) (xs @ [0]) (m(d := x)))" by (rule Cons.IH)
  then show ?case using Cons.prems(1) by (subst strcpy_loop.simps) (simp add: Let_def)
qed

text \<open>\<open>strcat\<close> appends the second string to the first, if the places for the result and the second string are apart.\<close>

lemma strcat_ok:
  assumes d: "str_at m dst xs" and s: "str_at m src ys" and len: "unat dst + length xs + length ys < 2 ^ 32" "unat src + length ys < 2 ^ 32"
    and apart: "unat src + length ys < unat dst \<or> unat dst + length xs + length ys < unat src"
  shows "strcat dst src m = Some (dst, poke (dst + of_nat (length xs)) (ys @ [0]) m)" "str_at (poke (dst + of_nat (length xs)) (ys @ [0]) m) dst (xs @ ys)"
proof -
  let ?d = "dst + of_nat (length xs)"
  have ud: "unat ?d = unat dst + length xs" using unat_offset [of dst "length xs"] len(1) by simp
  have "?d + of_nat i \<noteq> src + of_nat j" if "i < j" "j \<le> length ys" for i j
    using len apart that by (intro offset_neq) (simp_all only: ud, linarith+)
  then show "strcat dst src m = Some (dst, poke ?d (ys @ [0]) m)"
    by (simp add: strcat_def strlen_ok [OF d] strcpy_def strcpy_loop_ok [OF s])
  have x: "peek m dst (length xs) = xs" "0 \<notin> set xs" "0 \<notin> set ys"
    using d s peek_add [of m dst "length xs" 1] by (simp_all add: str_at_iff)
  have "poke dst ((xs @ ys) @ [0]) m = poke ?d (ys @ [0]) m" using poke_same [OF x(1)] by (simp add: poke_append [of _ xs])
  moreover have "str_at (poke dst ((xs @ ys) @ [0]) m) dst (xs @ ys)" by (rule str_at_poke) (use x len in auto)
  ultimately show "str_at (poke ?d (ys @ [0]) m) dst (xs @ ys)" by simp
qed

lemma strlcpy_loop_ok:
  "str_at m s xs \<Longrightarrow> 0 < n \<Longrightarrow> (\<And>i j. i < j \<Longrightarrow> i < n \<Longrightarrow> j \<le> length xs \<Longrightarrow> d + of_nat i \<noteq> s + of_nat j) \<Longrightarrow>
     strlcpy_loop n d s m = (d + of_nat (length (take (n - 1) xs)), poke d (take (n - 1) xs @ [0]) m)"
proof (induction xs arbitrary: n d s m)
  case Nil
  then show ?case by (subst strlcpy_loop.simps) simp
next
  case (Cons x xs)
  show ?case
  proof (cases "n = 1")
    case True
    then show ?thesis by (subst strlcpy_loop.simps) simp
  next
    case False
    then have n: "1 < n" using Cons.prems(2) by simp
    have d: "d \<noteq> s + 1 + of_nat j" if "j \<le> length xs" for j
      using Cons.prems(3) [of 0 "Suc j"] that n by (simp add: add.assoc)
    have "str_at (m(d := x)) (s + 1) xs"
    proof (rule str_at_cong)
      show "str_at m (s + 1) xs" using Cons.prems(1) by simp
      show "(m(d := x)) (s + 1 + of_nat i) = m (s + 1 + of_nat i)" if "i \<le> length xs" for i
        using d [OF that] by (metis fun_upd_other)
    qed
    moreover have "0 < n - 1" using n by simp
    moreover have "d + 1 + of_nat i \<noteq> s + 1 + of_nat j" if "i < j" "i < n - 1" "j \<le> length xs" for i j
      using Cons.prems(3) [of "Suc i" "Suc j"] that by (simp add: add.assoc)
    ultimately have "strlcpy_loop (n - 1) (d + 1) (s + 1) (m(d := x)) =
        (d + 1 + of_nat (length (take (n - 1 - 1) xs)), poke (d + 1) (take (n - 1 - 1) xs @ [0]) (m(d := x)))"
      by (rule Cons.IH)
    moreover have "take (n - 1) (x # xs) = x # take (n - 1 - 1) xs" using n by (cases "n - 1") auto
    moreover have "strlcpy_loop n d s m = strlcpy_loop (n - 1) (d + 1) (s + 1) (m(d := x))"
      using Cons.prems(1) n by (subst strlcpy_loop.simps) auto
    ultimately show ?thesis by (simp add: add.assoc)
  qed
qed


lemma u8_pos: "x \<noteq> 0 \<Longrightarrow> 0 < uint (x :: u8)"
  using word_less_def [of 0 x] by (simp add: word_gt_0)

text \<open>\<open>strcmp\<close> is 0 exactly on equal strings, and its sign is the lexicographic order of unsigned bytes.\<close>

lemma strcmp_ok:
  "str_at m p xs \<Longrightarrow> str_at m q ys \<Longrightarrow>
     \<exists>r. strcmp m p q = Some r \<and> (r = 0 \<longleftrightarrow> xs = ys) \<and> (r < 0 \<longleftrightarrow> (xs, ys) \<in> lexord {(a, b). a < b})"
proof (induction xs arbitrary: p q ys)
  case Nil
  then show ?case by (subst strcmp.simps, cases ys) (auto dest: u8_pos)
next
  case (Cons x xs)
  show ?case
  proof (cases ys)
    case Nil
    then show ?thesis using Cons.prems by (subst strcmp.simps) (auto dest: u8_pos)
  next
    case (Cons y ys')
    show ?thesis
    proof (cases "x = y")
      case True
      then show ?thesis using Cons.IH [of "p + 1" "q + 1" ys'] Cons.prems Cons by (subst strcmp.simps) auto
    next
      case False
      then have "uint x \<noteq> uint y" by (simp add: word_uint_eq_iff)
      then show ?thesis using Cons.prems Cons False by (subst strcmp.simps) (auto simp: word_less_def)
    qed
  qed
qed

lemma strfind_ok: "str_at m s xs \<Longrightarrow> c \<noteq> 0 \<Longrightarrow> strfind m s c = Some (s + of_nat (length (takeWhile (\<lambda>x. x \<noteq> c) xs)))"
  by (induction xs arbitrary: s) (subst strfind.simps, simp add: add.assoc)+

lemma strchr_ok: "str_at m s xs \<Longrightarrow> c \<noteq> 0 \<Longrightarrow>
    strchr m s c = Some (if c \<in> set xs then s + of_nat (length (takeWhile (\<lambda>x. x \<noteq> c) xs)) else 0)"
  by (induction xs arbitrary: s) (subst strchr.simps, auto simp: add.assoc)+

lemma memcmp_ok: "memcmp_loop m p q n = 0 \<longleftrightarrow> peek m p n = peek m q n"
  by (induction n arbitrary: p q) (auto simp: peek_Suc word_uint_eq_iff)

lemma memcmp_less: "memcmp_loop m p q n < 0 \<longleftrightarrow> (peek m p n, peek m q n) \<in> lexord {(a, b). a < b}"
  by (induction n arbitrary: p q) (auto simp: peek_Suc word_less_def)

lemma stosb_ok: "rep_stosb n d a m = poke d (replicate n (ucast a)) m"
  by (induction n arbitrary: d m) simp_all

lemma stosl_ok: "ucast a = b \<Longrightarrow> ucast (drop_bit 8 a) = b \<Longrightarrow> ucast (drop_bit 16 a) = b \<Longrightarrow> ucast (drop_bit 24 a) = b \<Longrightarrow>
    rep_stosl n d a m = poke d (replicate (4 * n) b) m"
proof (induction n arbitrary: d m)
  case (Suc n)
  have "replicate (4 * Suc n) b = [b, b, b, b] @ replicate (4 * n) b" by (simp add: numeral_eq_Suc)
  moreover have "put32 d a m = poke d [b, b, b, b] m" using Suc.prems by (simp add: put32_def add.assoc del: fun_upd_apply)
  ultimately show ?case using Suc by (simp only: rep_stosl.simps poke_append) (simp del: fun_upd_apply)
qed simp

lemma memset_ok: "unat v + unat n \<le> 2 ^ 32 \<Longrightarrow> memset v c n m = (v, poke v (replicate (unat n) (ucast c)) m)"
proof -
  define a where "a = push_bit 24 (c AND 0xFF) OR push_bit 16 (c AND 0xFF) OR push_bit 8 (c AND 0xFF) OR (c AND 0xFF)"
  have m: "(0xFF :: u32) = mask 8" by (simp add: mask_eq_exp_minus_1)
  have "ucast a = (ucast c :: u8)" "ucast (drop_bit 8 a) = (ucast c :: u8)" "ucast (drop_bit 16 a) = (ucast c :: u8)" "ucast (drop_bit 24 a) = (ucast c :: u8)"
    by (rule bit_word_eqI; auto simp: a_def m bit_simps)+
  from stosl_ok [OF this] have "rep_stosl (unat (n div 4)) v a m = poke v (replicate (unat n) (ucast c)) m" if "aligned4 n"
    by (simp add: aligned_quarter [OF that])
  then show ?thesis by (auto simp: memset_def Let_def stosb_ok a_def)
qed

subsection \<open>Reading back what was printed\<close>

definition digit_byte :: "nat \<Rightarrow> u8" where
  "digit_byte d = ucast (uch (''0123456789abcdef'' ! d))"

lemma below_16: "d < 16 \<Longrightarrow> d \<in> {0, 1, 2, 3, 4, 5, 6, 7, 8, 9, 10, 11, 12, 13, 14, 15 :: nat}"
  by (simp add: numeral_eq_Suc less_Suc_eq)

lemma digit_byte_vals:
  "digit_byte 0 = 48" "digit_byte 1 = 49" "digit_byte 2 = 50" "digit_byte 3 = 51" "digit_byte 4 = 52" "digit_byte 5 = 53"
  "digit_byte 6 = 54" "digit_byte 7 = 55" "digit_byte 8 = 56" "digit_byte 9 = 57" "digit_byte 10 = 97" "digit_byte 11 = 98"
  "digit_byte 12 = 99" "digit_byte 13 = 100" "digit_byte 14 = 101" "digit_byte 15 = 102"
  by (simp_all add: digit_byte_def uch_def of_char_def)

lemma digit_byte_ok:
  assumes "d < 16"
  shows "digit_of (digit_byte d) = Some (of_nat d)" "digit_byte d \<notin> {0, 9, 32, 43, 45, 120}" "digit_byte d = 48 \<longleftrightarrow> d = 0"
proof -
  have "digit_of (digit_byte d) = Some (of_nat d) \<and> digit_byte d \<notin> {0, 9, 32, 43, 45, 120} \<and> (digit_byte d = 48 \<longleftrightarrow> d = 0)"
    using below_16 [OF assms] by (elim insertE) (simp_all add: digit_byte_vals [unfolded One_nat_def] digit_of_def)
  then show "digit_of (digit_byte d) = Some (of_nat d)" "digit_byte d \<notin> {0, 9, 32, 43, 45, 120}" "digit_byte d = 48 \<longleftrightarrow> d = 0" by blast+
qed

lemma strtol_digits_ok:
  assumes "str_at m s (map digit_byte ds)" "\<forall>d \<in> set ds. int d < sint base" "sint base \<le> 16"
  shows "strtol_digits m s base val = Some (foldl (\<lambda>a d. a * base + of_nat d) val ds, s + of_nat (length ds))"
  using assms(1,2)
proof (induction ds arbitrary: s val)
  case Nil
  then show ?case by (subst strtol_digits.simps) (simp add: digit_of_def)
next
  case (Cons d ds)
  have d: "d < 16" "int d < sint base" using Cons.prems(2) assms(3) by auto
  have "sint (of_nat d :: u32) = int d" using d(1) by (simp add: signed_of_nat signed_take_bit_int_eq_self)
  then show ?case using Cons d(2) digit_byte_ok(1) [OF d(1)]
    by (subst strtol_digits.simps) (simp add: add.assoc)
qed

lemma foldl_word: "foldl (\<lambda>a d. a * of_nat b + of_nat d) (of_nat v) ds = (of_nat (foldl (\<lambda>a d. a * b + d) v ds) :: u32)"
proof (induction ds arbitrary: v)
  case (Cons d ds)
  show ?case using Cons.IH [of "v * b + d"] by simp
qed simp

lemma strtol_body:
  assumes s: "str_at m s (map digit_byte ds)" and ds: "ds \<noteq> []" "\<forall>d \<in> set ds. int d < sint base" and b: "1 < sint base" "sint base \<le> 16"
  shows "strtol m s base = Some (foldl (\<lambda>a d. a * base + of_nat d) 0 ds, s + of_nat (length ds))"
    "m p = 45 \<Longrightarrow> s = p + 1 \<Longrightarrow> strtol m p base = Some (- foldl (\<lambda>a d. a * base + of_nat d) 0 ds, p + of_nat (Suc (length ds)))"
proof -
  have l: "d < 16" if "d \<in> set ds" for d using ds(2) b(2) that by force
  obtain d ds' where d: "ds = d # ds'" using ds(1) by (cases ds) auto
  have c: "m s \<notin> {0, 9, 32, 43, 45, 120}" using s d l [of d] digit_byte_ok(2) by auto
  have x: "m (s + 1) \<noteq> 120"
    using s d l digit_byte_ok(2) by (cases ds') auto
  have b0: "base \<noteq> 0" using b(1) by auto
  note body = strtol_digits_ok [OF s ds(2) b(2), of 0]
  show "strtol m s base = Some (foldl (\<lambda>a d. a * base + of_nat d) 0 ds, s + of_nat (length ds))"
    using c x b0 body by (simp add: strtol_def skip_blanks.simps [of m s] Let_def)
  assume m: "m p = 45" "s = p + 1"
  show "strtol m p base = Some (- foldl (\<lambda>a d. a * base + of_nat d) 0 ds, p + of_nat (Suc (length ds)))"
    using m c x b0 body by (simp add: strtol_def skip_blanks.simps [of m p] Let_def add.assoc)
qed

lemma printed_number:
  assumes "2 \<le> unat base"
  shows "printnum (\<lambda>c out. out @ [c]) num base (-1) pc st = Some (st @ digit_chars (unat base) (unat num))"
proof -
  have "fold (\<lambda>c out. out @ [c]) xs ys = ys @ xs" for xs ys :: "u32 list" by (induction xs arbitrary: ys) auto
  then show ?thesis by (simp add: printnum_out [OF assms])
qed

lemma printed_raw:
  "vprintfmt (\<lambda>c out. out @ [c]) ''%d'' [VInt w] [] =
     (if sint (scast w :: u64) < 0 then Some (uch CHR ''-'' # digit_chars 10 (unat (- scast w :: u64)))
      else Some (digit_chars 10 (unat (scast w :: u64))))"
  "vprintfmt (\<lambda>c out. out @ [c]) ''%x'' [VInt w] [] = Some (digit_chars 16 (unat (ucast w :: u64)))"
  "vprintfmt (\<lambda>c out. out @ [c]) ''%o'' [VInt w] [] = Some (digit_chars 8 (unat (ucast w :: u64)))"
  by (simp_all add: fmt_simps fspec0_def convert_def put_signed_def printed_number getint_def getuint_def)

lemma printed_formats:
  "vprintfmt (\<lambda>c out. out @ [c]) ''%d'' [VInt w] [] =
     (if sint w < 0 then Some (uch CHR ''-'' # digit_chars 10 (nat (- sint w))) else Some (digit_chars 10 (unat w)))"
  "vprintfmt (\<lambda>c out. out @ [c]) ''%x'' [VInt w] [] = Some (digit_chars 16 (unat w))"
  "vprintfmt (\<lambda>c out. out @ [c]) ''%o'' [VInt w] [] = Some (digit_chars 8 (unat w))"
proof -
  have r: "- (2 ^ 31) \<le> sint w" "sint w < 2 ^ 31" using sint_greater_eq [of w] sint_less [of w] by simp_all
  have s: "sint (scast w :: u64) = sint w" by (rule sint_up_scast) (simp add: is_up)
  have e: "scast w = (word_of_int (sint w) :: u64)" "(word_of_int (sint w) :: u32) = w"
    by (rule scast_eq, simp)
  have neg: "unat (- scast w :: u64) = nat (- sint w)" if "sint w < 0"
  proof -
    have "- scast w = (word_of_int (- sint w) :: u64)" unfolding e(1) by (simp only: of_int_minus)
    moreover have "uint (word_of_int (- sint w) :: u64) = - sint w" using r that by (subst uint_word_of_int) simp
    ultimately show ?thesis by (simp add: unat_eq_nat_uint)
  qed
  have pos: "unat (scast w :: u64) = unat w" if "\<not> sint w < 0"
  proof -
    have "uint (word_of_int (sint w) :: u64) = sint w" "uint (word_of_int (sint w) :: u32) = sint w"
      using r that by (subst uint_word_of_int, simp)+
    then show ?thesis unfolding e by (simp only: unat_eq_nat_uint e(1))
  qed
  have up: "is_up (ucast :: u32 \<Rightarrow> u64)" by (simp add: is_up)
  have u: "unat (ucast w :: u64) = unat w" by (simp only: unat_eq_nat_uint uint_up_ucast [OF up])
  show "vprintfmt (\<lambda>c out. out @ [c]) ''%d'' [VInt w] [] =
     (if sint w < 0 then Some (uch CHR ''-'' # digit_chars 10 (nat (- sint w))) else Some (digit_chars 10 (unat w)))"
    unfolding printed_raw s using neg pos by (auto simp only: if_True if_False split: if_splits)
  show "vprintfmt (\<lambda>c out. out @ [c]) ''%x'' [VInt w] [] = Some (digit_chars 16 (unat w))"
    "vprintfmt (\<lambda>c out. out @ [c]) ''%o'' [VInt w] [] = Some (digit_chars 8 (unat w))"
    unfolding printed_raw u by (rule refl)+
qed

text \<open>C37: Round trip: \<open>strtol\<close> reads back what \<open>printf\<close> wrote. Whatever the 32-bit word, its text under
  \<open>%d\<close>, \<open>%x\<close> or \<open>%o\<close>, stored as a terminated string, is read in the same base as the word itself, and the end
  pointer is at the terminator; so signs, zero, the least integer and words above the largest one survive.\<close>

theorem strtol_reads_printf:
  assumes f: "(fmt, base) \<in> {(''%d'', 10), (''%x'', 16), (''%o'', 8)}"
    and out: "vprintfmt (\<lambda>c out. out @ [c]) fmt [VInt w] [] = Some out" and m: "str_at m s (map ucast out)"
  shows "strtol m s base = Some (w, s + of_nat (length out))"
proof -
  have digs: "map ucast (digit_chars b n) = map digit_byte (nat_digits b n)" for b n
    by (simp add: digit_chars_def digit_byte_def)
  have ne: "nat_digits b n \<noteq> []" for b n by (simp add: nat_digits.simps [of b n])
  have len: "length (digit_chars b n) = length (nat_digits b n)" for b n by (simp add: digit_chars_def)
  have val: "foldl (\<lambda>a d. a * base + of_nat d) 0 (nat_digits b n) = (of_nat n :: u32)" if "base = of_nat b" "2 \<le> b" for b n
    using foldl_word [of b 0 "nat_digits b n"] nat_digits_value [OF that(2), of n] that(1) by simp
  have read: "strtol m s base = Some (of_nat n, s + of_nat (length out))" if "out = digit_chars b n" "base = of_nat b" "b \<in> {8, 10, 16}" for b n
  proof -
    have b: "2 \<le> b" "sint base = int b" using that(2,3) by auto
    have "\<forall>d \<in> set (nat_digits b n). int d < sint base" using nat_digits_less [OF b(1)] b(2) by auto
    then show ?thesis
      using strtol_body(1) [of m s "nat_digits b n" base] m that ne val [OF that(2) b(1)] b(2) by (auto simp: digs len)
  qed
  have x: "strtol m s base = Some (w, s + of_nat (length out))" if "out = digit_chars b (unat w)" "base = of_nat b" "b \<in> {8, 10, 16}" for b
    using read [OF that] by simp
  consider "fmt = ''%d''" "base = 10" | "fmt = ''%x''" "base = 16" | "fmt = ''%o''" "base = 8" using f by auto
  then show ?thesis
  proof cases
    case 1
    show ?thesis
    proof (cases "sint w < 0")
      case True
      let ?n = "nat (- sint w)"
      have o: "out = uch CHR ''-'' # digit_chars 10 ?n" using out 1 True printed_formats(1) [of w] by simp
      have p: "m s = 45" "str_at m (s + 1) (map digit_byte (nat_digits 10 ?n))" using m o by (auto simp: digs uch_def of_char_def)
      have "\<forall>d \<in> set (nat_digits 10 ?n). int d < sint base" using nat_digits_less [of 10] 1 by auto
      then have "strtol m s base = Some (- of_nat ?n, s + of_nat (Suc (length (nat_digits 10 ?n))))"
        using strtol_body(2) [OF p(2) ne, of base s] p(1) 1 val [of 10 ?n] by simp
      moreover have "- of_nat ?n = w" using True by (simp add: word_of_int_nat)
      ultimately show ?thesis using o by (simp add: len)
    next
      case False
      then show ?thesis using x [of 10] out 1 printed_formats(1) [of w] by simp
    qed
  next
    case 2
    then show ?thesis using x [of 16] out printed_formats(2) [of w] by simp
  next
    case 3
    then show ?thesis using x [of 8] out printed_formats(3) [of w] by simp
  qed
qed


theorem strtol_reads_printf_witness:
  "strtol (poke 0x1000 [45, 52, 50, 0] (\<lambda>_. 7)) 0x1000 10 = Some (- 42, 0x1003)"
proof -
  have "nat_digits 10 42 = [4, 2]" by (simp add: nat_digits.simps)
  then have d: "digit_chars 10 42 = [52, 50]" by (simp add: digit_chars_def uch_def of_char_def)
  have "vprintfmt (\<lambda>c out. out @ [c]) ''%d'' [VInt (- 42)] [] = Some [45, 52, 50]"
    unfolding printed_formats by (simp add: d uch_def of_char_def)
  moreover have "str_at (poke 0x1000 [45, 52, 50, 0] (\<lambda>_. 7)) 0x1000 (map ucast [45, 52, 50 :: u32])"
    using str_at_poke [of "[45, 52, 50]" "0x1000"] by simp
  ultimately show ?thesis using strtol_reads_printf [of "''%d''" 10 "- 42" "[45, 52, 50]" _ "0x1000"] by simp
qed

end
