(* ===== verification/Spec2Isabelle.thy ===== *)
theory Spec2Isabelle
  imports Boot Spinlock LibPrintf Strings
begin

text \<open>
  A verification library for the JOS kernel and its user libraries.
\<close>

end
